(* ===== verification/Prelude.thy ===== *)
theory Prelude
  imports Main "HOL-Library.Word"
begin

text \<open>
  What every component of the model shares: the machine types of \<open>src/common/types.hpp\<close>, the
  errors a C++ operation can end with (the exception classes of the repository, those of the
  standard library that the code can raise, and undefined behaviour), reachability in a transition
  system with the rule that an inductive invariant holds in every reachable state, runs of an
  operation over a list of requests, and facts about lists and words that no single component owns.
\<close>

unbundle bit_operations_syntax

named_theorems inv_defs \<open>definitions of the invariants of the components\<close>

subsection \<open>Machine types\<close>

type_synonym u64 = "64 word"
type_synonym u32 = "32 word"
type_synonym in_port = "16 word"
type_synonym byte = "8 word"

text \<open>\<open>msg_id_t\<close> and \<open>msg_t\<close>: a message identifier is the number of the message's first byte in
  its session, and a payload is a vector of bytes.\<close>

type_synonym msg_id_t = u64
type_synonym msg_t = "byte list"

subsection \<open>Errors\<close>

text \<open>
  An operation that ends abnormally returns \<open>Inl\<close> of one of these. The first group is the
  undefined behaviour of C++, by the rule that is broken; the rest are exceptions. The exceptions of
  the repository carry the text that \<open>what()\<close> returns.
\<close>

datatype ub =
    Out_Of_Bounds       \<comment> \<open>\<open>operator[]\<close>, \<open>memcpy\<close> or a copied range outside the container\<close>
  | Empty_Container     \<comment> \<open>\<open>front()\<close> or \<open>back()\<close> of an empty deque\<close>
  | Invalid_Iterator    \<comment> \<open>use of an end iterator's element or of an invalidated iterator\<close>
  | Division_By_Zero

datatype cpp_error =
    Undefined ub
  | Bad_Optional_Access
  | Invalid_Argument
  | Out_Of_Range
  | Socket_Exception string
  | Address_Exception string
  | Ctrl_Msg_Exception string
  | Data_Msg_Exception string
  | Buffer_Access_Exception string

text \<open>The classes that derive from \<open>base_exception\<close>, and the text each of them carries.\<close>

fun what :: "cpp_error \<Rightarrow> string option" where
  "what (Socket_Exception m) = Some m"
| "what (Address_Exception m) = Some m"
| "what (Ctrl_Msg_Exception m) = Some m"
| "what (Data_Msg_Exception m) = Some m"
| "what (Buffer_Access_Exception m) = Some m"
| "what _ = None"

type_synonym 'a result = "cpp_error + 'a"

text \<open>Sequencing: what follows an operation is done only when it has ended normally.\<close>

definition and_then :: "'a result \<Rightarrow> ('a \<Rightarrow> 'b result) \<Rightarrow> 'b result" where
  "and_then r f = (case r of Inl e \<Rightarrow> Inl e | Inr x \<Rightarrow> f x)"

lemma and_then_simps [simp]:
  "and_then (Inr x) f = f x"
  "and_then (Inl e) f = Inl e"
  by (simp_all add: and_then_def)

lemma and_then_ok_iff: "and_then r f = Inr y \<longleftrightarrow> (\<exists>x. r = Inr x \<and> f x = Inr y)"
  by (cases r) simp_all

lemma and_then_okE:
  "and_then r f = Inr y \<Longrightarrow> (\<And>x. r = Inr x \<Longrightarrow> f x = Inr y \<Longrightarrow> P) \<Longrightarrow> P"
  by (auto simp: and_then_ok_iff)

lemma map_sum_ok_iff: "map_sum f g r = Inr y \<longleftrightarrow> (\<exists>x. r = Inr x \<and> y = g x)"
  by (cases r) auto

text \<open>A loop that applies a fallible operation to each element and stops at the first error.\<close>

fun map_result :: "('a \<Rightarrow> 'b result) \<Rightarrow> 'a list \<Rightarrow> 'b list result" where
  "map_result f [] = Inr []"
| "map_result f (x # xs) =
     (case f x of
        Inl e \<Rightarrow> Inl e
      | Inr y \<Rightarrow> (case map_result f xs of Inl e \<Rightarrow> Inl e | Inr ys \<Rightarrow> Inr (y # ys)))"

lemma map_result_all_ok:
  "(\<And>x. x \<in> set xs \<Longrightarrow> f x = Inr (g x)) \<Longrightarrow> map_result f xs = Inr (map g xs)"
  by (induction xs) auto

lemma map_result_length: "map_result f xs = Inr ys \<Longrightarrow> length ys = length xs"
  by (induction xs arbitrary: ys) (auto split: sum.splits)

subsection \<open>Reachable states\<close>

inductive reach :: "('s \<Rightarrow> bool) \<Rightarrow> ('s \<Rightarrow> 's \<Rightarrow> bool) \<Rightarrow> 's \<Rightarrow> bool"
  for start :: "'s \<Rightarrow> bool" and step :: "'s \<Rightarrow> 's \<Rightarrow> bool" where
  reach_start: "start s \<Longrightarrow> reach start step s"
| reach_step: "reach start step s \<Longrightarrow> step s t \<Longrightarrow> reach start step t"

text \<open>The contract of an inductive invariant, and what a client of it may conclude.\<close>

locale inductive_invariant =
  fixes start :: "'s \<Rightarrow> bool"
    and step :: "'s \<Rightarrow> 's \<Rightarrow> bool"
    and good :: "'s \<Rightarrow> bool"
  assumes good_start: "start s \<Longrightarrow> good s"
    and good_step: "step s t \<Longrightarrow> good s \<Longrightarrow> good t"
begin

lemma reach_good: "reach start step s \<Longrightarrow> good s"
  by (induction rule: reach.induct) (auto intro: good_start good_step)

lemma steps_good: "step\<^sup>*\<^sup>* s t \<Longrightarrow> good s \<Longrightarrow> good t"
  by (induction rule: rtranclp_induct) (auto intro: good_step)

end

subsection \<open>Words and lists\<close>

lemma unat_add_no_wrap:
  fixes a b :: "'w::len word"
  shows "unat a + unat b < 2 ^ LENGTH('w) \<Longrightarrow> unat (a + b) = unat a + unat b"
  by (simp add: unat_word_ariths)

lemma unat_add_below:
  fixes a b c :: "'w::len word"
  assumes "unat a + unat b \<le> unat c"
  shows "unat (a + b) = unat a + unat b"
  by (rule unat_add_no_wrap) (rule le_less_trans [OF assms unsigned_less])

lemma unat_diff_le:
  fixes a b :: "'w::len word"
  shows "b \<le> a \<Longrightarrow> unat (a - b) = unat a - unat b"
  by (simp add: unat_sub)

lemma unat_of_nat_small:
  "n < 2 ^ LENGTH('w::len) \<Longrightarrow> unat (of_nat n :: 'w word) = n"
  by (simp add: unat_of_nat take_bit_nat_eq_self)

text \<open>The last \<open>n\<close> elements of a list: what a bounded queue keeps.\<close>

definition lastn :: "nat \<Rightarrow> 'a list \<Rightarrow> 'a list" where
  "lastn n xs = drop (length xs - n) xs"

lemma length_lastn [simp]: "length (lastn n xs) = min n (length xs)"
  by (simp add: lastn_def)

lemma lastn_all [simp]: "length xs \<le> n \<Longrightarrow> lastn n xs = xs"
  by (simp add: lastn_def)

lemma lastn_snoc:
  "lastn n (lastn n xs @ [x]) = lastn n (xs @ [x])"
  by (cases "length xs \<le> n") (auto simp: lastn_def Suc_diff_le)

lemma lastn_append:
  "lastn n (lastn n xs @ ys) = lastn n (xs @ ys)"
proof (induction ys rule: rev_induct)
  case Nil
  then show ?case by (simp add: lastn_def)
next
  case (snoc y ys)
  have "lastn n (lastn n xs @ ys @ [y]) = lastn n (lastn n (lastn n xs @ ys) @ [y])"
    using lastn_snoc [of n "lastn n xs @ ys" y] by simp
  also have "\<dots> = lastn n (xs @ ys @ [y])"
    using snoc lastn_snoc [of n "xs @ ys" y] by simp
  finally show ?case .
qed

end
