(* ===== verification/Data_Msg.thy ===== *)
theory Data_Msg
  imports Prelude
begin

text \<open>
  \<open>src/common/data_msg.hpp\<close>: the data message, its wire format and the byte-order helpers
  \<open>htonll\<close> and \<open>ntohll\<close>. The host's byte order is a parameter of everything that reads a
  word's memory. The documented protocol (README, ``Data streaming protocol'') is
  \<open>protocol_packet\<close>: session id and first byte number, both big-endian, then the audio bytes.
\<close>

subsection \<open>Words in memory\<close>

datatype host = Little_Endian | Big_Endian

primrec le_bytes :: "nat \<Rightarrow> u64 \<Rightarrow> byte list" where
  "le_bytes 0 v = []"
| "le_bytes (Suc n) v = ucast v # le_bytes n (drop_bit 8 v)"

primrec from_le :: "byte list \<Rightarrow> u64" where
  "from_le [] = 0"
| "from_le (b # bs) = ucast b OR push_bit 8 (from_le bs)"

text \<open>The eight bytes a \<open>uint64_t\<close> occupies, from its lowest address, and the value they hold.\<close>

definition memory_of :: "host \<Rightarrow> u64 \<Rightarrow> byte list" where
  "memory_of h v = (case h of Little_Endian \<Rightarrow> le_bytes 8 v | Big_Endian \<Rightarrow> rev (le_bytes 8 v))"

definition value_at :: "host \<Rightarrow> byte list \<Rightarrow> u64" where
  "value_at h bs = (case h of Little_Endian \<Rightarrow> from_le bs | Big_Endian \<Rightarrow> from_le (rev bs))"

lemma length_le_bytes [simp]: "length (le_bytes n v) = n"
  by (induction n arbitrary: v) auto

lemma length_memory_of [simp]: "length (memory_of h v) = 8"
  by (simp add: memory_of_def split: host.split)

lemma le_bytes_8:
  "le_bytes 8 v = [ucast v, ucast (drop_bit 8 v), ucast (drop_bit 16 v), ucast (drop_bit 24 v),
     ucast (drop_bit 32 v), ucast (drop_bit 40 v), ucast (drop_bit 48 v), ucast (drop_bit 56 v)]"
proof -
  have "le_bytes (Suc (Suc (Suc (Suc (Suc (Suc (Suc (Suc 0)))))))) v =
    [ucast v, ucast (drop_bit 8 v), ucast (drop_bit 16 v), ucast (drop_bit 24 v),
     ucast (drop_bit 32 v), ucast (drop_bit 40 v), ucast (drop_bit 48 v), ucast (drop_bit 56 v)]"
    by simp
  then show ?thesis by (simp add: eval_nat_numeral)
qed

lemma from_le_le_bytes: "from_le (le_bytes n v) = take_bit (8 * n) v"
proof (induction n arbitrary: v)
  case 0
  then show ?case by simp
next
  case (Suc n)
  have "from_le (le_bytes (Suc n) v) = ucast (ucast v :: byte) OR push_bit 8 (take_bit (8 * n) (drop_bit 8 v))"
    using Suc by simp
  also have "\<dots> = take_bit (8 * Suc n) v"
    by (rule bit_eqI) (auto simp: bit_simps)
  finally show ?case .
qed

lemma value_at_memory_of [simp]: "value_at h (memory_of h v) = v"
  by (cases h) (simp_all add: value_at_def memory_of_def from_le_le_bytes take_bit_word_eq_self)

lemma le_bytes_inject: "le_bytes 8 v = le_bytes 8 w \<longleftrightarrow> v = w"
  using value_at_memory_of [of Little_Endian] by (metis host.case(1) memory_of_def)

subsection \<open>The byte-order helpers\<close>

definition num :: u32 where
  "num = 2137"

text \<open>The byte at the address of \<open>num\<close>, which the test reads through a \<open>const char *\<close>.\<close>

definition byte_at_num :: "host \<Rightarrow> byte" where
  "byte_at_num h = (case h of Little_Endian \<Rightarrow> ucast num | Big_Endian \<Rightarrow> ucast (drop_bit 24 num))"

text \<open>\<open>*reinterpret_cast<const char *>(&num) == num\<close>: both sides are promoted to \<open>int\<close>.\<close>

definition host_is_little_endian :: "host \<Rightarrow> bool" where
  "host_is_little_endian h \<longleftrightarrow> sint (byte_at_num h) = sint num"

text \<open>The C library's \<open>htonl\<close> and \<open>ntohl\<close>: the same exchange of bytes on a little-endian host.\<close>

definition htonl :: "host \<Rightarrow> u32 \<Rightarrow> u32" where
  "htonl h w = (case h of
     Little_Endian \<Rightarrow>
       push_bit 24 (w AND 255) OR push_bit 8 (w AND 65280)
         OR (drop_bit 8 w AND 65280) OR (drop_bit 24 w AND 255)
   | Big_Endian \<Rightarrow> w)"

definition htonll :: "host \<Rightarrow> u64 \<Rightarrow> u64" where
  "htonll h v =
     (if host_is_little_endian h then
        let high_part = htonl h (ucast (drop_bit 32 v));
            low_part = htonl h (ucast (v AND 0xFFFFFFFF))
        in push_bit 32 (ucast low_part) OR ucast high_part
      else v)"

definition ntohll :: "host \<Rightarrow> u64 \<Rightarrow> u64" where
  "ntohll h v =
     (if host_is_little_endian h then
        let high_part = htonl h (ucast (drop_bit 32 v));
            low_part = htonl h (ucast (v AND 0xFFFFFFFF))
        in push_bit 32 (ucast low_part) OR ucast high_part
      else v)"

lemma host_test_fails [simp]: "\<not> host_is_little_endian h"
  by (cases h) (simp_all add: host_is_little_endian_def byte_at_num_def num_def)

lemma htonll_eq [simp]: "htonll h v = v"
  by (simp add: htonll_def)

lemma ntohll_eq [simp]: "ntohll h v = v"
  by (simp add: ntohll_def)

text \<open>What is read from memory is written back unchanged.\<close>

lemma from_le_small: "take_bit (8 * length bs) (from_le bs) = from_le bs"
proof (induction bs)
  case Nil
  then show ?case by simp
next
  case (Cons b bs)
  have "take_bit (8 * length (b # bs)) (from_le (b # bs))
      = ucast b OR push_bit 8 (take_bit (8 * length bs) (from_le bs))"
    by (rule bit_eqI) (auto simp: bit_simps dest: bit_imp_le_length)
  then show ?case using Cons by simp
qed

lemma le_bytes_from_le: "length bs \<le> 8 \<Longrightarrow> le_bytes (length bs) (from_le bs) = bs"
proof (induction bs)
  case Nil
  then show ?case by simp
next
  case (Cons b bs)
  have low: "ucast (ucast b OR push_bit 8 (from_le bs)) = b"
    by (rule bit_eqI) (auto simp: bit_simps)
  have "drop_bit 8 (ucast b OR push_bit 8 (take_bit (8 * length bs) (from_le bs)))
      = take_bit (8 * length bs) (from_le bs)"
    using Cons.prems by (intro bit_eqI) (auto simp: bit_simps dest: bit_imp_le_length)
  then have "drop_bit 8 (ucast b OR push_bit 8 (from_le bs)) = from_le bs"
    by (simp only: from_le_small)
  with Cons low show ?case by simp
qed

lemma memory_of_value_at: "length bs = 8 \<Longrightarrow> memory_of h (value_at h bs) = bs"
  using le_bytes_from_le [of bs] le_bytes_from_le [of "rev bs"]
  by (cases h) (simp_all add: memory_of_def value_at_def)

subsection \<open>A codec for identifiers, and packets built from it\<close>

text \<open>
  What a packet format needs of the encoding of an identifier: a fixed width of
  \<open>sizeof(msg_id_t)\<close>, and a decoder that inverts the encoder in both directions. The client is the
  packet: two identifiers in front of the data.
\<close>

locale id_codec =
  fixes enc :: "u64 \<Rightarrow> byte list"
    and dec :: "byte list \<Rightarrow> u64"
  assumes length_enc: "length (enc v) = 8"
    and dec_enc: "dec (enc v) = v"
    and enc_dec: "length bs = 8 \<Longrightarrow> enc (dec bs) = bs"
begin

lemma enc_inject: "enc v = enc w \<longleftrightarrow> v = w"
  using dec_enc by metis

lemma packet_fields:
  assumes "raw = enc s @ enc i @ d"
  shows "length raw = 16 + length d" "dec (take 8 raw) = s" "dec (take 8 (drop 8 raw)) = i"
    "drop 16 raw = d"
  using assms by (simp_all add: length_enc dec_enc)

lemma packet_of_fields:
  assumes "16 \<le> length raw"
  shows "enc (dec (take 8 raw)) @ enc (dec (take 8 (drop 8 raw))) @ drop 16 raw = raw"
proof -
  have "take 8 (drop 8 raw) @ drop 16 raw = drop 8 raw"
    using append_take_drop_id [of 8 "drop 8 raw"] by (simp add: add.commute)
  then show ?thesis
    using assms by (simp add: enc_dec)
qed

lemma packet_inject:
  "enc s @ enc i @ d = enc s' @ enc i' @ d' \<longleftrightarrow> s = s' \<and> i = i' \<and> d = d'"
  by (auto simp: length_enc enc_inject)

end

text \<open>The codec that the code's calls of \<open>htonll\<close>, \<open>ntohll\<close> and \<open>memcpy\<close> amount to.\<close>

interpretation host_codec: id_codec "\<lambda>v. memory_of h (htonll h v)" "\<lambda>bs. ntohll h (value_at h bs)"
  for h
  by unfold_locales (simp_all add: memory_of_value_at)

text \<open>The codec of the documented protocol: big-endian on every host.\<close>

definition protocol_id :: "u64 \<Rightarrow> byte list" where
  "protocol_id v = rev (le_bytes 8 v)"

definition protocol_packet :: "u64 \<Rightarrow> u64 \<Rightarrow> byte list \<Rightarrow> byte list" where
  "protocol_packet s i d = protocol_id s @ protocol_id i @ d"

interpretation protocol_codec: id_codec protocol_id "\<lambda>bs. from_le (rev bs)"
  by unfold_locales
    (use value_at_memory_of [of Big_Endian] memory_of_value_at [of _ Big_Endian] in
      \<open>simp_all add: protocol_id_def value_at_def memory_of_def\<close>)

subsection \<open>The class \<open>data_msg\<close>\<close>

record data_msg =
  dm_id :: msg_id_t
  dm_session_id :: "msg_id_t option"
  dm_data :: "msg_t option"

text \<open>The four constructors. The last one reads a received packet: a packet with fewer than
  \<open>2 * sizeof(msg_id_t)\<close> bytes makes it copy from outside the vector.\<close>

definition data_msg_id :: "msg_id_t \<Rightarrow> data_msg" where
  "data_msg_id i = \<lparr>dm_id = i, dm_session_id = None, dm_data = None\<rparr>"

definition data_msg_id_data :: "msg_id_t \<Rightarrow> msg_t \<Rightarrow> data_msg" where
  "data_msg_id_data i d = \<lparr>dm_id = i, dm_session_id = None, dm_data = Some d\<rparr>"

definition data_msg_full :: "msg_id_t \<Rightarrow> msg_id_t \<Rightarrow> msg_t \<Rightarrow> data_msg" where
  "data_msg_full i s d = \<lparr>dm_id = i, dm_session_id = Some s, dm_data = Some d\<rparr>"

definition data_msg_raw :: "host \<Rightarrow> msg_t \<Rightarrow> data_msg result" where
  "data_msg_raw h raw =
     (if length raw < 16 then Inl (Undefined Out_Of_Bounds)
      else
        let s = ntohll h (value_at h (take 8 raw));
            i = ntohll h (value_at h (take 8 (drop 8 raw)));
            d = drop 16 raw
        in Inr \<lparr>dm_id = i, dm_session_id = Some s, dm_data = Some d\<rparr>)"

definition set_data :: "msg_t \<Rightarrow> data_msg \<Rightarrow> data_msg" where
  "set_data d m = m\<lparr>dm_data := Some d\<rparr>"

definition set_session_id :: "msg_id_t \<Rightarrow> data_msg \<Rightarrow> data_msg" where
  "set_session_id s m = m\<lparr>dm_session_id := Some s\<rparr>"

definition get_id :: "data_msg \<Rightarrow> msg_id_t" where
  "get_id m = dm_id m"

definition get_session_id :: "data_msg \<Rightarrow> msg_id_t result" where
  "get_session_id m =
     (case dm_session_id m of None \<Rightarrow> Inl Bad_Optional_Access | Some s \<Rightarrow> Inr s)"

definition get_data :: "data_msg \<Rightarrow> msg_t result" where
  "get_data m = (case dm_data m of None \<Rightarrow> Inl Bad_Optional_Access | Some d \<Rightarrow> Inr d)"

definition sendable :: "host \<Rightarrow> data_msg \<Rightarrow> msg_t result" where
  "sendable h m =
     (case dm_session_id m of
        None \<Rightarrow> Inl (Data_Msg_Exception ''Trying to make message sendable without session id'')
      | Some s \<Rightarrow>
          (case dm_data m of
             None \<Rightarrow> Inl (Data_Msg_Exception ''Trying to make message sendable without data'')
           | Some d \<Rightarrow>
               let net_session_id = htonll h s;
                   net_id = htonll h (dm_id m)
               in Inr (memory_of h net_session_id @ memory_of h net_id @ d)))"

text \<open>The comparison operators look at the identifier only, so distinct messages can be
  equivalent: a preorder.\<close>

definition data_msg_less :: "'a data_msg_scheme \<Rightarrow> 'a data_msg_scheme \<Rightarrow> bool" where
  "data_msg_less m n \<longleftrightarrow> dm_id m < dm_id n"

definition data_msg_less_eq :: "'a data_msg_scheme \<Rightarrow> 'a data_msg_scheme \<Rightarrow> bool" where
  "data_msg_less_eq m n \<longleftrightarrow> \<not> data_msg_less n m"

instantiation data_msg_ext :: (type) preorder
begin

definition less_data_msg_ext :: "'a data_msg_scheme \<Rightarrow> 'a data_msg_scheme \<Rightarrow> bool" where
  "less_data_msg_ext = data_msg_less"

definition less_eq_data_msg_ext :: "'a data_msg_scheme \<Rightarrow> 'a data_msg_scheme \<Rightarrow> bool" where
  "less_eq_data_msg_ext = data_msg_less_eq"

instance
  by standard (auto simp: less_data_msg_ext_def less_eq_data_msg_ext_def data_msg_less_def data_msg_less_eq_def)

end

lemmas data_msg_defs =
  data_msg_id_def data_msg_id_data_def data_msg_full_def set_data_def set_session_id_def
  get_id_def get_session_id_def get_data_def

subsection \<open>Sending and receiving\<close>

lemma sendable_ok_iff:
  "sendable h m = Inr raw \<longleftrightarrow>
     (\<exists>s d. m = \<lparr>dm_id = dm_id m, dm_session_id = Some s, dm_data = Some d\<rparr>
            \<and> raw = memory_of h (htonll h s) @ memory_of h (htonll h (dm_id m)) @ d)"
  by (cases m) (auto simp: sendable_def Let_def split: option.splits)

lemma data_msg_raw_ok_iff:
  "data_msg_raw h raw = Inr m \<longleftrightarrow>
     16 \<le> length raw
     \<and> m = \<lparr>dm_id = ntohll h (value_at h (take 8 (drop 8 raw))),
            dm_session_id = Some (ntohll h (value_at h (take 8 raw))),
            dm_data = Some (drop 16 raw)\<rparr>"
  by (auto simp: data_msg_raw_def Let_def)

text \<open>An identifier as the other kind of host reads it: its bytes in reverse order.\<close>

definition byte_swapped :: "u64 \<Rightarrow> u64" where
  "byte_swapped v = from_le (rev (le_bytes 8 v))"

lemma value_at_other_host: "value_at g (memory_of h v) = (if g = h then v else byte_swapped v)"
  using value_at_memory_of [of h v]
  by (cases g; cases h) (simp_all add: value_at_def memory_of_def byte_swapped_def)

text \<open>C35: packets round trip between hosts of the same byte order. A packet written by \<open>sendable\<close> on
  a host and read by the receiving constructor on a host of either kind gives back the message's
  data, and its identifier and session identifier exactly when the two hosts have the same byte
  order; otherwise both identifiers arrive with their bytes reversed, because \<open>htonll\<close> and
  \<open>ntohll\<close> never convert.\<close>
theorem data_msg_round_trip:
  assumes "sendable h (data_msg_full i s d) = Inr raw"
  shows "data_msg_raw g raw = Inr (if g = h then data_msg_full i s d
                                   else data_msg_full (byte_swapped i) (byte_swapped s) d)"
proof -
  from assms have raw: "raw = memory_of h s @ memory_of h i @ d"
    by (simp add: sendable_def data_msg_full_def)
  then show ?thesis
    by (simp add: data_msg_raw_def data_msg_full_def value_at_other_host)
qed

theorem data_msg_round_trip_witness:
  "data_msg_raw Little_Endian [1, 0, 0, 0, 0, 0, 0, 0, 2, 0, 0, 0, 0, 0, 0, 0, 9, 9]
     = Inr (data_msg_full 2 1 [9, 9])
   \<and> data_msg_raw Big_Endian [1, 0, 0, 0, 0, 0, 0, 0, 2, 0, 0, 0, 0, 0, 0, 0, 9, 9]
     = Inr (data_msg_full (byte_swapped 2) (byte_swapped 1) [9, 9])"
proof -
  have sent: "sendable Little_Endian (data_msg_full 2 1 [9, 9])
      = Inr [1, 0, 0, 0, 0, 0, 0, 0, 2, 0, 0, 0, 0, 0, 0, 0, 9, 9]"
    by (simp add: sendable_def data_msg_full_def memory_of_def le_bytes_8)
  show ?thesis
    using data_msg_round_trip [OF sent, of Little_Endian]
      data_msg_round_trip [OF sent, of Big_Endian] by simp
qed

text \<open>Every received packet of at least sixteen bytes is read into a message that would be sent
  as the same packet, and a shorter one (any host on the network can send it) makes the
  constructor copy bytes from outside the received vector.\<close>
lemma data_msg_raw_sound:
  "case data_msg_raw h raw of
     Inl e \<Rightarrow> length raw < 16 \<and> e = Undefined Out_Of_Bounds
   | Inr m \<Rightarrow> 16 \<le> length raw \<and> sendable h m = Inr raw"
  using host_codec.packet_of_fields [of raw h]
  by (auto simp: data_msg_raw_def sendable_def Let_def split: sum.split)

lemma le_bytes_byte_swapped: "le_bytes 8 (byte_swapped v) = rev (le_bytes 8 v)"
  using le_bytes_from_le [of "rev (le_bytes 8 v)"] by (simp add: byte_swapped_def)

lemma byte_swapped_twice [simp]: "byte_swapped (byte_swapped v) = v"
  by (simp add: byte_swapped_def [of "byte_swapped v"] le_bytes_byte_swapped
      from_le_le_bytes take_bit_word_eq_self)

lemma memory_of_protocol:
  "memory_of h v = protocol_id (if h = Big_Endian then v else byte_swapped v)"
  by (cases h) (simp_all add: memory_of_def protocol_id_def le_bytes_byte_swapped)

text \<open>C36: a sent packet has the layout of the documented protocol (both identifiers big-endian)
  exactly on a big-endian host, and elsewhere only when the bytes of both identifiers read the
  same in either direction: the conversion to network order that \<open>htonll\<close> is called for does not
  happen, because its test compares one byte with 2137.\<close>
theorem sendable_follows_protocol_iff:
  "sendable h (data_msg_full i s d) = Inr (protocol_packet s i d) \<longleftrightarrow>
     h = Big_Endian \<or> (byte_swapped s = s \<and> byte_swapped i = i)"
proof -
  have "sendable h (data_msg_full i s d) = Inr (protocol_packet (if h = Big_Endian then s else byte_swapped s)
      (if h = Big_Endian then i else byte_swapped i) d)"
    by (simp add: sendable_def data_msg_full_def protocol_packet_def memory_of_protocol)
  then show ?thesis
    by (simp add: protocol_packet_def protocol_codec.packet_inject)
qed

text \<open>Making a message sendable fails exactly when one of its two optional fields is missing,
  the session identifier being checked first, and never reaches undefined behaviour; once both are
  set the packet is sixteen bytes longer than the data.\<close>
lemma sendable_branches:
  "(case sendable h m of
      Inl e \<Rightarrow>
        (dm_session_id m = None \<and>
           what e = Some ''Trying to make message sendable without session id'')
        \<or> (dm_session_id m \<noteq> None \<and> dm_data m = None \<and>
           what e = Some ''Trying to make message sendable without data'')
    | Inr raw \<Rightarrow>
        get_session_id m \<noteq> Inl Bad_Optional_Access
        \<and> (\<exists>d. get_data m = Inr d \<and> length raw = 16 + length d \<and> drop 16 raw = d))"
  by (simp add: sendable_def get_session_id_def get_data_def split: option.split)

end
