(* ===== verification/Std_String.thy ===== *)
theory Std_String
  imports Prelude "HOL-Library.Sublist"
begin

text \<open>
  The operations of \<open>std::string\<close> and of the numeric conversions that the control messages use:
  \<open>find\<close>, \<open>to_string\<close>, \<open>stoul\<close> and \<open>stoull\<close>, the character classes of the two regular expressions
  of \<open>ctrl_msg.hpp\<close>, and the matches that \<open>sregex_iterator\<close> visits for a pattern of the shape
  ``one separator, then a longest non-empty run of a class''.
\<close>

subsection \<open>Characters\<close>

definition is_digit :: "char \<Rightarrow> bool" where
  "is_digit c \<longleftrightarrow> (48::nat) \<le> of_char c \<and> of_char c \<le> (57::nat)"

text \<open>\<open>isspace\<close> in the C locale: space, tab, newline, vertical tab, form feed, carriage return.\<close>

definition is_space :: "char \<Rightarrow> bool" where
  "is_space c \<longleftrightarrow> of_char c = (32::nat) \<or> ((9::nat) \<le> of_char c \<and> of_char c \<le> (13::nat))"

definition digit_char :: "nat \<Rightarrow> char" where
  "digit_char d = char_of (48 + d)"

definition digit_value :: "char \<Rightarrow> nat" where
  "digit_value c = of_char c - 48"

lemma is_digit_digit_char [simp]: "d < 10 \<Longrightarrow> is_digit (digit_char d)"
  by (simp add: is_digit_def digit_char_def)

lemma digit_value_digit_char [simp]: "d < 10 \<Longrightarrow> digit_value (digit_char d) = d"
  by (simp add: digit_value_def digit_char_def)

lemma digit_not_space: "is_digit c \<Longrightarrow> \<not> is_space c"
  by (auto simp: is_digit_def is_space_def)

lemma digit_not_sign:
  "is_digit c \<Longrightarrow> c \<noteq> CHR ''-''" "is_digit c \<Longrightarrow> c \<noteq> CHR ''+''" "is_digit c \<Longrightarrow> c \<noteq> CHR '',''"
  by (auto simp: is_digit_def)

subsection \<open>Numbers\<close>

fun to_string :: "nat \<Rightarrow> string" where
  "to_string n = (if n < 10 then [digit_char n] else to_string (n div 10) @ [digit_char (n mod 10)])"

declare to_string.simps [simp del]

definition digits_value :: "string \<Rightarrow> nat" where
  "digits_value ds = foldl (\<lambda>v c. 10 * v + digit_value c) 0 ds"

text \<open>
  \<open>stoull\<close> in base 10 (and \<open>stoul\<close>, whose result has the same width here): leading whitespace, an
  optional sign, then the longest run of digits. Nothing converted is \<open>invalid_argument\<close>, a value
  that does not fit is \<open>out_of_range\<close>, and a minus sign negates the unsigned result.
\<close>

definition stoull :: "string \<Rightarrow> u64 result" where
  "stoull s =
     (let t = dropWhile is_space s;
          negative = (case t of c # _ \<Rightarrow> c = CHR ''-'' | [] \<Rightarrow> False);
          signed = (case t of c # _ \<Rightarrow> c = CHR ''-'' \<or> c = CHR ''+'' | [] \<Rightarrow> False);
          ds = takeWhile is_digit (if signed then tl t else t);
          v = digits_value ds
      in if ds = [] then Inl Invalid_Argument
         else if 2 ^ 64 \<le> v then Inl Out_Of_Range
         else Inr (if negative then - of_nat v else of_nat v))"

lemma to_string_not_Nil [simp]: "to_string n \<noteq> []"
  by (subst to_string.simps) simp

lemma to_string_digits: "c \<in> set (to_string n) \<Longrightarrow> is_digit c"
proof (induction n rule: to_string.induct)
  case (1 n)
  then show ?case
    by (cases "n < 10") (auto simp: to_string.simps [of n])
qed

lemma digits_value_to_string [simp]: "digits_value (to_string n) = n"
proof (induction n rule: to_string.induct)
  case (1 n)
  then show ?case
    by (cases "n < 10") (simp_all add: to_string.simps [of n] digits_value_def)
qed

lemma takeWhile_digits_to_string [simp]: "takeWhile is_digit (to_string n) = to_string n"
  by (simp add: takeWhile_eq_all_conv to_string_digits)

lemma stoull_to_string: "n < 2 ^ 64 \<Longrightarrow> stoull (to_string n) = Inr (of_nat n)"
proof -
  assume n: "n < 2 ^ 64"
  obtain c cs where s: "to_string n = c # cs"
    by (cases "to_string n") auto
  then have c: "is_digit c" using to_string_digits [of c n] by simp
  have no_space: "dropWhile is_space (to_string n) = to_string n"
    by (simp add: s digit_not_space [OF c])
  have no_sign: "(case to_string n of c # _ \<Rightarrow> c = CHR ''-'' \<or> c = CHR ''+'' | [] \<Rightarrow> False) = False"
    "(case to_string n of c # _ \<Rightarrow> c = CHR ''-'' | [] \<Rightarrow> False) = False"
    by (simp_all add: s digit_not_sign [OF c])
  show ?thesis
    using n by (simp add: stoull_def Let_def no_space no_sign)
qed

lemma stoull_word [simp]: "stoull (to_string (unat (v :: u64))) = Inr v"
  using stoull_to_string [of "unat v"] unsigned_less [of v] by simp

subsection \<open>Searching\<close>

text \<open>\<open>s.find(key)\<close>: the position of the first occurrence, \<open>None\<close> for \<open>npos\<close>.\<close>

fun str_find :: "string \<Rightarrow> string \<Rightarrow> nat option" where
  "str_find [] key = (if key = [] then Some 0 else None)"
| "str_find (c # cs) key = (if prefix key (c # cs) then Some 0 else map_option Suc (str_find cs key))"

lemma str_find_0_iff: "str_find s key = Some 0 \<longleftrightarrow> prefix key s"
  by (cases s) auto

text \<open>
  The matches of the pattern \<open>sep\<close> followed by a longest non-empty run of characters in \<open>cls\<close>,
  from left to right, each search starting where the last match ended; each match is given by its
  run. With \<open>','\<close> and the digits this is the pattern \<open>,[0-9]+\<close> of \<open>get_rexmit_ids\<close>, with a space
  and the non-spaces the pattern of \<open>get_reply_data\<close> with its one captured group.
\<close>

function runs_after :: "char \<Rightarrow> (char \<Rightarrow> bool) \<Rightarrow> string \<Rightarrow> string list" where
  "runs_after sep cls [] = []"
| "runs_after sep cls (c # cs) =
     (if c = sep \<and> cs \<noteq> [] \<and> cls (hd cs)
      then takeWhile cls cs # runs_after sep cls (dropWhile cls cs)
      else runs_after sep cls cs)"
  by pat_completeness auto
termination
  by (relation "measure (\<lambda>(sep, cls, s). length s)") (auto simp: le_imp_less_Suc length_dropWhile_le)

text \<open>The text in which each of the words follows one separator.\<close>

definition after_each :: "char \<Rightarrow> string list \<Rightarrow> string" where
  "after_each sep ws = concat (map (\<lambda>w. sep # w) ws)"

definition word_of :: "(char \<Rightarrow> bool) \<Rightarrow> string \<Rightarrow> bool" where
  "word_of cls w \<longleftrightarrow> w \<noteq> [] \<and> list_all cls w"

lemma after_each_simps [simp]:
  "after_each sep [] = []" "after_each sep (w # ws) = sep # w @ after_each sep ws"
  by (simp_all add: after_each_def)

lemma runs_after_word_of: "w \<in> set (runs_after sep cls s) \<Longrightarrow> word_of cls w"
proof (induction sep cls s rule: runs_after.induct)
  case (1 sep cls)
  then show ?case by simp
next
  case (2 sep cls c cs)
  have "word_of cls (takeWhile cls cs)" if "cs \<noteq> []" "cls (hd cs)"
    using that by (cases cs) (auto simp: word_of_def list_all_iff dest: set_takeWhileD)
  with 2 show ?case by (auto split: if_splits)
qed

lemma runs_after_skip: "sep \<notin> set xs \<Longrightarrow> runs_after sep cls (xs @ s) = runs_after sep cls s"
  by (induction xs) auto

lemma runs_after_word:
  assumes "word_of cls w" "rest = [] \<or> \<not> cls (hd rest)"
  shows "runs_after sep cls (sep # w @ rest) = w # runs_after sep cls rest"
proof -
  have "takeWhile cls (w @ rest) = w" "dropWhile cls (w @ rest) = rest"
    using assms by (cases rest; auto simp: word_of_def list_all_iff)+
  then show ?thesis
    using assms by (cases w) (auto simp: word_of_def)
qed

lemma runs_after_after_each:
  assumes "list_all (word_of cls) ws" "\<not> cls sep" "rest = [] \<or> \<not> cls (hd rest)"
  shows "runs_after sep cls (after_each sep ws @ rest) = ws @ runs_after sep cls rest"
  using assms(1)
proof (induction ws)
  case Nil
  then show ?case by simp
next
  case (Cons w ws)
  have "after_each sep ws @ rest = [] \<or> \<not> cls (hd (after_each sep ws @ rest))"
    using assms(2,3) by (cases ws) auto
  with Cons show ?case
    using runs_after_word [of cls w "after_each sep ws @ rest" sep]
    by (simp del: runs_after.simps)
qed

end
