(* ===== verification/Std_Set.thy ===== *)
theory Std_Set
  imports Prelude
begin

text \<open>
  \<open>std::set\<close> as the code uses it: elements ordered by a key, one element per key, iterated in
  ascending order. The set is the list of its elements in iteration order; the key is what the
  element type's \<open>operator<\<close> compares. \<open>emplace\<close> leaves the set alone when an element with an
  equivalent key is present, \<open>erase\<close> removes the element with a key if there is one.
\<close>

fun emplace :: "('a \<Rightarrow> 'k::linorder) \<Rightarrow> 'a \<Rightarrow> 'a list \<Rightarrow> 'a list" where
  "emplace key x [] = [x]"
| "emplace key x (y # ys) =
     (if key y < key x then y # emplace key x ys
      else if key x < key y then x # y # ys
      else y # ys)"

fun erase :: "('a \<Rightarrow> 'k) \<Rightarrow> 'k \<Rightarrow> 'a list \<Rightarrow> 'a list" where
  "erase key k [] = []"
| "erase key k (y # ys) = (if key y = k then ys else y # erase key k ys)"

fun lookup :: "('a \<Rightarrow> 'k) \<Rightarrow> 'a list \<Rightarrow> 'k \<Rightarrow> 'a option" where
  "lookup key [] k = None"
| "lookup key (y # ys) k = (if key y = k then Some y else lookup key ys k)"

definition ascending :: "('a \<Rightarrow> 'k::linorder) \<Rightarrow> 'a list \<Rightarrow> bool" where
  "ascending key xs = sorted_wrt (\<lambda>x y. key x < key y) xs"

lemma ascending_simps [simp]:
  "ascending key []"
  "ascending key (x # xs) \<longleftrightarrow> (\<forall>y \<in> set xs. key x < key y) \<and> ascending key xs"
  by (simp_all add: ascending_def)

lemma ascending_append:
  "ascending key (xs @ ys) \<longleftrightarrow>
     ascending key xs \<and> ascending key ys \<and> (\<forall>x \<in> set xs. \<forall>y \<in> set ys. key x < key y)"
  by (simp add: ascending_def sorted_wrt_append)

lemma ascending_map: "ascending id (map key xs) \<longleftrightarrow> ascending key xs"
  by (simp add: ascending_def sorted_wrt_map)

subsection \<open>The contract of a keyed set\<close>

text \<open>
  What a client of \<open>std::set\<close> relies on: a lookup after each operation, and the shape the
  operations keep. The client's lemmas are about inserting many elements.
\<close>

locale keyed_set =
  fixes key :: "'a \<Rightarrow> 'k"
    and empty :: 's
    and put :: "'a \<Rightarrow> 's \<Rightarrow> 's"
    and remove :: "'k \<Rightarrow> 's \<Rightarrow> 's"
    and find_key :: "'s \<Rightarrow> 'k \<Rightarrow> 'a option"
    and shape :: "'s \<Rightarrow> bool"
  assumes shape_empty: "shape empty"
    and shape_put: "shape s \<Longrightarrow> shape (put x s)"
    and shape_remove: "shape s \<Longrightarrow> shape (remove k s)"
    and find_empty: "find_key empty k = None"
    and find_put: "shape s \<Longrightarrow>
          find_key (put x s) k = (if k = key x \<and> find_key s k = None then Some x else find_key s k)"
    and find_remove: "shape s \<Longrightarrow> find_key (remove k s) k' = (if k' = k then None else find_key s k')"
begin

lemma shape_puts: "shape s \<Longrightarrow> shape (fold put xs s)"
  by (induction xs arbitrary: s) (auto intro: shape_put)

lemma shape_removes: "shape s \<Longrightarrow> shape (fold remove ks s)"
  by (induction ks arbitrary: s) (auto intro: shape_remove)

text \<open>Of several elements with one key the one that was there, or else the first, stays.\<close>

lemma find_puts:
  "shape s \<Longrightarrow>
   find_key (fold put xs s) k =
     (case find_key s k of Some y \<Rightarrow> Some y | None \<Rightarrow> find (\<lambda>x. key x = k) xs)"
  by (induction xs arbitrary: s) (auto simp: find_put shape_put split: option.splits)

lemma find_removes:
  "shape s \<Longrightarrow> find_key (fold remove ks s) k = (if k \<in> set ks then None else find_key s k)"
  by (induction ks arbitrary: s) (auto simp: find_remove shape_remove)

end

subsection \<open>The list of elements keeps the contract\<close>

lemma set_emplace: "set (emplace key x xs) \<subseteq> insert x (set xs)"
  by (induction key x xs rule: emplace.induct) auto

lemma set_erase: "set (erase key k xs) \<subseteq> set xs"
  by (induction key k xs rule: erase.induct) auto

lemma erase_absent: "k \<notin> key ` set xs \<Longrightarrow> erase key k xs = xs"
  by (induction xs) auto

lemma ascending_emplace: "ascending key xs \<Longrightarrow> ascending key (emplace key x xs)"
proof (induction key x xs rule: emplace.induct)
  case (1 key x)
  then show ?case by simp
next
  case (2 key x y ys)
  then show ?case using set_emplace [of key x ys] by fastforce
qed

lemma ascending_erase: "ascending key xs \<Longrightarrow> ascending key (erase key k xs)"
  by (induction key k xs rule: erase.induct) (use set_erase in fastforce)+

lemma lookup_None_iff: "lookup key xs k = None \<longleftrightarrow> k \<notin> key ` set xs"
  by (induction xs) auto

lemma lookup_SomeD: "lookup key xs k = Some x \<Longrightarrow> x \<in> set xs \<and> key x = k"
  by (induction xs) (auto split: if_splits)

lemma lookup_ascending:
  "ascending key xs \<Longrightarrow> lookup key xs k = Some x \<longleftrightarrow> x \<in> set xs \<and> key x = k"
proof (induction xs)
  case Nil
  then show ?case by simp
next
  case (Cons y ys)
  then have "key z \<noteq> key y" if "z \<in> set ys" for z
    using that by fastforce
  with Cons show ?case by auto
qed

lemma lookup_emplace:
  "ascending key xs \<Longrightarrow>
   lookup key (emplace key x xs) k =
     (if k = key x \<and> lookup key xs k = None then Some x else lookup key xs k)"
proof (induction key x xs rule: emplace.induct)
  case (1 key x)
  then show ?case by simp
next
  case (2 key x y ys)
  then have "lookup key ys (key x) = None" if "key x < key y"
    using that by (fastforce simp: lookup_None_iff)
  with 2 show ?case by auto
qed

lemma lookup_erase:
  "ascending key xs \<Longrightarrow> lookup key (erase key k xs) k' = (if k' = k then None else lookup key xs k')"
  by (induction key k xs rule: erase.induct) (auto simp: lookup_None_iff)

interpretation std_set: keyed_set key "[]" "emplace key" "erase key" "lookup key" "ascending key"
  for key :: "'a \<Rightarrow> 'k::linorder"
  by unfold_locales (simp_all add: ascending_emplace ascending_erase lookup_emplace lookup_erase)

text \<open>Two sets with the same lookups are the same set.\<close>

lemma ascending_ext:
  assumes "ascending key xs" "ascending key ys" "\<And>k. lookup key xs k = lookup key ys k"
  shows "xs = ys"
  using assms
proof (induction xs arbitrary: ys)
  case Nil
  then have "lookup key ys (key (hd ys)) = None" by (metis lookup.simps(1))
  then show ?case by (cases ys) auto
next
  case (Cons x xs)
  have same: "z \<in> set (x # xs) \<longleftrightarrow> z \<in> set ys" for z
    using Cons.prems(3) [of "key z"] lookup_ascending [OF Cons.prems(1), of "key z" z]
      lookup_ascending [OF Cons.prems(2), of "key z" z]
    by metis
  then obtain y ys' where ys: "ys = y # ys'" by (cases ys) auto
  have "x \<in> set (y # ys')" "y \<in> set (x # xs)"
    using same [of x] same [of y] by (simp_all add: ys)
  then have [simp]: "y = x"
    using Cons.prems(1,2) ys by (auto dest: less_asym)
  have "lookup key xs k = lookup key ys' k" for k
  proof (cases "k = key x")
    case True
    then show ?thesis
      using Cons.prems(1,2) ys lookup_None_iff [of key xs k] lookup_None_iff [of key ys' k] by force
  next
    case False
    with Cons.prems(3) [of k] show ?thesis by (simp add: ys)
  qed
  then show ?case
    using Cons.IH [of ys'] Cons.prems(1,2) ys by simp
qed

lemma set_emplace_id: "set (emplace id x xs) = insert x (set xs)"
  by (induction xs) (auto simp: not_less)

lemma emplace_last: "(\<And>y. y \<in> set xs \<Longrightarrow> key y < key x) \<Longrightarrow> emplace key x xs = xs @ [x]"
  by (induction xs) auto

lemma ascending_sorted: "ascending key xs \<Longrightarrow> sorted (map key xs)"
  by (induction xs) (auto intro: less_imp_le)

lemma ascending_distinct_keys: "ascending key xs \<Longrightarrow> distinct (map key xs)"
  by (induction xs) auto

subsection \<open>Iterators\<close>

text \<open>
  An iterator is the end, or stands at the element with a key (which no other operation moves), or
  is left dangling when its element has been erased. Reading or moving an iterator that has no
  element, or moving before the first or past the end, is undefined.
\<close>

datatype 'k iter = End | At 'k | Dangling

definition begin_of :: "('a \<Rightarrow> 'k) \<Rightarrow> 'a list \<Rightarrow> 'k iter" where
  "begin_of key xs = (case xs of [] \<Rightarrow> End | x # _ \<Rightarrow> At (key x))"

text \<open>The first element behind a key, and the last one before it.\<close>

definition behind :: "('a \<Rightarrow> 'k::linorder) \<Rightarrow> 'a list \<Rightarrow> 'k \<Rightarrow> 'k iter" where
  "behind key xs k = (case find (\<lambda>y. k < key y) xs of None \<Rightarrow> End | Some y \<Rightarrow> At (key y))"

definition last_of :: "('a \<Rightarrow> 'k) \<Rightarrow> 'a list \<Rightarrow> 'k iter result" where
  "last_of key xs = (if xs = [] then Inl (Undefined Invalid_Iterator) else Inr (At (key (last xs))))"

definition deref :: "('a \<Rightarrow> 'k) \<Rightarrow> 'a list \<Rightarrow> 'k iter \<Rightarrow> 'a result" where
  "deref key xs it =
     (case it of
        At k \<Rightarrow> (case lookup key xs k of
                  None \<Rightarrow> Inl (Undefined Invalid_Iterator)
                | Some x \<Rightarrow> Inr x)
      | _ \<Rightarrow> Inl (Undefined Invalid_Iterator))"

definition incr :: "('a \<Rightarrow> 'k::linorder) \<Rightarrow> 'a list \<Rightarrow> 'k iter \<Rightarrow> 'k iter result" where
  "incr key xs it =
     (case it of
        At k \<Rightarrow> if lookup key xs k = None then Inl (Undefined Invalid_Iterator)
                else Inr (behind key xs k)
      | _ \<Rightarrow> Inl (Undefined Invalid_Iterator))"

definition decr :: "('a \<Rightarrow> 'k::linorder) \<Rightarrow> 'a list \<Rightarrow> 'k iter \<Rightarrow> 'k iter result" where
  "decr key xs it =
     (case it of
        At k \<Rightarrow> if lookup key xs k = None then Inl (Undefined Invalid_Iterator)
                else last_of key (filter (\<lambda>y. key y < k) xs)
      | End \<Rightarrow> last_of key xs
      | Dangling \<Rightarrow> Inl (Undefined Invalid_Iterator))"

text \<open>Comparing a dangling iterator is undefined too.\<close>

definition iter_eq :: "'k iter \<Rightarrow> 'k iter \<Rightarrow> bool result" where
  "iter_eq i j = (if i = Dangling \<or> j = Dangling then Inl (Undefined Invalid_Iterator) else Inr (i = j))"

lemma find_ascending_append:
  "ascending key (xs @ x # ys) \<Longrightarrow> find (\<lambda>y. key x < key y) (xs @ x # ys) = find (\<lambda>y. True) ys"
proof -
  assume asc: "ascending key (xs @ x # ys)"
  have "find (\<lambda>y. key x < key y) zs = find (\<lambda>y. True) zs" if "\<forall>z \<in> set zs. key x < key z" for zs
    using that by (cases zs) auto
  moreover have "find (\<lambda>y. key x < key y) (zs @ x # ys) = find (\<lambda>y. key x < key y) ys"
    if "\<forall>z \<in> set zs. key z < key x" for zs
    using that by (induction zs) auto
  ultimately show ?thesis using asc by (simp add: ascending_append)
qed

lemma behind_split:
  "ascending key (xs @ x # ys) \<Longrightarrow> behind key (xs @ x # ys) (key x) = begin_of key ys"
  by (subst behind_def) (simp only: find_ascending_append, cases ys, simp_all add: begin_of_def)

lemma lookup_split: "ascending key (xs @ x # ys) \<Longrightarrow> lookup key (xs @ x # ys) (key x) = Some x"
  by (simp add: lookup_ascending)

lemma erase_split: "ascending key (xs @ x # ys) \<Longrightarrow> erase key (key x) (xs @ x # ys) = xs @ ys"
proof (induction xs)
  case (Cons z zs)
  then have "key z \<noteq> key x" by auto
  with Cons show ?case by simp
qed simp

lemma emplace_split:
  "ascending key (xs @ y # ys) \<Longrightarrow> emplace key y (xs @ ys) = xs @ y # ys"
proof (induction xs)
  case Nil
  then show ?case by (cases ys) auto
qed auto

lemma filter_less_split: "ascending key (xs @ x # ys) \<Longrightarrow> filter (\<lambda>y. key y < key x) (xs @ x # ys) = xs"
  by (auto simp: ascending_append filter_id_conv filter_empty_conv order_less_imp_not_less
      dest: less_not_sym)

lemma behindD: "behind key xs k = At k' \<Longrightarrow> k < k' \<and> (\<exists>y \<in> set xs. key y = k')"
  by (auto simp: behind_def find_Some_iff split: option.splits)

text \<open>How many elements the iterator still has to meet.\<close>

fun left :: "('a \<Rightarrow> 'k::linorder) \<Rightarrow> 'a list \<Rightarrow> 'k iter \<Rightarrow> nat" where
  "left key xs (At k) = Suc (card {x \<in> key ` set xs. k \<le> x})"
| "left key xs _ = 0"

lemma left_decreases:
  assumes "lookup key xs k = Some x" "key ` set xs' \<subseteq> insert k (key ` set xs)"
  shows "left key xs' (behind key xs k) < left key xs (At k)"
proof (cases "behind key xs k")
  case (At k')
  have k: "k < k'" "k \<in> key ` set xs"
    using behindD [OF At] lookup_SomeD [OF assms(1)] by auto
  then have "{x \<in> key ` set xs'. k' \<le> x} \<subseteq> {x \<in> key ` set xs. k \<le> x} - {k}"
    using assms(2) by auto
  also have "\<dots> \<subset> {x \<in> key ` set xs. k \<le> x}" using k(2) by auto
  finally have "{x \<in> key ` set xs'. k' \<le> x} \<subset> {x \<in> key ` set xs. k \<le> x}" .
  then have "card {x \<in> key ` set xs'. k' \<le> x} < card {x \<in> key ` set xs. k \<le> x}"
    by (rule psubset_card_mono [rotated]) simp
  with At show ?thesis by simp
qed simp_all

end
