(* ===== verification/Buffer.thy ===== *)
theory Buffer
  imports Data_Msg Std_String Std_Set
begin

text \<open>
  \<open>src/receiver/buffer.hpp\<close>: the receiver's playback buffer, two deques of equal length (the
  identifiers, and the payloads or the gaps left for missed packets) with the session state. Every
  operation is modelled with its exceptions and its undefined accesses; the two loops of a write are
  tail-recursive partial functions, so that \<open>None\<close> is a loop that does not end.
\<close>

datatype buffer_state = NO_SESSION | WAITING | READABLE

record buffer =
  max_size :: u64
  max_elements :: u64
  buf_state :: buffer_state
  max_msg_id :: msg_id_t
  byte_zero :: msg_id_t
  package_size :: u64
  msg_vals :: "msg_t option list"
  msg_ids :: "msg_id_t list"

text \<open>The constructor leaves \<open>max_elements\<close> and \<open>package_size\<close> unset: they are whatever was in
  memory.\<close>

definition buffer_init :: "u64 \<Rightarrow> u64 \<Rightarrow> u64 \<Rightarrow> buffer" where
  "buffer_init bsize unset_elements unset_package_size =
     \<lparr>max_size = bsize, max_elements = unset_elements, buf_state = NO_SESSION, max_msg_id = 0,
      byte_zero = 0, package_size = unset_package_size, msg_vals = [], msg_ids = []\<rparr>"

subsection \<open>Saving\<close>

definition pop_front :: "buffer \<Rightarrow> buffer" where
  "pop_front b = b\<lparr>msg_ids := tl (msg_ids b), msg_vals := tl (msg_vals b)\<rparr>"

definition make_room :: "buffer \<Rightarrow> buffer" where
  "make_room b = (if length (msg_ids b) = unat (max_elements b) then pop_front b else b)"

definition emplace_back :: "msg_t option \<Rightarrow> msg_id_t \<Rightarrow> buffer \<Rightarrow> buffer" where
  "emplace_back v i b = b\<lparr>msg_vals := msg_vals b @ [v], msg_ids := msg_ids b @ [i]\<rparr>"

text \<open>The loop that reserves a slot for each missed packet before the identifier \<open>i\<close>.\<close>

partial_function (option) reserve_missed :: "msg_id_t \<Rightarrow> msg_id_t \<Rightarrow> buffer \<Rightarrow> buffer option" where
  "reserve_missed missed_id i b =
     (if missed_id < i
      then reserve_missed (missed_id + package_size b) i (emplace_back None missed_id (make_room b))
      else Some b)"

definition save_new_message :: "data_msg \<Rightarrow> buffer \<Rightarrow> (unit result \<times> buffer) option" where
  "save_new_message m b =
     (if msg_ids b = [] then
        Some (case get_data m of
                Inl e \<Rightarrow> (Inl e, b)
              | Inr d \<Rightarrow> (Inr (), emplace_back (Some d) (get_id m) b))
      else
        map_option
          (\<lambda>b1. let b2 = make_room b1
                in (case get_data m of
                      Inl e \<Rightarrow> (Inl e, b2)
                    | Inr d \<Rightarrow> (Inr (), emplace_back (Some d) (get_id m) b2)))
          (reserve_missed (last (msg_ids b) + package_size b) (get_id m) b))"

definition save_missed_message :: "data_msg \<Rightarrow> buffer \<Rightarrow> unit result \<times> buffer" where
  "save_missed_message m b =
     (let msg_pos = (get_id m - hd (msg_ids b)) div package_size b
      in (case get_data m of
            Inl e \<Rightarrow> (Inl e, b)
          | Inr d \<Rightarrow>
              if unat msg_pos < length (msg_vals b)
              then (Inr (), b\<lparr>msg_vals := (msg_vals b)[unat msg_pos := Some d]\<rparr>)
              else (Inl (Undefined Out_Of_Bounds), b)))"

subsection \<open>Writing\<close>

text \<open>The first packet of a session fixes the package size; the division traps on an empty payload.\<close>

definition start_session :: "data_msg \<Rightarrow> buffer \<Rightarrow> unit result \<times> buffer" where
  "start_session m b =
     (if buf_state b = NO_SESSION then
        let b1 = b\<lparr>byte_zero := get_id m, max_msg_id := get_id m\<rparr>
        in (case get_data m of
              Inl e \<Rightarrow> (Inl e, b1)
            | Inr d \<Rightarrow>
                let b2 = b1\<lparr>package_size := of_nat (length d)\<rparr>
                in if package_size b2 = 0 then (Inl (Undefined Division_By_Zero), b2)
                   else (Inr (), b2\<lparr>max_elements := max_size b2 div package_size b2,
                                    buf_state := WAITING\<rparr>))
      else (Inr (), b))"

definition readable_from :: "buffer \<Rightarrow> msg_id_t" where
  "readable_from b = byte_zero b + max_elements b * package_size b * 3 div 4"

definition check_readable :: "data_msg \<Rightarrow> buffer \<Rightarrow> buffer" where
  "check_readable m b = (if readable_from b \<le> get_id m then b\<lparr>buf_state := READABLE\<rparr> else b)"

definition not_divisible :: "msg_id_t \<Rightarrow> u64 \<Rightarrow> cpp_error" where
  "not_divisible i ps =
     Buffer_Access_Exception (''Id='' @ to_string (unat i) @ ''must be divisible by package size=''
       @ to_string (unat ps))"

definition save_message :: "data_msg \<Rightarrow> buffer \<Rightarrow> (unit result \<times> buffer) option" where
  "save_message m b =
     (if package_size b = 0 then Some (Inl (Undefined Division_By_Zero), b)
      else if get_id m mod package_size b \<noteq> 0
      then Some (Inl (not_divisible (get_id m) (package_size b)), b)
      else if msg_ids b = [] \<or> last (msg_ids b) < get_id m then save_new_message m b
      else if hd (msg_ids b) \<le> get_id m \<and> get_id m \<le> last (msg_ids b)
      then Some (save_missed_message m b)
      else Some (Inr (), b))"

text \<open>The loop that collects the identifiers missed since the last write. It indexes the deque of
  payloads with the identifier itself.\<close>

partial_function (option) missed_loop ::
  "msg_id_t \<Rightarrow> msg_id_t \<Rightarrow> buffer \<Rightarrow> msg_id_t list \<Rightarrow> msg_id_t list result option" where
  "missed_loop i bound b acc =
     (if i < bound then
        if unat i < length (msg_vals b)
        then missed_loop (i + package_size b) bound b
               (if msg_vals b ! unat i = None then emplace id i acc else acc)
        else Some (Inl (Undefined Out_Of_Bounds))
      else Some (Inr acc))"

definition collect_missed :: "data_msg \<Rightarrow> buffer \<Rightarrow> msg_id_t list result option" where
  "collect_missed m b =
     (if msg_ids b = [] then Some (Inl (Undefined Empty_Container))
      else missed_loop (max (max_msg_id b + package_size b) (hd (msg_ids b)))
             (min (get_id m) (last (msg_ids b))) b [])"

definition write_get_missed :: "data_msg \<Rightarrow> buffer \<Rightarrow> (msg_id_t list result \<times> buffer) option" where
  "write_get_missed m b =
     (case start_session m b of
        (Inl e, b1) \<Rightarrow> Some (Inl e, b1)
      | (Inr _, b1) \<Rightarrow>
          (case save_message m (check_readable m b1) of
             None \<Rightarrow> None
           | Some (Inl e, b2) \<Rightarrow> Some (Inl e, b2)
           | Some (Inr _, b2) \<Rightarrow>
               map_option
                 (\<lambda>r. (r, case r of Inl _ \<Rightarrow> b2 | Inr _ \<Rightarrow> b2\<lparr>max_msg_id := get_id m\<rparr>))
                 (collect_missed m b2)))"

subsection \<open>Reading, space, reset\<close>

definition not_readable :: cpp_error where
  "not_readable = Buffer_Access_Exception ''Buffer is not readable during active session!''"

definition optional_read :: "buffer \<Rightarrow> msg_t option result \<times> buffer" where
  "optional_read b =
     (if buf_state b \<noteq> READABLE then (Inr None, b)
      else
        (case msg_vals b of
           [] \<Rightarrow> (Inl not_readable, b)
         | v # _ \<Rightarrow> if v = None then (Inl not_readable, b) else (Inr v, pop_front b)))"

definition buffer_try_read :: "buffer \<Rightarrow> msg_t option result \<times> buffer" where
  "buffer_try_read b = optional_read b"

text \<open>\<open>front()\<close> is called whatever the state, so an empty buffer has no defined answer.\<close>

definition has_space_for :: "msg_id_t \<Rightarrow> buffer \<Rightarrow> bool result" where
  "has_space_for i b =
     (let is_in_session = (buf_state b \<noteq> NO_SESSION)
      in if msg_ids b = [] then Inl (Undefined Empty_Container)
         else
           let has_space = (hd (msg_ids b) \<le> i \<and> i \<le> last (msg_ids b))
           in Inr (is_in_session \<and> has_space))"

definition buffer_reset :: "buffer \<Rightarrow> buffer" where
  "buffer_reset b = b\<lparr>buf_state := NO_SESSION, msg_ids := [], msg_vals := []\<rparr>"

end
