(* ===== verification/Buffer_Inv.thy ===== *)
theory Buffer_Inv
  imports Buffer
begin

text \<open>
  The invariant of the playback buffer and what every operation does to it: the two deques have the
  same length, and during a session the identifiers are consecutive multiples of the package size,
  at most \<open>max_elements\<close> of them when that number is positive.
\<close>

subsection \<open>Consecutive identifiers\<close>

definition contiguous :: "u64 \<Rightarrow> msg_id_t list \<Rightarrow> bool" where
  "contiguous ps ids \<longleftrightarrow>
     successively (\<lambda>x y. unat y = unat x + unat ps) ids \<and> list_all (\<lambda>x. unat ps dvd unat x) ids"

lemma contiguous_Nil [simp]: "contiguous ps []"
  by (simp add: contiguous_def)

lemma contiguous_single [simp]: "contiguous ps [x] \<longleftrightarrow> unat ps dvd unat x"
  by (simp add: contiguous_def)

lemma contiguous_append:
  "contiguous ps (xs @ ys) \<longleftrightarrow>
     contiguous ps xs \<and> contiguous ps ys
     \<and> (xs = [] \<or> ys = [] \<or> unat (hd ys) = unat (last xs) + unat ps)"
  by (auto simp: contiguous_def successively_append_iff)

lemma contiguous_drop: "contiguous ps xs \<Longrightarrow> contiguous ps (drop n xs)"
  using contiguous_append [of ps "take n xs" "drop n xs"] by simp

lemma contiguous_nth:
  assumes "contiguous ps ids" "k < length ids"
  shows "unat (ids ! k) = unat (hd ids) + k * unat ps"
  using assms(2)
proof (induction k)
  case 0
  then show ?case by (simp add: hd_conv_nth)
next
  case (Suc k)
  then have "unat (ids ! Suc k) = unat (ids ! k) + unat ps"
    using assms(1) by (auto simp: contiguous_def dest: successively_nth)
  with Suc show ?case by simp
qed

lemma contiguous_ascending: "contiguous ps ids \<Longrightarrow> 0 < unat ps \<Longrightarrow> sorted_wrt (<) ids"
  unfolding sorted_wrt_iff_nth_less
  using contiguous_nth by (simp add: word_less_nat_alt)

lemma contiguous_last:
  assumes "contiguous ps ids" "ids \<noteq> []"
  shows "unat (last ids) = unat (hd ids) + (length ids - 1) * unat ps"
  using contiguous_nth [OF assms(1), of "length ids - 1"] assms(2) by (simp add: last_conv_nth)

lemma contiguous_aligned: "contiguous ps ids \<Longrightarrow> x \<in> set ids \<Longrightarrow> unat ps dvd unat x"
  by (auto simp: contiguous_def list_all_iff)

lemma mod_eq_0_unat: "x mod ps = 0 \<longleftrightarrow> unat ps dvd unat (x :: u64)"
  by (metis mod_eq_0_iff_dvd unat_eq_zero unat_mod_distrib)

text \<open>Where an identifier between the first and the last is stored: the position that
  \<open>save_missed_message\<close> computes.\<close>

lemma contiguous_position:
  fixes i :: msg_id_t
  assumes ids: "contiguous ps ids" "ids \<noteq> []" and ps: "0 < unat ps"
    and i: "hd ids \<le> i" "i \<le> last ids" "unat ps dvd unat i"
  shows "unat ((i - hd ids) div ps) < length ids" "ids ! unat ((i - hd ids) div ps) = i"
proof -
  have "unat ps dvd unat (hd ids)"
    using ids by (simp add: contiguous_aligned)
  then obtain k where k: "unat i - unat (hd ids) = k * unat ps"
    using i(3) by (metis dvd_def dvd_diff_nat mult.commute)
  have le: "unat (hd ids) \<le> unat i" "unat i \<le> unat (last ids)"
    using i(1,2) by (simp_all add: word_le_nat_alt)
  have pos: "unat ((i - hd ids) div ps) = k"
    using i(1) ps k by (simp add: unat_div_distrib unat_sub word_le_nat_alt)
  have "k * unat ps \<le> (length ids - 1) * unat ps"
    using contiguous_last [OF ids] le k by linarith
  with ps ids(2) have len: "k < length ids"
    by (cases ids) (auto simp: less_Suc_eq_le)
  then show "unat ((i - hd ids) div ps) < length ids" by (simp add: pos)
  have "unat (ids ! k) = unat i"
    using contiguous_nth [OF ids(1) len] k le(1) by simp
  then show "ids ! unat ((i - hd ids) div ps) = i" by (simp add: pos word_unat_eq_iff)
qed

subsection \<open>What a bounded deque keeps\<close>

definition keep :: "nat \<Rightarrow> 'a list \<Rightarrow> 'a list" where
  "keep n xs = (if n = 0 then xs else lastn n xs)"

lemma length_keep: "length (keep n xs) = (if n = 0 then length xs else min n (length xs))"
  by (simp add: keep_def)

lemma keep_append: "keep n (keep n xs @ ys) = keep n (xs @ ys)"
  by (simp add: keep_def lastn_append)

lemma keep_small: "0 < n \<longrightarrow> length xs \<le> n \<Longrightarrow> keep n xs = xs"
  by (auto simp: keep_def)

lemma keep_eq_Nil [simp]: "keep n xs = [] \<longleftrightarrow> xs = []"
  by (cases xs) (auto simp: keep_def lastn_def)

lemma keep_snoc_ne: "keep n (xs @ [x]) \<noteq> []"
  by simp

lemma keep_suffix: "\<exists>k. keep n xs = drop k xs"
  by (metis drop_0 keep_def lastn_def)

lemma contiguous_keep: "contiguous ps xs \<Longrightarrow> contiguous ps (keep n xs)"
  using keep_suffix [of n xs] by (auto intro: contiguous_drop)

lemma last_keep_snoc [simp]: "last (keep n (xs @ [x])) = x"
  using keep_suffix [of n "xs @ [x]"] keep_snoc_ne [of n xs x] 
  by (metis drop_all last_drop last_snoc linorder_not_le)

lemma zip_keep: "length xs = length ys \<Longrightarrow> zip (keep n xs) (keep n ys) = keep n (zip xs ys)"
  by (simp add: keep_def lastn_def drop_zip)

lemma push_bounded:
  assumes "0 < n \<longrightarrow> length xs \<le> n" "xs \<noteq> []"
  shows "(if length xs = n then tl xs else xs) @ [x] = keep n (xs @ [x])"
  using assms by (auto simp: keep_def lastn_def drop_Suc Suc_diff_le)


subsection \<open>The invariant\<close>

text \<open>A package size below \<open>2 ^ 63\<close> is what a \<open>std::vector\<close> of bytes can have.\<close>

definition in_session :: "buffer \<Rightarrow> bool" where [inv_defs]:
  "in_session b \<longleftrightarrow>
     0 < unat (package_size b) \<and> unat (package_size b) < 2 ^ 63
     \<and> max_elements b = max_size b div package_size b
     \<and> contiguous (package_size b) (msg_ids b)
     \<and> (0 < unat (max_elements b) \<longrightarrow> length (msg_ids b) \<le> unat (max_elements b))"

definition buf_inv :: "buffer \<Rightarrow> bool" where [inv_defs]:
  "buf_inv b \<longleftrightarrow>
     length (msg_vals b) = length (msg_ids b)
     \<and> (if buf_state b = NO_SESSION then msg_ids b = [] else in_session b)"

definition payload_exists :: "data_msg \<Rightarrow> bool" where
  "payload_exists m \<longleftrightarrow> (case dm_data m of None \<Rightarrow> True | Some d \<Rightarrow> length d < 2 ^ 63)"

text \<open>The slots of the buffer: each identifier with its payload, or with nothing while the packet
  is missing.\<close>

definition slots :: "buffer \<Rightarrow> (msg_id_t \<times> msg_t option) list" where
  "slots b = zip (msg_ids b) (msg_vals b)"

lemma map_fst_slots: "length (msg_vals b) = length (msg_ids b) \<Longrightarrow> map fst (slots b) = msg_ids b"
  by (simp add: slots_def)

lemma in_session_max_msg_id [simp]: "in_session (b\<lparr>max_msg_id := i\<rparr>) = in_session b"
  by (simp add: in_session_def)

lemma buf_inv_max_msg_id [simp]: "buf_inv (b\<lparr>max_msg_id := i\<rparr>) = buf_inv b"
  by (simp add: buf_inv_def)

lemma buf_inv_init: "buf_inv (buffer_init n e p)"
  by (simp add: buf_inv_def buffer_init_def)

lemma buf_inv_reset: "buf_inv (buffer_reset b)"
  by (simp add: buf_inv_def buffer_reset_def)

lemma contiguous_tl: "contiguous ps ids \<Longrightarrow> contiguous ps (tl ids)"
  using contiguous_drop [of ps ids 1] by (simp add: drop_Suc)

lemma buf_inv_pop_front: "buf_inv b \<Longrightarrow> buf_inv (pop_front b)"
  by (auto simp: inv_defs pop_front_def contiguous_tl)

lemma buf_inv_make_room: "buf_inv b \<Longrightarrow> buf_inv (make_room b)"
  by (simp add: make_room_def buf_inv_pop_front)

lemma buf_inv_optional_read: "buf_inv b \<Longrightarrow> buf_inv (snd (buffer_try_read b))"
  by (auto simp: buffer_try_read_def optional_read_def buf_inv_pop_front split: list.split)

lemma buf_inv_save_missed: "buf_inv b \<Longrightarrow> buf_inv (snd (save_missed_message m b))"
  by (auto simp: save_missed_message_def Let_def inv_defs split: sum.split)

lemma buf_inv_check_readable:
  "buf_inv b \<Longrightarrow> buf_state b \<noteq> NO_SESSION \<Longrightarrow> buf_inv (check_readable m b)"
  by (auto simp: check_readable_def inv_defs)

lemma start_session_inv:
  assumes "buf_inv b" "payload_exists m"
  shows "buf_inv (snd (start_session m b))"
    "fst (start_session m b) = Inr () \<Longrightarrow> buf_state (snd (start_session m b)) \<noteq> NO_SESSION"
proof -
  have size: "unat (of_nat (length d) :: u64) = length d" if "dm_data m = Some d" for d
    using assms(2) that by (intro unat_of_nat_small) (simp add: payload_exists_def)
  show "buf_inv (snd (start_session m b))"
    using assms size
    by (auto simp: start_session_def Let_def get_data_def inv_defs
        payload_exists_def unat_gt_0 split: option.splits)
  show "fst (start_session m b) = Inr () \<Longrightarrow> buf_state (snd (start_session m b)) \<noteq> NO_SESSION"
    by (auto simp: start_session_def Let_def split: sum.splits if_splits)
qed


subsection \<open>Saving a new message\<close>

primrec gap_ids :: "nat \<Rightarrow> msg_id_t \<Rightarrow> u64 \<Rightarrow> msg_id_t list" where
  "gap_ids 0 s ps = []"
| "gap_ids (Suc n) s ps = s # gap_ids n (s + ps) ps"

lemma length_gap_ids [simp]: "length (gap_ids n s ps) = n"
  by (induction n arbitrary: s) auto

abbreviation room :: "buffer \<Rightarrow> nat" where
  "room b \<equiv> unat (max_elements b)"

definition cells_ok :: "buffer \<Rightarrow> bool" where
  "cells_ok b \<longleftrightarrow> length (msg_vals b) = length (msg_ids b) \<and> msg_ids b \<noteq> []
     \<and> (0 < room b \<longrightarrow> length (msg_ids b) \<le> room b)"

lemma push_slot:
  assumes "cells_ok b"
  shows "emplace_back v j (make_room b) =
    b\<lparr>msg_ids := keep (room b) (msg_ids b @ [j]), msg_vals := keep (room b) (msg_vals b @ [v])\<rparr>"
proof -
  have vals: "msg_vals b \<noteq> []" "0 < room b \<longrightarrow> length (msg_vals b) \<le> room b"
    using assms by (auto simp: cells_ok_def)
  have ids: "0 < room b \<longrightarrow> length (msg_ids b) \<le> room b" "msg_ids b \<noteq> []"
    "length (msg_vals b) = length (msg_ids b)"
    using assms by (auto simp: cells_ok_def)
  show ?thesis
    unfolding push_bounded [OF ids(1,2), symmetric] push_bounded [OF vals(2,1), symmetric]
    using ids(3) by (simp add: emplace_back_def make_room_def pop_front_def)
qed

lemma reserve_missed_spec:
  assumes "cells_ok b" "0 < unat (package_size b)"
    and "unat i = unat s + n * unat (package_size b)"
  shows "reserve_missed s i b =
    Some (b\<lparr>msg_ids := keep (room b) (msg_ids b @ gap_ids n s (package_size b)),
            msg_vals := keep (room b) (msg_vals b @ replicate n None)\<rparr>)"
  using assms
proof (induction n arbitrary: s b)
  case 0
  then have "i = s" by (simp add: word_unat_eq_iff)
  with 0 show ?case
    by (subst reserve_missed.simps) (simp add: keep_small cells_ok_def)
next
  case (Suc n)
  let ?ps = "package_size b"
  let ?b = "b\<lparr>msg_ids := keep (room b) (msg_ids b @ [s]), msg_vals := keep (room b) (msg_vals b @ [None])\<rparr>"
  have less: "s < i"
    using Suc.prems by (simp add: word_less_nat_alt)
  have next_id: "unat (s + ?ps) = unat s + unat ?ps"
    using Suc.prems(3) by (intro unat_add_below [of _ _ i]) simp
  have cells: "cells_ok ?b"
    using Suc.prems(1) by (auto simp: cells_ok_def length_keep)
  have "reserve_missed s i b = reserve_missed (s + ?ps) i ?b"
    using less push_slot [OF Suc.prems(1)] by (subst reserve_missed.simps) simp
  also have "\<dots> = Some (b\<lparr>msg_ids := keep (room b) (msg_ids b @ gap_ids (Suc n) s ?ps),
      msg_vals := keep (room b) (msg_vals b @ replicate (Suc n) None)\<rparr>)"
    using Suc.IH [OF cells, of "s + ?ps"] Suc.prems(2,3) next_id
      keep_append [of "room b" "msg_ids b @ [s]"] keep_append [of "room b" "msg_vals b @ [None]"]
    by simp
  finally show ?case .
qed

lemma contiguous_gaps:
  assumes "contiguous ps ids" "ids \<noteq> []" "unat i = unat (last ids) + Suc n * unat ps"
  shows "contiguous ps (ids @ gap_ids n (last ids + ps) ps @ [i])"
  using assms
proof (induction n arbitrary: ids)
  case 0
  then have "unat ps dvd unat i" by (simp add: contiguous_aligned)
  with 0 show ?case by (simp add: contiguous_append)
next
  case (Suc n)
  let ?j = "last ids + ps"
  have j: "unat ?j = unat (last ids) + unat ps"
    using Suc.prems(3) by (intro unat_add_below [of _ _ i]) simp
  then have "contiguous ps (ids @ [?j])"
    using Suc.prems(1,2) by (simp add: contiguous_append contiguous_aligned)
  then have "contiguous ps ((ids @ [?j]) @ gap_ids n (last (ids @ [?j]) + ps) ps @ [i])"
    using Suc.prems(3) j by (intro Suc.IH) auto
  then show ?case by simp
qed

text \<open>How many packets are missing between the last saved one and a new one.\<close>

definition n_missing :: "msg_id_t \<Rightarrow> buffer \<Rightarrow> nat" where
  "n_missing i b = (unat i - unat (last (msg_ids b))) div unat (package_size b) - 1"

definition new_slots :: "msg_id_t \<Rightarrow> buffer \<Rightarrow> msg_id_t list" where
  "new_slots i b = gap_ids (n_missing i b) (last (msg_ids b) + package_size b) (package_size b)"

lemma n_missing_eq:
  assumes "contiguous ps (msg_ids b)" "msg_ids b \<noteq> []" "ps = package_size b" "0 < unat ps"
    and "last (msg_ids b) < i" "unat ps dvd unat i"
  shows "unat i = unat (last (msg_ids b)) + Suc (n_missing i b) * unat ps"
proof -
  have "unat ps dvd unat (last (msg_ids b))"
    using assms(1,2) by (simp add: contiguous_aligned)
  then obtain k where k: "unat i - unat (last (msg_ids b)) = k * unat ps"
    using assms(6) by (metis dvd_def dvd_diff_nat mult.commute)
  moreover have "unat (last (msg_ids b)) < unat i"
    using assms(5) by (simp add: word_less_nat_alt)
  ultimately have "k \<noteq> 0" by (cases k) auto
  then show ?thesis
    using k assms(3,4) \<open>unat (last (msg_ids b)) < unat i\<close> by (simp add: n_missing_def)
qed


lemma reserve_for:
  assumes "buf_inv b" "buf_state b \<noteq> NO_SESSION" "msg_ids b \<noteq> []"
    and i: "last (msg_ids b) < i" "i mod package_size b = 0"
  defines "b1 \<equiv> b\<lparr>msg_ids := keep (room b) (msg_ids b @ new_slots i b),
                   msg_vals := keep (room b) (msg_vals b @ replicate (n_missing i b) None)\<rparr>"
  shows "reserve_missed (last (msg_ids b) + package_size b) i b = Some b1"
    and "contiguous (package_size b) (msg_ids b @ new_slots i b @ [i])"
    and "buf_inv b1" and "cells_ok b1"
proof -
  let ?ps = "package_size b" and ?s = "last (msg_ids b) + package_size b"
  have b: "contiguous ?ps (msg_ids b)" "0 < unat ?ps" "length (msg_vals b) = length (msg_ids b)"
    "0 < room b \<longrightarrow> length (msg_ids b) \<le> room b" "in_session b"
    using assms(1,2) by (auto simp: inv_defs)
  have total: "unat i = unat (last (msg_ids b)) + Suc (n_missing i b) * unat ?ps"
    using n_missing_eq [OF b(1) assms(3) refl b(2) i(1)] i(2) by (simp add: mod_eq_0_unat)
  then have "unat ?s = unat (last (msg_ids b)) + unat ?ps"
    by (intro unat_add_below [of _ _ i]) simp
  with total have "unat i = unat ?s + n_missing i b * unat ?ps" by simp
  then show reserved: "reserve_missed ?s i b = Some b1"
    using b assms(3) by (simp add: reserve_missed_spec cells_ok_def b1_def new_slots_def)
  show line: "contiguous ?ps (msg_ids b @ new_slots i b @ [i])"
    unfolding new_slots_def using contiguous_gaps [OF b(1) assms(3) total] .
  then have "contiguous ?ps (msg_ids b @ new_slots i b)"
    using contiguous_append [of ?ps "msg_ids b @ new_slots i b" "[i]"] by simp
  then show "buf_inv b1"
    using b assms(2) by (auto simp: inv_defs b1_def contiguous_keep length_keep new_slots_def)
  show "cells_ok b1"
    using b assms(3) by (auto simp: cells_ok_def b1_def length_keep new_slots_def)
qed

lemma save_new_ok:
  assumes "buf_inv b" "buf_state b \<noteq> NO_SESSION" "msg_ids b \<noteq> []"
    and "last (msg_ids b) < get_id m" "get_id m mod package_size b = 0" "get_data m = Inr d"
  shows "save_new_message m b = Some (Inr (),
    b\<lparr>msg_ids := keep (room b) (msg_ids b @ new_slots (get_id m) b @ [get_id m]),
      msg_vals := keep (room b) (msg_vals b @ replicate (n_missing (get_id m) b) None @ [Some d])\<rparr>)"
  using assms(3,6) reserve_for (1) [OF assms(1-5)] push_slot [OF reserve_for (4) [OF assms(1-5)]]
    keep_append [of "room b" "msg_ids b @ new_slots (get_id m) b"]
    keep_append [of "room b" "msg_vals b @ replicate (n_missing (get_id m) b) None"]
  by (simp add: save_new_message_def Let_def)

lemma save_new_first:
  "msg_ids b = [] \<Longrightarrow> get_data m = Inr d \<Longrightarrow>
   save_new_message m b = Some (Inr (), emplace_back (Some d) (get_id m) b)"
  by (simp add: save_new_message_def)

lemma buf_inv_first:
  assumes "buf_inv b" "buf_state b \<noteq> NO_SESSION" "msg_ids b = []" "i mod package_size b = 0"
  shows "buf_inv (emplace_back v i b)"
  using assms by (auto simp: inv_defs emplace_back_def mod_eq_0_unat)

lemma save_new_inv:
  assumes b: "buf_inv b" "buf_state b \<noteq> NO_SESSION"
    and i: "msg_ids b = [] \<or> last (msg_ids b) < get_id m" "get_id m mod package_size b = 0"
  shows "\<exists>r b'. save_new_message m b = Some (r, b') \<and> buf_inv b' \<and> buf_state b' = buf_state b
    \<and> (r = Inr () \<longrightarrow> msg_ids b' \<noteq> [])"
proof (cases "msg_ids b = []")
  case True
  with b i show ?thesis
    by (cases "get_data m") (auto simp: save_new_message_def buf_inv_first, simp_all add: emplace_back_def)
next
  case False
  with i have new: "last (msg_ids b) < get_id m" by simp
  note r = reserve_for [OF b False new i(2)]
  show ?thesis
  proof (cases "get_data m")
    case (Inl e)
    with False r(1) buf_inv_make_room [OF r(3)] show ?thesis
      by (auto simp: save_new_message_def Let_def make_room_def pop_front_def)
  next
    case (Inr d)
    have "contiguous (package_size b) (keep (room b) (msg_ids b @ new_slots (get_id m) b @ [get_id m]))"
      by (rule contiguous_keep) (rule r(2))
    then show ?thesis
      using b save_new_ok [OF b False new i(2) Inr]
      by (auto simp: inv_defs length_keep new_slots_def)
  qed
qed

end
