(* ===== verification/Buffer_Correct.thy ===== *)
theory Buffer_Correct
  imports Buffer_Inv
begin

text \<open>
  What the playback buffer's operations do: every write ends and keeps the invariant, a new packet
  is appended behind the gaps it leaves, a late packet fills its own slot, reads take the front, and
  the report of missed packets is undefined as soon as there is one to report.
\<close>

subsection \<open>Every write ends\<close>

lemma add_le_mult: "2 \<le> a \<Longrightarrow> 2 \<le> b \<Longrightarrow> a + b \<le> a * (b :: nat)"
proof -
  assume "2 \<le> a" "2 \<le> b"
  then obtain x y where "a = x + 2" "b = y + 2"
    by (metis add.commute le_Suc_ex)
  then show ?thesis by (simp add: algebra_simps)
qed

text \<open>Below the last identifier an index of the deque plus the package size does not wrap.\<close>

lemma index_step_no_wrap:
  assumes "contiguous ps ids" "0 < unat ps" "unat ps < 2 ^ 63"
    and "j < last ids" "unat j < length ids"
  shows "unat j + unat ps < 2 ^ 64"
proof -
  let ?L = "length ids - 1" and ?p = "unat ps"
  have "ids \<noteq> []" using assms(5) by auto
  then have last: "unat (last ids) = unat (hd ids) + ?L * ?p"
    using contiguous_last [OF assms(1)] by simp
  have bound: "unat (last ids) < 2 ^ 64"
    using unsigned_less [of "last ids"] by simp
  have j: "unat j \<le> ?L" "unat j < unat (last ids)"
    using assms(4,5) by (simp_all add: word_less_nat_alt)
  consider "?L \<le> 1" | "?p = 1" | "2 \<le> ?L" "2 \<le> ?p"
    using assms(2) by linarith
  then show ?thesis
  proof cases
    case 1
    with j(1) assms(3) show ?thesis by simp
  next
    case 2
    with j(2) bound show ?thesis by simp
  next
    case 3
    with add_le_mult [of ?L ?p] j(1) last bound show ?thesis by simp
  qed
qed

lemma missed_loop_terminates:
  assumes "0 < unat (package_size b)"
    and "\<And>j. j < bound \<Longrightarrow> unat j < length (msg_vals b) \<Longrightarrow> unat j + unat (package_size b) < 2 ^ 64"
  shows "\<exists>r. missed_loop i bound b acc = Some r"
proof (induction "length (msg_vals b) - unat i" arbitrary: i acc rule: less_induct)
  case less
  show ?case
  proof (cases "i < bound \<and> unat i < length (msg_vals b)")
    case True
    then have "unat (i + package_size b) = unat i + unat (package_size b)"
      using assms(2) [of i] by (intro unat_add_no_wrap) simp
    with True assms(1) have "length (msg_vals b) - unat (i + package_size b) < length (msg_vals b) - unat i"
      by arith
    from less [OF this] True show ?thesis
      by (subst missed_loop.simps) simp
  next
    case False
    then show ?thesis by (subst missed_loop.simps) auto
  qed
qed

lemma save_message_inv:
  assumes b: "buf_inv b" "buf_state b \<noteq> NO_SESSION"
  shows "\<exists>r b'. save_message m b = Some (r, b') \<and> buf_inv b' \<and> buf_state b' = buf_state b
    \<and> (r = Inr () \<longrightarrow> msg_ids b' \<noteq> [])"
proof -
  consider "package_size b = 0 \<or> get_id m mod package_size b \<noteq> 0"
    | "get_id m mod package_size b = 0" "msg_ids b = [] \<or> last (msg_ids b) < get_id m"
    | "package_size b \<noteq> 0" "get_id m mod package_size b = 0"
      "\<not> (msg_ids b = [] \<or> last (msg_ids b) < get_id m)"
    by metis
  then show ?thesis
  proof cases
    case 1
    with b show ?thesis by (auto simp: save_message_def)
  next
    case 2
    with b save_new_inv [OF b 2(2,1)] show ?thesis
      by (auto simp: save_message_def inv_defs)
  next
    case 3
    have "buf_state (snd (save_missed_message m b)) = buf_state b"
      "msg_ids (snd (save_missed_message m b)) = msg_ids b"
      by (auto simp: save_missed_message_def Let_def split: sum.split)
    with b 3 buf_inv_save_missed [OF b(1), of m] show ?thesis
      by (cases "save_missed_message m b") (auto simp: save_message_def)
  qed
qed

lemma collect_missed_terminates:
  assumes "buf_inv b" "buf_state b \<noteq> NO_SESSION"
  shows "\<exists>r. collect_missed m b = Some r"
proof (cases "msg_ids b = []")
  case True
  then show ?thesis by (simp add: collect_missed_def)
next
  case False
  have "unat j + unat (package_size b) < 2 ^ 64"
    if "j < min (get_id m) (last (msg_ids b))" "unat j < length (msg_vals b)" for j
    using that assms index_step_no_wrap [of "package_size b" "msg_ids b" j]
    by (simp add: inv_defs)
  then have "\<exists>r. missed_loop i (min (get_id m) (last (msg_ids b))) b [] = Some r" for i
    using assms by (intro missed_loop_terminates) (auto simp: inv_defs)
  with False show ?thesis by (simp add: collect_missed_def)
qed

lemma write_ends_or_inv:
  assumes "buf_inv b" "payload_exists m"
  shows "\<exists>r b'. write_get_missed m b = Some (r, b') \<and> buf_inv b'"
proof (cases "start_session m b")
  case (Pair r0 b0)
  note start = start_session_inv [OF assms, unfolded Pair, simplified]
  show ?thesis
  proof (cases r0)
    case (Inl e)
    with Pair start show ?thesis by (simp add: write_get_missed_def)
  next
    case (Inr u)
    let ?b1 = "check_readable m b0"
    have b1: "buf_inv ?b1" "buf_state ?b1 \<noteq> NO_SESSION"
      using start Inr by (simp_all add: buf_inv_check_readable) (simp add: check_readable_def)
    obtain r2 b2 where save: "save_message m ?b1 = Some (r2, b2)" "buf_inv b2"
        "buf_state b2 = buf_state ?b1"
      using save_message_inv [OF b1] by blast
    show ?thesis
    proof (cases r2)
      case (Inl e)
      with Pair Inr save show ?thesis by (simp add: write_get_missed_def)
    next
      case ok: (Inr v)
      obtain r where r: "collect_missed m b2 = Some r"
        using collect_missed_terminates save(2,3) b1(2) by metis
      with Pair Inr save ok r show ?thesis
        by (cases r) (simp_all add: write_get_missed_def)
    qed
  qed
qed

text \<open>C1: whatever packet arrives and whatever the state, a write ends (neither of its two loops runs
  forever, for every identifier of 64 bits) and leaves the buffer well-formed, also when it ends
  with an exception or an undefined access.\<close>
theorem write_ends_with_invariant:
  assumes "buf_inv b" "payload_exists m"
  shows "\<exists>r b'. write_get_missed m b = Some (r, b') \<and> buf_inv b'"
  using write_ends_or_inv [OF assms] .

theorem write_ends_with_invariant_witness:
  "\<exists>r b'. write_get_missed (data_msg_full 18446744073709551614 1 [1, 2])
     \<lparr>max_size = 10, max_elements = 5, buf_state = READABLE, max_msg_id = 4, byte_zero = 2,
      package_size = 2, msg_vals = [Some [7, 8], None, Some [9, 9]],
      msg_ids = [18446744073709551608, 18446744073709551610, 18446744073709551612]\<rparr> = Some (r, b')
   \<and> buf_inv b'"
  by (rule write_ends_with_invariant)
    (simp_all add: inv_defs contiguous_def payload_exists_def data_msg_full_def)

subsection \<open>What a write stores\<close>

lemma check_readable_fields [simp]:
  "msg_ids (check_readable m b) = msg_ids b" "msg_vals (check_readable m b) = msg_vals b"
  "package_size (check_readable m b) = package_size b" "max_elements (check_readable m b) = max_elements b"
  "max_msg_id (check_readable m b) = max_msg_id b" "max_size (check_readable m b) = max_size b"
  "byte_zero (check_readable m b) = byte_zero b"
  by (simp_all add: check_readable_def)

lemma new_slots_check_readable [simp]:
  "new_slots i (check_readable m b) = new_slots i b" "n_missing i (check_readable m b) = n_missing i b"
  by (simp_all add: new_slots_def n_missing_def)

lemma slots_check_readable [simp]: "slots (check_readable m b) = slots b"
  by (simp add: slots_def)

lemma slots_max_msg_id [simp]: "slots (b\<lparr>max_msg_id := i\<rparr>) = slots b"
  by (simp add: slots_def)

text \<open>During a session a write saves the packet, then reports.\<close>

lemma write_in_session:
  assumes "buf_inv b" "buf_state b \<noteq> NO_SESSION"
    and "save_message m (check_readable m b) = Some (Inr (), b2)" "buf_inv b2"
    and "buf_state b2 \<noteq> NO_SESSION"
  shows "\<exists>r. collect_missed m b2 = Some r \<and>
    write_get_missed m b = Some (r, case r of Inl _ \<Rightarrow> b2 | Inr _ \<Rightarrow> b2\<lparr>max_msg_id := get_id m\<rparr>)"
  using assms collect_missed_terminates [OF assms(4,5), of m]
  by (auto simp: write_get_missed_def start_session_def)

lemma slots_keep:
  assumes "length xs = length vs" "msg_ids b = keep n (xs @ ys @ [i])"
    and "msg_vals b = keep n (vs @ replicate (length ys) None @ [v])"
  shows "slots b = keep n (zip xs vs @ map (\<lambda>j. (j, None)) ys @ [(i, v)])"
  using assms by (simp add: slots_def zip_keep zip_replicate2)

lemma length_new_slots [simp]: "length (new_slots i b) = n_missing i b"
  by (simp add: new_slots_def)

lemma save_new_write:
  assumes "buf_inv b" "buf_state b \<noteq> NO_SESSION" "msg_ids b \<noteq> []"
    and "last (msg_ids b) < get_id m" "get_id m mod package_size b = 0" "get_data m = Inr d"
  shows "\<exists>b2. save_message m (check_readable m b) = Some (Inr (), b2) \<and> buf_inv b2
    \<and> buf_state b2 \<noteq> NO_SESSION
    \<and> msg_ids b2 = keep (room b) (msg_ids b @ new_slots (get_id m) b @ [get_id m])
    \<and> slots b2 = keep (room b) (slots b @ map (\<lambda>j. (j, None)) (new_slots (get_id m) b) @ [(get_id m, Some d)])
    \<and> package_size b2 = package_size b \<and> max_elements b2 = max_elements b \<and> max_msg_id b2 = max_msg_id b"
proof -
  let ?b = "check_readable m b"
  have b: "buf_inv ?b" "buf_state ?b \<noteq> NO_SESSION"
    using assms(1,2) by (simp_all add: buf_inv_check_readable) (simp add: check_readable_def)
  have ps: "package_size b \<noteq> 0" "length (msg_ids b) = length (msg_vals b)"
    using assms(1,2) by (auto simp: inv_defs)
  obtain b2 where b2: "save_new_message m ?b = Some (Inr (), b2)"
      "b2 = ?b\<lparr>msg_ids := keep (room b) (msg_ids b @ new_slots (get_id m) b @ [get_id m]),
               msg_vals := keep (room b) (msg_vals b @ replicate (n_missing (get_id m) b) None @ [Some d])\<rparr>"
    using save_new_ok [of ?b m d] b assms by simp
  have "save_message m ?b = Some (Inr (), b2)"
    using ps assms b2(1) by (simp add: save_message_def)
  moreover have "buf_inv b2" "buf_state b2 \<noteq> NO_SESSION"
    using save_new_inv [of ?b m] b assms(3-5) b2(1) by auto
  moreover have "slots b2 = keep (room b) (slots b @ map (\<lambda>j. (j, None)) (new_slots (get_id m) b) @ [(get_id m, Some d)])"
    using slots_keep [OF ps(2), of b2 "room b" "new_slots (get_id m) b" "get_id m" "Some d"] b2(2)
    by (simp add: slots_def)
  ultimately show ?thesis using b2(2) by simp
qed

text \<open>C3: during a session a packet that is newer than the whole buffer is appended behind one empty
  slot for each package missing in between, and of the result the buffer keeps the newest
  \<open>max_elements\<close> slots (all of them when \<open>max_elements\<close> is 0, because the test for a full
  buffer then never succeeds).\<close>
theorem write_new_packet:
  assumes "buf_inv b" "buf_state b \<noteq> NO_SESSION" "msg_ids b \<noteq> []"
    and "last (msg_ids b) < dm_id m" "dm_id m mod package_size b = 0" "dm_data m = Some d"
  shows "\<exists>r b'. write_get_missed m b = Some (r, b')
    \<and> slots b' = keep (unat (max_elements b))
        (slots b @ map (\<lambda>j. (j, None)) (new_slots (dm_id m) b) @ [(dm_id m, Some d)])
    \<and> contiguous (package_size b) (msg_ids b @ new_slots (dm_id m) b @ [dm_id m])"
proof -
  note m = assms(4-6) [folded get_id_def]
  have d: "get_data m = Inr d" using m(3) by (simp add: get_data_def)
  obtain b2 where b2: "save_message m (check_readable m b) = Some (Inr (), b2)" "buf_inv b2"
      "buf_state b2 \<noteq> NO_SESSION"
      "slots b2 = keep (room b) (slots b @ map (\<lambda>j. (j, None)) (new_slots (get_id m) b) @ [(get_id m, Some d)])"
    using save_new_write [OF assms(1-3) m(1,2) d] by blast
  show ?thesis
    using write_in_session [OF assms(1,2) b2(1-3)] b2(4) reserve_for(2) [OF assms(1-3) m(1,2)]
    by (auto simp: get_id_def split: sum.split)
qed


text \<open>A buffer of three slots of two bytes, in which the middle packet is missing.\<close>

definition sample_buffer :: buffer where
  "sample_buffer =
     \<lparr>max_size = 6, max_elements = 3, buf_state = WAITING, max_msg_id = 8, byte_zero = 4,
      package_size = 2, msg_vals = [Some [1, 2], None, Some [5, 6]], msg_ids = [4, 6, 8]\<rparr>"

lemma sample_buffer_ok: "buf_inv sample_buffer" "buf_state sample_buffer \<noteq> NO_SESSION"
  by (simp_all add: sample_buffer_def inv_defs contiguous_def)

lemma sample_buffer_fields:
  "msg_ids sample_buffer = [4, 6, 8]" "package_size sample_buffer = 2" "max_elements sample_buffer = 3"
  "slots sample_buffer = [(4, Some [1, 2]), (6, None), (8, Some [5, 6])]"
  by (simp_all add: sample_buffer_def slots_def)

theorem write_new_packet_witness:
  "\<exists>r b'. write_get_missed (data_msg_full 12 1 [7, 8]) sample_buffer = Some (r, b')
    \<and> slots b' = [(8, Some [5, 6]), (10, None), (12, Some [7, 8])]"
proof -
  have "new_slots 12 sample_buffer = [10]"
    by (simp add: new_slots_def n_missing_def sample_buffer_fields)
  then show ?thesis
    using write_new_packet [OF sample_buffer_ok, of "data_msg_full 12 1 [7, 8]" "[7, 8]"]
    by (auto simp: data_msg_full_def sample_buffer_fields keep_def lastn_def)
qed

lemma save_missed_ok:
  assumes "buf_inv b" "buf_state b \<noteq> NO_SESSION" "msg_ids b \<noteq> []"
    and "hd (msg_ids b) \<le> get_id m" "get_id m \<le> last (msg_ids b)" "get_id m mod package_size b = 0"
    and "get_data m = Inr d"
  shows "\<exists>k b'. save_missed_message m b = (Inr (), b') \<and> k < length (msg_ids b) \<and> msg_ids b ! k = get_id m
    \<and> buf_state b' = buf_state b \<and> slots b' = (slots b)[k := (get_id m, Some d)]"
proof -
  have b: "contiguous (package_size b) (msg_ids b)" "0 < unat (package_size b)"
      "length (msg_vals b) = length (msg_ids b)"
    using assms(1,2) by (auto simp: inv_defs)
  let ?k = "unat ((get_id m - hd (msg_ids b)) div package_size b)"
  have k: "?k < length (msg_ids b)" "msg_ids b ! ?k = get_id m"
    using contiguous_position [OF b(1) assms(3) b(2) assms(4,5)] assms(6) by (simp_all add: mod_eq_0_unat)
  have "zip (msg_ids b) ((msg_vals b)[?k := Some d])
      = (zip (msg_ids b) (msg_vals b))[?k := (msg_ids b ! ?k, Some d)]"
    using update_zip [of "msg_ids b" "msg_vals b" ?k "(msg_ids b ! ?k, Some d)"] by simp
  then show ?thesis
    using k b(3) assms(7)
    by (intro exI [of _ ?k] exI [of _ "b\<lparr>msg_vals := (msg_vals b)[?k := Some d]\<rparr>"])
      (simp add: save_missed_message_def slots_def Let_def)
qed

lemma save_late:
  assumes "buf_inv b" "buf_state b \<noteq> NO_SESSION" "msg_ids b \<noteq> []"
    and "hd (msg_ids b) \<le> dm_id m" "dm_id m \<le> last (msg_ids b)" "dm_id m mod package_size b = 0" "dm_data m = Some d"
  shows "\<exists>k b2. save_message m (check_readable m b) = Some (Inr (), b2) \<and> buf_inv b2
    \<and> buf_state b2 = buf_state (check_readable m b) \<and> msg_ids b2 = msg_ids b \<and> max_msg_id b2 = max_msg_id b
    \<and> package_size b2 = package_size b \<and> k < length (msg_ids b) \<and> msg_ids b ! k = dm_id m
    \<and> slots b2 = (slots b)[k := (dm_id m, Some d)]"
proof -
  let ?b = "check_readable m b"
  have b: "buf_inv ?b" "buf_state ?b \<noteq> NO_SESSION" "package_size b \<noteq> 0"
    using assms(1,2) by (simp_all add: buf_inv_check_readable)
      (auto simp: check_readable_def inv_defs)
  have m: "get_id m = dm_id m" "get_data m = Inr d" "\<not> last (msg_ids b) < dm_id m"
    using assms(5,7) by (auto simp: get_id_def get_data_def)
  have pre: "msg_ids ?b \<noteq> []" "hd (msg_ids ?b) \<le> get_id m" "get_id m \<le> last (msg_ids ?b)"
      "get_id m mod package_size ?b = 0"
    using assms(3-6) m(1) by simp_all
  obtain k b2 where b2: "save_missed_message m ?b = (Inr (), b2)" "k < length (msg_ids b)"
      "msg_ids b ! k = dm_id m" "buf_state b2 = buf_state ?b" "slots b2 = (slots b)[k := (dm_id m, Some d)]"
    using save_missed_ok [OF b(1,2) pre m(2)] m(1) by auto
  moreover have "save_message m ?b = Some (Inr (), b2)"
    using m b(3) assms(3-6) b2(1) by (auto simp: save_message_def)
  moreover have "buf_inv b2" using buf_inv_save_missed [OF b(1), of m] b2(1) by simp
  moreover have "msg_ids b2 = msg_ids b" "max_msg_id b2 = max_msg_id b" "package_size b2 = package_size b"
    using b2(1) m(2) by (auto simp: save_missed_message_def Let_def split: if_splits)
  ultimately show ?thesis by blast
qed

text \<open>During a session a packet whose identifier lies between the buffer's first and last
  identifiers (a retransmitted or reordered packet) is stored in the one slot with that identifier
  and nothing else changes; a packet older than the first slot changes no slot.\<close>
lemma write_late_packet:
  assumes "buf_inv b" "buf_state b \<noteq> NO_SESSION" "msg_ids b \<noteq> []"
    and "dm_id m \<le> last (msg_ids b)" "dm_id m mod package_size b = 0" "dm_data m = Some d"
  shows "\<exists>r b'. write_get_missed m b = Some (r, b') \<and>
    (if dm_id m < hd (msg_ids b) then slots b' = slots b
     else \<exists>k. k < length (msg_ids b) \<and> msg_ids b ! k = dm_id m
            \<and> slots b' = (slots b)[k := (dm_id m, Some d)])"
proof -
  let ?b = "check_readable m b"
  have b: "buf_inv ?b" "buf_state ?b \<noteq> NO_SESSION" "package_size b \<noteq> 0"
    using assms(1,2) by (simp_all add: buf_inv_check_readable)
      (auto simp: check_readable_def inv_defs)
  have m: "get_id m = dm_id m" "get_data m = Inr d" "\<not> last (msg_ids b) < dm_id m"
    using assms(4,6) by (auto simp: get_id_def get_data_def)
  show ?thesis
  proof (cases "dm_id m < hd (msg_ids b)")
    case True
    then have "save_message m ?b = Some (Inr (), ?b)"
      using m b(3) assms(3,5) by (auto simp: save_message_def)
    from write_in_session [OF assms(1,2) this b(1,2)] True show ?thesis
      by (auto split: sum.split)
  next
    case False
    then obtain k b2 where b2: "save_message m ?b = Some (Inr (), b2)" "buf_inv b2" "buf_state b2 = buf_state ?b"
        "k < length (msg_ids b)" "msg_ids b ! k = dm_id m" "slots b2 = (slots b)[k := (dm_id m, Some d)]"
      using save_late [OF assms(1-3) _ assms(4-6)] by (auto simp: not_less)
    then show ?thesis
      using write_in_session [OF assms(1,2) b2(1,2)] b(2) False by (auto split: sum.split)
  qed
qed

lemma write_late_packet_example:
  "\<exists>r b'. write_get_missed (data_msg_full 6 1 [3, 4]) sample_buffer = Some (r, b')
    \<and> slots b' = [(4, Some [1, 2]), (6, Some [3, 4]), (8, Some [5, 6])]"
  using write_late_packet [OF sample_buffer_ok, of "data_msg_full 6 1 [3, 4]" "[3, 4]"]
  by (auto simp: data_msg_full_def sample_buffer_fields less_Suc_eq)


subsection \<open>The report of missed packets\<close>

lemma missed_loop_stop: "\<not> i < bound \<Longrightarrow> missed_loop i bound b acc = Some (Inr acc)"
  by (subst missed_loop.simps) simp

lemma collect_missed_none:
  assumes "msg_ids b \<noteq> []" "get_id m \<le> max (max_msg_id b + package_size b) (hd (msg_ids b))"
  shows "collect_missed m b = Some (Inr [])"
proof -
  have stop: "\<not> max (max_msg_id b + package_size b) (hd (msg_ids b)) < min (get_id m) (last (msg_ids b))"
    using assms(2) by (meson leD min.coboundedI1)
  show ?thesis
    using assms(1) missed_loop_stop [OF stop] by (simp only: collect_missed_def if_False)
qed

lemma collect_missed_undefined:
  assumes "msg_ids b \<noteq> []" "length (msg_vals b) \<le> unat (max (max_msg_id b + package_size b) (hd (msg_ids b)))"
    and "max (max_msg_id b + package_size b) (hd (msg_ids b)) < min (get_id m) (last (msg_ids b))"
  shows "collect_missed m b = Some (Inl (Undefined Out_Of_Bounds))"
  unfolding collect_missed_def
  by (subst missed_loop.simps) (use assms in simp)

lemma write_late_ok:
  assumes "buf_inv b" "buf_state b \<noteq> NO_SESSION" "msg_ids b \<noteq> []"
    and "hd (msg_ids b) \<le> dm_id m" "dm_id m \<le> last (msg_ids b)" "dm_id m mod package_size b = 0" "dm_data m = Some d"
    and "dm_id m \<le> max_msg_id b + package_size b"
  shows "\<exists>k b'. write_get_missed m b = Some (Inr [], b') \<and> k < length (msg_ids b) \<and> msg_ids b ! k = dm_id m
    \<and> slots b' = (slots b)[k := (dm_id m, Some d)] \<and> buf_state b' = buf_state (check_readable m b)
    \<and> length (msg_vals b') = length (msg_ids b')"
proof -
  from save_late [OF assms(1-7)] obtain k b2 where b2: "save_message m (check_readable m b) = Some (Inr (), b2)" "buf_inv b2"
      "buf_state b2 = buf_state (check_readable m b)" "msg_ids b2 = msg_ids b" "max_msg_id b2 = max_msg_id b"
      "package_size b2 = package_size b" "k < length (msg_ids b)" "msg_ids b ! k = dm_id m"
      "slots b2 = (slots b)[k := (dm_id m, Some d)]"
    by blast
  have "collect_missed m b2 = Some (Inr [])"
    using assms(3,8) b2(4-6) by (intro collect_missed_none) (simp_all add: get_id_def le_max_iff_disj)
  moreover have "buf_state b2 \<noteq> NO_SESSION" using b2(3) assms(2) by (simp add: check_readable_def)
  moreover have "length (msg_vals b2) = length (msg_ids b2)" using b2(2) by (simp add: buf_inv_def)
  ultimately show ?thesis using write_in_session [OF assms(1,2) b2(1,2)] b2(3,7-9) by auto
qed

lemma contiguous_hd_less_last:
  assumes "contiguous ps ids" "2 \<le> length ids" "0 < unat ps"
  shows "hd ids < last ids"
proof -
  have "ids \<noteq> []" "0 < (length ids - 1) * unat ps" using assms by auto
  then show ?thesis
    using contiguous_last [OF assms(1)] by (simp add: word_less_nat_alt)
qed

text \<open>C13: with room for at least two and at most \<open>package_size\<close> packets (the default: 128 packets
  of 512 bytes), a new packet that does not directly follow the last written one (packets were lost,
  or the last write was a retransmitted packet) is stored, but the report of missed identifiers
  reads the deque of payloads out of bounds, because it uses the identifier, a byte number, as the
  index of a slot. No retransmission request can result.\<close>
theorem gap_report_undefined:
  assumes "buf_inv b" "buf_state b \<noteq> NO_SESSION" "msg_ids b \<noteq> []"
    and "last (msg_ids b) < dm_id m" "dm_id m mod package_size b = 0" "dm_data m = Some d"
    and room: "2 \<le> unat (max_elements b)" "unat (max_elements b) \<le> unat (package_size b)"
    and gap: "unat (max_msg_id b) + unat (package_size b) < unat (dm_id m)"
  shows "\<exists>b'. write_get_missed m b = Some (Inl (Undefined Out_Of_Bounds), b')
    \<and> slots b' = keep (unat (max_elements b))
        (slots b @ map (\<lambda>j. (j, None)) (new_slots (dm_id m) b) @ [(dm_id m, Some d)])"
proof -
  note m = assms(4-6) [folded get_id_def]
  have d: "get_data m = Inr d" using m(3) by (simp add: get_data_def)
  obtain b2 where b2: "save_message m (check_readable m b) = Some (Inr (), b2)" "buf_inv b2"
      "buf_state b2 \<noteq> NO_SESSION"
      "msg_ids b2 = keep (room b) (msg_ids b @ new_slots (get_id m) b @ [get_id m])"
      "slots b2 = keep (room b) (slots b @ map (\<lambda>j. (j, None)) (new_slots (get_id m) b) @ [(get_id m, Some d)])"
      "package_size b2 = package_size b" "max_elements b2 = max_elements b" "max_msg_id b2 = max_msg_id b"
    using save_new_write [OF assms(1-3) m(1,2) d] by blast
  have inv2: "contiguous (package_size b) (msg_ids b2)" "length (msg_vals b2) \<le> room b" "0 < unat (package_size b)"
    using b2(2,3,6,7) room by (auto simp: inv_defs)
  have "2 \<le> length (msg_ids b2)" "last (msg_ids b2) = get_id m" "msg_ids b2 \<noteq> []"
    using assms(3) room b2(4) last_keep_snoc [of "room b" "msg_ids b @ new_slots (get_id m) b" "get_id m"]
    by (cases "msg_ids b"; simp add: length_keep)+
  moreover have "hd (msg_ids b2) < last (msg_ids b2)"
    using contiguous_hd_less_last [OF inv2(1) calculation(1) inv2(3)] .
  moreover have "unat (max_msg_id b + package_size b) = unat (max_msg_id b) + unat (package_size b)"
    using gap by (intro unat_add_below [of _ _ "dm_id m"]) simp
  ultimately have "collect_missed m b2 = Some (Inl (Undefined Out_Of_Bounds))"
    using gap b2(6,8) inv2(2) room
    by (intro collect_missed_undefined)
      (auto simp: max_def get_id_def word_less_nat_alt word_le_nat_alt)
  then show ?thesis
    using write_in_session [OF assms(1,2) b2(1-3)] b2(5) by (auto simp: get_id_def)
qed

text \<open>The default receiver (buffer of 65536 bytes) playing from the default sender (packets of 512
  bytes), when the packet of byte 512 is lost.\<close>

theorem gap_report_undefined_witness:
  "\<exists>b'. write_get_missed (data_msg_full 1024 1 [7])
     \<lparr>max_size = 65536, max_elements = 128, buf_state = WAITING, max_msg_id = 0, byte_zero = 0,
      package_size = 512, msg_vals = [Some [5]], msg_ids = [0]\<rparr>
   = Some (Inl (Undefined Out_Of_Bounds), b')
   \<and> slots b' = [(0, Some [5]), (512, None), (1024, Some [7])]"
proof -
  let ?b = "\<lparr>max_size = 65536, max_elements = 128, buf_state = WAITING, max_msg_id = 0, byte_zero = 0,
    package_size = 512, msg_vals = [Some [5]], msg_ids = [0]\<rparr> :: buffer"
  have "buf_inv ?b" by (simp add: inv_defs contiguous_def)
  moreover have "new_slots 1024 ?b = [512]" by (simp add: new_slots_def n_missing_def)
  ultimately show ?thesis
    using gap_report_undefined [of ?b "data_msg_full 1024 1 [7]" "[7]"]
    by (simp add: data_msg_full_def slots_def keep_def)
qed

end
