(* ===== verification/Buffer_Stream.thy ===== *)
theory Buffer_Stream
  imports Buffer_Correct
begin

text \<open>
  The playback buffer over a whole session: packets written in order are reported without gaps,
  kept up to the room of the buffer, and read back in order once the buffer is three quarters full;
  and what reads, queries and the bound of the buffer do in every state.
\<close>

subsection \<open>A stream of packets\<close>

fun stream_packets :: "u64 \<Rightarrow> msg_id_t \<Rightarrow> u64 \<Rightarrow> msg_t list \<Rightarrow> data_msg list" where
  "stream_packets s i ps [] = []"
| "stream_packets s i ps (d # ds) = data_msg_full i s d # stream_packets s (i + ps) ps ds"

text \<open>Writing packets that are all accepted with nothing missed, and reading until there is nothing
  to read.\<close>

fun write_each :: "data_msg list \<Rightarrow> buffer \<Rightarrow> buffer option" where
  "write_each [] b = Some b"
| "write_each (m # ms) b =
     (case write_get_missed m b of Some (Inr [], b') \<Rightarrow> write_each ms b' | _ \<Rightarrow> None)"

fun read_each :: "nat \<Rightarrow> buffer \<Rightarrow> msg_t list \<times> buffer" where
  "read_each 0 b = ([], b)"
| "read_each (Suc n) b =
     (case buffer_try_read b of
        (Inr (Some d), b') \<Rightarrow> (let (ds, b'') = read_each n b' in (d # ds, b''))
      | (_, b') \<Rightarrow> ([], b'))"

definition streaming :: "buffer \<Rightarrow> bool" where
  "streaming b \<longleftrightarrow>
     buf_inv b \<and> buf_state b \<noteq> NO_SESSION \<and> msg_ids b \<noteq> [] \<and> max_msg_id b = last (msg_ids b)"

lemma new_slots_next:
  assumes "unat i = unat (last (msg_ids b)) + unat (package_size b)" "0 < unat (package_size b)"
  shows "new_slots i b = []" "n_missing i b = 0"
  using assms by (simp_all add: new_slots_def n_missing_def)

lemma write_next:
  assumes b: "streaming b" and i: "unat (dm_id m) = unat (last (msg_ids b)) + unat (package_size b)"
    and d: "dm_data m = Some d"
  shows "\<exists>b'. write_get_missed m b = Some (Inr [], b') \<and> streaming b' \<and> last (msg_ids b') = dm_id m
    \<and> slots b' = keep (room b) (slots b @ [(dm_id m, Some d)])
    \<and> package_size b' = package_size b \<and> max_elements b' = max_elements b \<and> byte_zero b' = byte_zero b
    \<and> buf_state b' = (if readable_from b \<le> dm_id m then READABLE else buf_state b)"
proof -
  have inv: "buf_inv b" "buf_state b \<noteq> NO_SESSION" "msg_ids b \<noteq> []" "max_msg_id b = last (msg_ids b)"
      "contiguous (package_size b) (msg_ids b)" "0 < unat (package_size b)"
    using b by (auto simp: streaming_def inv_defs)
  have next_id: "dm_id m = last (msg_ids b) + package_size b"
    using i unat_add_below [of "last (msg_ids b)" "package_size b" "dm_id m"]
    by (simp add: word_unat_eq_iff)
  have m: "last (msg_ids b) < get_id m" "get_id m mod package_size b = 0" "get_data m = Inr d"
    using i inv d contiguous_aligned [OF inv(5), of "last (msg_ids b)"]
    by (simp_all add: get_id_def get_data_def word_less_nat_alt mod_eq_0_unat)
  let ?b2 = "(check_readable m b)\<lparr>msg_ids := keep (room b) (msg_ids b @ [get_id m]),
    msg_vals := keep (room b) (msg_vals b @ [Some d])\<rparr>"
  have b1: "buf_inv (check_readable m b)" "buf_state (check_readable m b) \<noteq> NO_SESSION"
    using inv by (simp_all add: buf_inv_check_readable) (simp add: check_readable_def)
  have new: "new_slots (get_id m) b = []" "n_missing (get_id m) b = 0"
    using new_slots_next [OF i inv(6)] by (simp_all add: get_id_def)
  have "save_new_message m (check_readable m b) = Some (Inr (), ?b2)"
    using save_new_ok [of "check_readable m b" m d] b1 inv(3) m new by simp
  then have save: "save_message m (check_readable m b) = Some (Inr (), ?b2)"
    using m inv by (auto simp: save_message_def)
  have b2: "buf_inv ?b2" "buf_state ?b2 \<noteq> NO_SESSION" "msg_ids ?b2 \<noteq> []"
    using save_new_write [OF inv(1-3) m] save b1(2) by auto
  have "collect_missed m ?b2 = Some (Inr [])"
    using next_id inv(4) by (intro collect_missed_none) (simp_all add: get_id_def)
  then have "write_get_missed m b = Some (Inr [], ?b2\<lparr>max_msg_id := get_id m\<rparr>)"
    using write_in_session [OF inv(1,2) save b2(1,2)] by auto
  moreover have "slots ?b2 = keep (room b) (slots b @ [(dm_id m, Some d)])"
    using inv(1) by (simp add: slots_def zip_keep get_id_def buf_inv_def)
  ultimately show ?thesis
    using b2 by (simp add: streaming_def get_id_def check_readable_def)
qed

lemma write_first:
  assumes "buf_inv b" "buf_state b = NO_SESSION" and d: "dm_data m = Some d"
    and size: "0 < length d" "length d < 2 ^ 63" and i: "length d dvd unat (dm_id m)"
  shows "\<exists>b'. write_get_missed m b = Some (Inr [], b') \<and> streaming b'
    \<and> slots b' = [(dm_id m, Some d)] \<and> last (msg_ids b') = dm_id m
    \<and> package_size b' = of_nat (length d) \<and> max_elements b' = max_size b div of_nat (length d)
    \<and> byte_zero b' = dm_id m
    \<and> buf_state b' = (if readable_from b' \<le> dm_id m then READABLE else WAITING)"
proof -
  have ps: "unat (of_nat (length d) :: u64) = length d"
    using size(2) by (intro unat_of_nat_small) simp
  then have ps0: "(of_nat (length d) :: u64) \<noteq> 0" "dm_id m mod of_nat (length d) = 0"
    using size(1) i by (auto simp: mod_eq_0_unat)
  have empty: "msg_ids b = []" "msg_vals b = []"
    using assms(1,2) by (auto simp: buf_inv_def)
  let ?b1 = "b\<lparr>byte_zero := dm_id m, max_msg_id := dm_id m, package_size := of_nat (length d),
    max_elements := max_size b div of_nat (length d), buf_state := WAITING\<rparr>"
  let ?b2 = "emplace_back (Some d) (dm_id m) (check_readable m ?b1)"
  have start: "start_session m b = (Inr (), ?b1)"
    using assms(2) d ps0(1) by (simp add: start_session_def get_data_def get_id_def Let_def)
  have "buf_inv (check_readable m ?b1)"
    using empty size ps by (intro buf_inv_check_readable) (simp_all add: inv_defs)
  then have inv: "buf_inv ?b2"
    using empty ps0(2) by (intro buf_inv_first) (auto simp: check_readable_def)
  have "save_message m (check_readable m ?b1) = Some (Inr (), ?b2)"
    using empty d ps0 by (simp add: save_message_def save_new_message_def get_data_def get_id_def)
  moreover have "collect_missed m ?b2 = Some (Inr [])"
    using empty by (intro collect_missed_none) (simp_all add: emplace_back_def get_id_def)
  ultimately have "write_get_missed m b = Some (Inr [], ?b2\<lparr>max_msg_id := dm_id m\<rparr>)"
    using start by (simp add: write_get_missed_def get_id_def)
  then show ?thesis
    using inv empty
    by (auto simp: streaming_def emplace_back_def slots_def readable_from_def check_readable_def get_id_def)
qed


lemma write_stream:
  assumes "streaming b" "unat i = unat (last (msg_ids b)) + unat (package_size b)"
    and "unat i + length ds * unat (package_size b) < 2 ^ 64 + unat (package_size b)"
  shows "\<exists>b'. write_each (stream_packets s i (package_size b) ds) b = Some b' \<and> streaming b'
    \<and> slots b' = keep (room b) (slots b @ zip (gap_ids (length ds) i (package_size b)) (map Some ds))
    \<and> unat (last (msg_ids b')) = unat (last (msg_ids b)) + length ds * unat (package_size b)
    \<and> readable_from b' = readable_from b
    \<and> buf_state b' = (if ds \<noteq> [] \<and> readable_from b \<le> last (msg_ids b') then READABLE else buf_state b)"
  using assms
proof (induction ds arbitrary: b i)
  case Nil
  then have "keep (room b) (slots b) = slots b"
    by (intro keep_small) (auto simp: streaming_def inv_defs slots_def)
  with Nil show ?case by simp
next
  case (Cons d ds)
  let ?m = "data_msg_full i s d"
  obtain b1 where b1: "write_get_missed ?m b = Some (Inr [], b1)" "streaming b1"
      "last (msg_ids b1) = i" "slots b1 = keep (room b) (slots b @ [(i, Some d)])"
      "package_size b1 = package_size b" "max_elements b1 = max_elements b" "byte_zero b1 = byte_zero b"
      "buf_state b1 = (if readable_from b \<le> i then READABLE else buf_state b)"
    using write_next [OF Cons.prems(1), of ?m d] Cons.prems(2) by (auto simp: data_msg_full_def)
  have same: "readable_from b1 = readable_from b" using b1 by (simp add: readable_from_def)
  show ?case
  proof (cases "ds = []")
    case True
    with b1 Cons.prems(2) same show ?thesis by simp
  next
    case False
    then have "unat i + unat (package_size b) < 2 ^ 64"
      using Cons.prems(3) by (cases ds) auto
    then have i2: "unat (i + package_size b) = unat i + unat (package_size b)"
      by (intro unat_add_no_wrap) simp
    obtain b2 where b2: "write_each (stream_packets s (i + package_size b) (package_size b) ds) b1 = Some b2"
        "streaming b2"
        "slots b2 = keep (room b) (slots b1 @ zip (gap_ids (length ds) (i + package_size b) (package_size b)) (map Some ds))"
        "unat (last (msg_ids b2)) = unat i + length ds * unat (package_size b)"
        "readable_from b2 = readable_from b"
        "buf_state b2 = (if ds \<noteq> [] \<and> readable_from b \<le> last (msg_ids b2) then READABLE else buf_state b1)"
      using Cons.IH [OF b1(2), of "i + package_size b"] b1(3,5,6) same i2 Cons.prems(3)
      by auto
    have "i \<le> last (msg_ids b2)" using b2(4) by (simp add: word_le_nat_alt)
    then have "buf_state b2 = (if readable_from b \<le> last (msg_ids b2) then READABLE else buf_state b)"
      using b2(6) b1(8) False by auto
    then show ?thesis
      using b1(1,4) b2 Cons.prems(2) keep_append [of "room b" "slots b @ [(i, Some d)]"] by simp
  qed
qed

lemma read_all:
  assumes "buf_state b = READABLE" "msg_vals b = map Some vs"
  shows "\<exists>b'. read_each (length vs) b = (vs, b') \<and> msg_vals b' = [] \<and> buf_state b' = READABLE"
  using assms
proof (induction vs arbitrary: b)
  case Nil
  then show ?case by simp
next
  case (Cons v vs)
  then have "buffer_try_read b = (Inr (Some v), pop_front b)"
    by (simp add: buffer_try_read_def optional_read_def)
  moreover obtain b' where "read_each (length vs) (pop_front b) = (vs, b')" "msg_vals b' = []"
      "buf_state b' = READABLE"
    using Cons.IH [of "pop_front b"] Cons.prems by (auto simp: pop_front_def)
  ultimately show ?case by simp
qed

lemma keep_map: "keep n (map f xs) = map f (keep n xs)"
  by (simp add: keep_def lastn_def drop_map)

lemma keep_zip:
  "length xs = length ys \<Longrightarrow> keep n (zip xs ys) = zip (keep n xs) (keep n ys)"
  by (simp add: zip_keep)

lemma stream_session:
  assumes b: "buf_inv b" "buf_state b = NO_SESSION"
    and d: "0 < length d" "length d < 2 ^ 63" "length d dvd unat i"
    and no_wrap: "unat i + length ds * length d < 2 ^ 64"
  defines "ps \<equiv> of_nat (length d)"
  shows "\<exists>b'. write_each (stream_packets s i ps (d # ds)) b = Some b' \<and> streaming b'
    \<and> slots b' = keep (unat (max_size b div ps)) (zip (gap_ids (Suc (length ds)) i ps) (map Some (d # ds)))
    \<and> buf_state b' =
        (if i + max_size b div ps * ps * 3 div 4 \<le> i + of_nat (length ds) * ps then READABLE else WAITING)"
proof -
  have ps: "unat ps = length d"
    unfolding ps_def using d(2) by (intro unat_of_nat_small) simp
  obtain b1 where b1: "write_get_missed (data_msg_full i s d) b = Some (Inr [], b1)" "streaming b1"
      "slots b1 = [(i, Some d)]" "last (msg_ids b1) = i" "package_size b1 = ps"
      "max_elements b1 = max_size b div ps" "byte_zero b1 = i"
      "buf_state b1 = (if readable_from b1 \<le> i then READABLE else WAITING)"
    using write_first [OF b, of "data_msg_full i s d" d] d by (auto simp: data_msg_full_def ps_def)
  have from_id: "readable_from b1 = i + max_size b div ps * ps * 3 div 4"
    using b1(5-7) by (simp add: readable_from_def)
  show ?thesis
  proof (cases "ds = []")
    case True
    then show ?thesis using b1 from_id by (simp add: keep_def)
  next
    case False
    then have "1 * length d \<le> length ds * length d" by (intro mult_le_mono1) (simp add: Suc_le_eq)
    then have "unat i + unat ps < 2 ^ 64" using no_wrap ps by linarith
    then have i2: "unat (i + ps) = unat i + unat ps"
      by (intro unat_add_no_wrap) simp
    obtain b2 where b2: "write_each (stream_packets s (i + ps) ps ds) b1 = Some b2" "streaming b2"
        "slots b2 = keep (room b1) ([(i, Some d)] @ zip (gap_ids (length ds) (i + ps) ps) (map Some ds))"
        "unat (last (msg_ids b2)) = unat i + length ds * unat ps"
        "buf_state b2 = (if ds \<noteq> [] \<and> readable_from b1 \<le> last (msg_ids b2) then READABLE else buf_state b1)"
      using write_stream [OF b1(2), of "i + ps" ds s] b1(3-5) i2 no_wrap ps by auto
    have "length ds * unat ps < 2 ^ 64" using no_wrap ps by simp
    then have "unat (of_nat (length ds) * ps) = length ds * unat ps"
      by (simp add: unat_word_ariths unat_of_nat take_bit_eq_mod mod_mult_left_eq)
    then have "unat (i + of_nat (length ds) * ps) = unat i + length ds * unat ps"
      using no_wrap ps by (subst unat_add_no_wrap) simp_all
    with b2(4) have last: "last (msg_ids b2) = i + of_nat (length ds) * ps"
      by (simp add: word_unat_eq_iff)
    have "i \<le> last (msg_ids b2)" using b2(4) by (simp add: word_le_nat_alt)
    then have "buf_state b2 = (if readable_from b1 \<le> last (msg_ids b2) then READABLE else WAITING)"
      using b2(5) b1(8) False by auto
    then show ?thesis using b1 b2 last from_id by simp
  qed
qed


subsection \<open>Properties\<close>

text \<open>When the packets of a session arrive in order and none is missing (the first identifier
  being a multiple of the payload's length, and no identifier wrapping), every write is accepted and
  reports nothing missed; the buffer then holds the newest packets it has room for, each under its
  identifier, and it is readable exactly when the last identifier has reached three quarters of the
  buffer's room behind the first. This holds whatever the length of the later payloads.\<close>
lemma stream_is_buffered:
  assumes "buf_inv b" "buf_state b = NO_SESSION"
    and "0 < length d" "length d < 2 ^ 63" "length d dvd unat i"
    and "unat i + length ds * length d < 2 ^ 64"
  shows "let ps = of_nat (length d) in
    \<exists>b'. write_each (stream_packets s i ps (d # ds)) b = Some b' \<and> buf_inv b'
    \<and> slots b' = keep (unat (max_size b div ps)) (zip (gap_ids (Suc (length ds)) i ps) (map Some (d # ds)))
    \<and> buf_state b' =
        (if i + max_size b div ps * ps * 3 div 4 \<le> i + of_nat (length ds) * ps then READABLE else WAITING)"
  using stream_session [OF assms, of s] by (auto simp: Let_def streaming_def)

text \<open>Six packets of two bytes in a buffer for four of them.\<close>

lemma six_packets_slots:
  "keep (unat (9 div 2 :: u64)) (zip (gap_ids (Suc (Suc (Suc (Suc (Suc (Suc 0)))))) 10 2)
     (map Some [[1, 2], [3, 4], [5, 6], [7, 8], [9, 10], [11, 12 :: byte]]))
   = [(14, Some [5, 6]), (16, Some [7, 8]), (18, Some [9, 10]), (20, Some [11, 12])]"
  by (simp add: keep_def lastn_def)

lemma sample_stream:
  "buf_inv (buffer_init 9 0 0)" "buf_state (buffer_init 9 0 0) = NO_SESSION"
  "0 < length [1, 2 :: byte]" "length [1, 2 :: byte] < 2 ^ 63"
  "length [1, 2 :: byte] dvd unat (10 :: u64)"
  "unat (10 :: u64) + length [[3, 4], [5, 6], [7, 8], [9, 10], [11, 12 :: byte]] * length [1, 2 :: byte] < 2 ^ 64"
  "of_nat (length [1, 2 :: byte]) = (2 :: u64)" "max_size (buffer_init 9 0 0) = 9"
  by (simp_all add: buf_inv_init) (simp_all add: buffer_init_def flip: numeral_2_eq_2)

lemma stream_is_buffered_example:
  "\<exists>b'. write_each (stream_packets 7 10 2 [[1, 2], [3, 4], [5, 6], [7, 8], [9, 10], [11, 12]])
          (buffer_init 9 0 0) = Some b'
    \<and> slots b' = [(14, Some [5, 6]), (16, Some [7, 8]), (18, Some [9, 10]), (20, Some [11, 12])]
    \<and> buf_state b' = READABLE"
  using stream_is_buffered [OF sample_stream(1-6), of 7] six_packets_slots
  unfolding Let_def sample_stream(7,8) by (simp del: stream_packets.simps) blast

text \<open>What was written is played back: when such a stream has made the buffer readable, reading
  returns the payloads the buffer kept, in the order they were sent and each once, and the next read
  raises the exception that makes the receiver restart the session.\<close>
lemma stream_is_played_back:
  assumes "buf_inv b" "buf_state b = NO_SESSION"
    and "0 < length d" "length d < 2 ^ 63" "length d dvd unat i"
    and "unat i + length ds * length d < 2 ^ 64"
    and "write_each (stream_packets s i (of_nat (length d)) (d # ds)) b = Some b'"
    and "buf_state b' = READABLE"
  shows "let vs = keep (unat (max_size b div of_nat (length d))) (d # ds) in
    \<exists>b''. read_each (length vs) b' = (vs, b'') \<and> buffer_try_read b'' = (Inl not_readable, b'')"
proof -
  let ?vs = "keep (unat (max_size b div of_nat (length d))) (d # ds)"
  have slots: "slots b' = keep (unat (max_size b div of_nat (length d)))
        (zip (gap_ids (Suc (length ds)) i (of_nat (length d))) (map Some (d # ds)))" "buf_inv b'"
    using stream_session [OF assms(1-6), of s] assms(7)
    by (auto simp: streaming_def simp del: stream_packets.simps write_each.simps gap_ids.simps list.map zip_Cons_Cons)
  have "map snd (slots b') = msg_vals b'"
    using slots(2) by (simp add: slots_def buf_inv_def)
  then have "msg_vals b' = map Some ?vs"
    using slots(1) by (simp only: keep_map [symmetric] map_snd_zip length_map length_gap_ids length_Cons)
  then obtain b'' where "read_each (length ?vs) b' = (?vs, b'')" "msg_vals b'' = []" "buf_state b'' = READABLE"
    using read_all [OF assms(8)] by blast
  then show ?thesis
    unfolding Let_def by (intro exI [of _ b'']) (simp add: buffer_try_read_def optional_read_def)
qed

lemma six_packets_kept:
  "keep (unat (9 div of_nat (length [1, 2 :: byte]) :: u64))
     [[1, 2], [3, 4], [5, 6], [7, 8], [9, 10], [11, 12 :: byte]] = [[5, 6], [7, 8], [9, 10], [11, 12]]"
  by (simp add: keep_def lastn_def)

lemma stream_is_played_back_example:
  "\<exists>b' b''. write_each (stream_packets 7 10 2 [[1, 2], [3, 4], [5, 6], [7, 8], [9, 10], [11, 12]])
          (buffer_init 9 0 0) = Some b'
    \<and> read_each 4 b' = ([[5, 6], [7, 8], [9, 10], [11, 12]], b'')
    \<and> buffer_try_read b'' = (Inl not_readable, b'')"
proof -
  obtain b' where b': "write_each (stream_packets 7 10 (of_nat (length [1, 2 :: byte]))
        ([1, 2] # [[3, 4], [5, 6], [7, 8], [9, 10], [11, 12]])) (buffer_init 9 0 0) = Some b'"
      "buf_state b' = READABLE"
    using stream_session [OF sample_stream(1-6), of 7] unfolding sample_stream(7,8)
    by (simp del: stream_packets.simps) blast
  show ?thesis
    using stream_is_played_back [OF sample_stream(1-6) b'] b'(1)
    unfolding Let_def sample_stream(8) six_packets_kept
    by (simp del: stream_packets.simps read_each.simps add: eval_nat_numeral)
qed

end
