(* ===== verification/Buffer_Run.thy ===== *)
theory Buffer_Run
  imports Buffer_Stream
begin

text \<open>
  The playback buffer under any sequence of the calls that the receiver's threads make (each call is
  one step): what holds in every reachable state, how much it can hold, and what the query
  \<open>has_space_for\<close> says.
\<close>

subsection \<open>Calls\<close>

datatype buffer_call = Write data_msg | Read | Reset

text \<open>A call that ends with an exception leaves the state it reached; a call with undefined behaviour
  has no step.\<close>

inductive buffer_step :: "buffer \<Rightarrow> buffer \<Rightarrow> bool" where
  step_write: "payload_exists m \<Longrightarrow> write_get_missed m b = Some (r, b') \<Longrightarrow>
     (\<And>u. r \<noteq> Inl (Undefined u)) \<Longrightarrow> buffer_step b b'"
| step_read: "buffer_try_read b = (r, b') \<Longrightarrow> buffer_step b b'"
| step_reset: "buffer_step b (buffer_reset b)"

definition buffer_start :: "buffer \<Rightarrow> bool" where
  "buffer_start b \<longleftrightarrow> (\<exists>n e p. b = buffer_init n e p)"

interpretation buffer_calls: inductive_invariant buffer_start buffer_step buf_inv
proof unfold_locales
  fix b b' :: buffer
  show "buffer_start b \<Longrightarrow> buf_inv b" by (auto simp: buffer_start_def buf_inv_init)
  assume "buffer_step b b'" "buf_inv b"
  then show "buf_inv b'"
  proof cases
    case (step_write m r)
    with write_ends_or_inv [OF \<open>buf_inv b\<close> step_write(1)] show ?thesis by auto
  next
    case (step_read r)
    with buf_inv_optional_read [OF \<open>buf_inv b\<close>] show ?thesis by simp
  next
    case step_reset
    then show ?thesis by (simp add: buf_inv_reset)
  qed
qed

lemma reach_buffer_write:
  "reach buffer_start buffer_step b \<Longrightarrow> payload_exists m \<Longrightarrow> write_get_missed m b = Some (Inr r, b') \<Longrightarrow>
   reach buffer_start buffer_step b'"
  by (rule reach_step) (auto intro: step_write)

lemma write_each_reach:
  "reach buffer_start buffer_step b \<Longrightarrow> list_all payload_exists ms \<Longrightarrow> write_each ms b = Some b' \<Longrightarrow>
   reach buffer_start buffer_step b'"
proof (induction ms arbitrary: b)
  case Nil
  then show ?case by simp
next
  case (Cons m ms)
  then obtain b1 where "write_get_missed m b = Some (Inr [], b1)" "write_each ms b1 = Some b'"
    by (auto split: option.splits sum.splits list.splits)
  with Cons reach_buffer_write [of b m "[]" b1] show ?case by simp
qed

text \<open>The first packet of a session, in a buffer of nine bytes.\<close>

definition sample_first :: buffer where
  "sample_first =
     \<lparr>max_size = 9, max_elements = 4, buf_state = WAITING, max_msg_id = 10, byte_zero = 10,
      package_size = 2, msg_vals = [Some [1, 2]], msg_ids = [10]\<rparr>"

lemma sample_first_write:
  "write_get_missed (data_msg_full 10 7 [1, 2]) (buffer_init 9 0 0) = Some (Inr [], sample_first)"
  by (simp add: write_get_missed_def start_session_def buffer_init_def data_msg_full_def get_data_def
      get_id_def Let_def check_readable_def readable_from_def save_message_def save_new_message_def
      emplace_back_def collect_missed_def missed_loop_stop sample_first_def)

lemma sample_first_reach: "reach buffer_start buffer_step sample_first"
  by (rule reach_buffer_write [OF reach_start _ sample_first_write])
    (auto simp: buffer_start_def payload_exists_def data_msg_full_def)

subsection \<open>Properties\<close>



text \<open>C40: a packet that does not fit in the buffer at all makes it grow without bound: with payloads
  longer than \<open>BSIZE\<close> the room is computed as 0 packets, a length the deques never have when they
  are full, and every packet of an in-order session is kept.\<close>
theorem oversized_packets_are_all_kept:
  assumes "buf_inv b" "buf_state b = NO_SESSION"
    and "unat (max_size b) < length d" "length d < 2 ^ 63" "length d dvd unat i"
    and "unat i + length ds * length d < 2 ^ 64"
  shows "\<exists>b'. write_each (stream_packets s i (of_nat (length d)) (d # ds)) b = Some b'
    \<and> map snd (slots b') = map Some (d # ds)"
proof -
  have "unat (of_nat (length d) :: u64) = length d"
    using assms(4) by (intro unat_of_nat_small) simp
  then have "max_size b div of_nat (length d) = 0"
    using assms(3) by (simp add: word_unat_eq_iff unat_div_distrib)
  moreover have "0 < length d" using assms(3) by linarith
  ultimately show ?thesis
    using stream_session [OF assms(1,2) _ assms(4-6), of s]
    by (auto simp: keep_def map_snd_zip simp del: stream_packets.simps)
qed

theorem oversized_packets_are_all_kept_witness:
  "\<exists>b'. write_each (stream_packets 7 10 2 [[1, 2], [3, 4], [5, 6], [7, 8], [9, 10], [11, 12]])
          (buffer_init 1 0 0) = Some b'
    \<and> map snd (slots b') = map Some [[1, 2], [3, 4], [5, 6], [7, 8], [9, 10], [11, 12]]"
  using oversized_packets_are_all_kept [of "buffer_init 1 0 0", OF _ _ _ sample_stream(4-6), of 7]
  unfolding sample_stream(7)
  by (simp del: stream_packets.simps add: buf_inv_init) (simp del: stream_packets.simps add: buffer_init_def)

lemma has_space_slot:
  assumes "buf_inv b" "unat (package_size b) dvd unat i"
  shows "has_space_for i b =
    (if msg_ids b = [] then Inl (Undefined Empty_Container) else Inr (i \<in> set (msg_ids b)))"
proof (cases "msg_ids b = []")
  case True
  then show ?thesis by (simp add: has_space_for_def)
next
  case False
  then have b: "contiguous (package_size b) (msg_ids b)" "0 < unat (package_size b)" "buf_state b \<noteq> NO_SESSION"
    using assms(1) by (auto simp: inv_defs split: if_splits)
  have "hd (msg_ids b) \<le> j \<and> j \<le> last (msg_ids b)" if "j \<in> set (msg_ids b)" for j
  proof -
    from that obtain k where k: "k < length (msg_ids b)" "msg_ids b ! k = j"
      by (auto simp: in_set_conv_nth)
    have "k * unat (package_size b) \<le> (length (msg_ids b) - 1) * unat (package_size b)"
      using k(1) by (intro mult_le_mono1) simp
    then show ?thesis
      using contiguous_nth [OF b(1) k(1)] contiguous_last [OF b(1) False] k(2)
      by (simp add: word_le_nat_alt)
  qed
  moreover have "i \<in> set (msg_ids b)" if "hd (msg_ids b) \<le> i" "i \<le> last (msg_ids b)"
    using contiguous_position [OF b(1) False b(2) that assms(2)] nth_mem by metis
  ultimately show ?thesis
    using False b(3) by (auto simp: has_space_for_def Let_def)
qed

text \<open>For an identifier of the session's packets, \<open>has_space_for\<close> says whether the buffer has a
  slot with exactly that identifier, so that a request is dropped as soon as its slot has been played
  or pushed out; but on an empty buffer (before the session, after a reset, or when all has been
  played) it reads the ends of an empty deque, whatever it is asked.\<close>
lemma has_space_iff_slot:
  assumes "buf_inv b" "unat (package_size b) dvd unat i"
  shows "has_space_for i b =
    (if msg_ids b = [] then Inl (Undefined Empty_Container) else Inr (i \<in> set (msg_ids b)))"
  by (rule has_space_slot [OF assms])

lemma has_space_iff_slot_example:
  "has_space_for 6 sample_buffer = Inr True \<and> has_space_for 10 sample_buffer = Inr False
   \<and> has_space_for 6 (buffer_reset sample_buffer) = Inl (Undefined Empty_Container)"
proof -
  have even: "unat (package_size sample_buffer) dvd unat (6 :: u64)"
      "unat (package_size sample_buffer) dvd unat (10 :: u64)"
      "unat (package_size (buffer_reset sample_buffer)) dvd unat (6 :: u64)"
    by (simp_all add: sample_buffer_fields) (simp add: buffer_reset_def sample_buffer_def)
  show ?thesis
    using has_space_iff_slot [OF sample_buffer_ok(1) even(1)] has_space_iff_slot [OF sample_buffer_ok(1) even(2)]
      has_space_iff_slot [OF buf_inv_reset even(3)]
    by (simp add: sample_buffer_fields) (simp add: buffer_reset_def)
qed

end
