(* ===== verification/Buffer_Order.thy ===== *)
theory Buffer_Order
  imports Buffer_Run
begin

text \<open>
  The order in which the playback buffer gives packets back, over any sequence of writes, reads and
  resets: what a write does to the slots, and the history of reads since the buffer was last empty.
\<close>

subsection \<open>What a write does to the slots\<close>

inductive slots_written ::
  "buffer \<Rightarrow> msg_id_t \<Rightarrow> msg_t \<Rightarrow> (msg_id_t \<times> msg_t option) list \<Rightarrow> bool" for b i d where
  not_written: "slots_written b i d (slots b)"
| first_written: "msg_ids b = [] \<Longrightarrow> slots_written b i d [(i, Some d)]"
| new_written: "msg_ids b \<noteq> [] \<Longrightarrow> contiguous (package_size b) (msg_ids b @ gap @ [i]) \<Longrightarrow> 0 < unat (package_size b) \<Longrightarrow>
    slots_written b i d (keep n (slots b @ map (\<lambda>j. (j, None)) gap @ [(i, Some d)]))"
| late_written: "k < length (msg_ids b) \<Longrightarrow> msg_ids b ! k = i \<Longrightarrow> slots_written b i d ((slots b)[k := (i, Some d)])"

lemma slots_emplace_first: "msg_ids b = [] \<Longrightarrow> length (msg_vals b) = length (msg_ids b) \<Longrightarrow>
    slots (emplace_back v i b) = [(i, v)]"
  by (simp add: slots_def emplace_back_def)

lemma save_message_slots:
  assumes b: "buf_inv b" "buf_state b \<noteq> NO_SESSION" and d: "get_data m = Inr d"
    and save: "save_message m b = Some (r, b')"
  shows "slots_written b (get_id m) d (slots b')"
proof -
  have len: "length (msg_vals b) = length (msg_ids b)" "0 < unat (package_size b)"
    using b by (auto simp: inv_defs)
  consider "r \<noteq> Inr ()" "b' = b"
    | "get_id m mod package_size b = 0" "msg_ids b = []"
    | "get_id m mod package_size b = 0" "msg_ids b \<noteq> []" "last (msg_ids b) < get_id m"
    | "get_id m mod package_size b = 0" "msg_ids b \<noteq> []" "\<not> last (msg_ids b) < get_id m"
        "hd (msg_ids b) \<le> get_id m" "get_id m \<le> last (msg_ids b)"
    | "b' = b"
    using save by (fastforce simp: save_message_def split: if_splits)
  then show ?thesis
  proof cases
    case 2
    with save d len(2) have "b' = emplace_back (Some d) (get_id m) b"
      by (auto simp: save_message_def save_new_message_def split: if_splits)
    with 2 len(1) show ?thesis by (simp add: slots_emplace_first first_written)
  next
    case 3
    note new = save_new_ok [OF b 3(2,3,1) d]
    have line: "contiguous (package_size b) (msg_ids b @ new_slots (get_id m) b @ [get_id m])"
      by (rule reserve_for(2) [OF b 3(2,3,1)])
    have "slots b' = keep (room b) (slots b @ map (\<lambda>j. (j, None)) (new_slots (get_id m) b) @ [(get_id m, Some d)])"
      using save 3 len new slots_keep [OF len(1) [symmetric], of b' "room b" "new_slots (get_id m) b" "get_id m" "Some d"]
      by (auto simp: save_message_def slots_def split: if_splits)
    then show ?thesis using new_written [OF 3(2) line len(2)] by simp
  next
    case 4
    obtain k b2 where k: "save_missed_message m b = (Inr (), b2)" "k < length (msg_ids b)"
        "msg_ids b ! k = get_id m" "slots b2 = (slots b)[k := (get_id m, Some d)]"
      using save_missed_ok [OF b 4(2,4,5,1) d] by blast
    with save 4 len(2) have "b' = b2" by (auto simp: save_message_def split: if_splits)
    with k show ?thesis using late_written [of k b "get_id m" d] by simp
  qed (auto intro: not_written)
qed

lemma start_session_slots:
  "start_session m b = (r, b') \<Longrightarrow> slots b' = slots b \<and> msg_ids b' = msg_ids b"
  by (auto simp: start_session_def slots_def Let_def split: if_splits sum.splits)

lemma slots_written_cong:
  assumes "slots_written b' i d xs"
    and "slots b' = slots b" "msg_ids b' = msg_ids b" "msg_ids b = [] \<or> package_size b' = package_size b"
  shows "slots_written b i d xs"
  using assms(1)
proof cases
  case (new_written gap n)
  with assms(2-4) slots_written.new_written [of b gap i d n] show ?thesis by simp
qed (use assms(2,3) in \<open>simp_all add: slots_written.intros\<close>)

lemma write_slots:
  assumes b: "buf_inv b" "payload_exists m" and d: "dm_data m = Some d"
    and wr: "write_get_missed m b = Some (r, b')"
  shows "slots_written b (dm_id m) d (slots b')"
proof (cases "start_session m b")
  case (Pair r0 b0)
  note start = start_session_inv [OF b, unfolded Pair, simplified] start_session_slots [OF Pair]
  show ?thesis
  proof (cases r0)
    case (Inl e)
    with Pair wr start(3) not_written [of b "dm_id m" d] show ?thesis by (simp add: write_get_missed_def)
  next
    case (Inr u)
    let ?b1 = "check_readable m b0"
    have b1: "buf_inv ?b1" "buf_state ?b1 \<noteq> NO_SESSION"
      using start Inr by (simp_all add: buf_inv_check_readable) (simp add: check_readable_def)
    obtain r2 b2 where save: "save_message m ?b1 = Some (r2, b2)" using save_message_inv [OF b1] by blast
    have "slots_written ?b1 (dm_id m) d (slots b2)"
      using save_message_slots [OF b1 _ save] d by (simp add: get_data_def get_id_def)
    moreover have "msg_ids b = [] \<or> package_size b0 = package_size b"
    proof (cases "buf_state b = NO_SESSION")
      case True
      with b(1) show ?thesis by (simp add: buf_inv_def)
    qed (use Pair in \<open>simp add: start_session_def\<close>)
    ultimately have "slots_written b (dm_id m) d (slots b2)"
      using slots_written_cong [of ?b1 "dm_id m" d "slots b2" b] start(3) by simp
    moreover have "slots b' = slots b2"
    proof (cases r2)
      case (Inr v)
      with wr Pair \<open>r0 = Inr u\<close> save obtain x :: "msg_id_t list result"
        where "b' = (case x of Inl _ \<Rightarrow> b2 | Inr _ \<Rightarrow> b2\<lparr>max_msg_id := get_id m\<rparr>)"
        by (auto simp: write_get_missed_def)
      then show ?thesis by (cases x) simp_all
    qed (use wr Pair Inr save in \<open>simp add: write_get_missed_def\<close>)
    ultimately show ?thesis by simp
  qed
qed

subsection \<open>The history of reads\<close>

text \<open>A buffer with what has been read from it since it was last empty, and what has been written to it
  since the last reset, each with the packet's number.\<close>

record playback =
  pb_buffer :: buffer
  pb_read :: "(msg_id_t \<times> msg_t) list"
  pb_written :: "(msg_id_t \<times> msg_t) list"

inductive playback_step :: "playback \<Rightarrow> playback \<Rightarrow> bool" where
  pb_write: "dm_data m = Some d \<Longrightarrow> payload_exists m \<Longrightarrow> write_get_missed m (pb_buffer p) = Some (r, b) \<Longrightarrow>
    playback_step p (p\<lparr>pb_buffer := b,
      pb_read := (if msg_ids (pb_buffer p) = [] then [] else pb_read p),
      pb_written := pb_written p @ [(dm_id m, d)]\<rparr>)"
| pb_read: "buffer_try_read (pb_buffer p) = (Inr (Some d), b) \<Longrightarrow>
    playback_step p (p\<lparr>pb_buffer := b, pb_read := pb_read p @ [(hd (msg_ids (pb_buffer p)), d)]\<rparr>)"
| pb_no_read: "buffer_try_read (pb_buffer p) = (r, b) \<Longrightarrow> (\<And>d. r \<noteq> Inr (Some d)) \<Longrightarrow>
    playback_step p (p\<lparr>pb_buffer := b\<rparr>)"
| pb_reset: "playback_step p (p\<lparr>pb_buffer := buffer_reset (pb_buffer p), pb_read := [], pb_written := []\<rparr>)"

definition playback_start :: "playback \<Rightarrow> bool" where
  "playback_start p \<longleftrightarrow> buffer_start (pb_buffer p) \<and> pb_read p = [] \<and> pb_written p = []"

definition in_order :: "playback \<Rightarrow> bool" where
  "in_order p \<longleftrightarrow>
     buf_inv (pb_buffer p)
     \<and> sorted_wrt (<) (map fst (pb_read p) @ msg_ids (pb_buffer p))
     \<and> set (pb_read p) \<subseteq> set (pb_written p)
     \<and> (\<forall>i d. (i, Some d) \<in> set (slots (pb_buffer p)) \<longrightarrow> (i, d) \<in> set (pb_written p))"

lemma keep_subset: "set (keep n xs) \<subseteq> set xs"
  by (metis keep_suffix set_drop_subset)

lemma sorted_keep_append:
  assumes "sorted_wrt (<) (xs @ ys @ zs)" "ys \<noteq> []"
  shows "sorted_wrt (<) (xs @ keep n (ys @ zs) :: 'a::linorder list)"
proof -
  have "sorted_wrt (<) (xs @ (ys @ zs))" using assms(1) by simp
  moreover obtain k where "keep n (ys @ zs) = drop k (ys @ zs)" using keep_suffix by blast
  ultimately show ?thesis
    by (auto simp: sorted_wrt_append sorted_wrt_drop simp del: drop_append dest: in_set_dropD)
qed

text \<open>New identifiers come after all that have been read when they come after the slots.\<close>

lemma ascending_extend:
  assumes "sorted_wrt (<) (rs @ ids)" "sorted_wrt (<) (ids @ new)" "ids \<noteq> []"
  shows "sorted_wrt (<) (rs @ ids @ new :: 'a::linorder list)"
proof -
  obtain x where "x \<in> set ids" using assms(3) by (cases ids) auto
  moreover have "r < y" if "r \<in> set rs" "y \<in> set new" for r y
    using that calculation assms(1,2) by (auto simp: sorted_wrt_append intro: less_trans)
  ultimately show ?thesis using assms by (auto simp: sorted_wrt_append)
qed

lemma write_in_order:
  assumes p: "in_order p" and m: "dm_data m = Some d" "payload_exists m"
    and wr: "write_get_missed m (pb_buffer p) = Some (r, b)"
  shows "in_order (p\<lparr>pb_buffer := b,
      pb_read := (if msg_ids (pb_buffer p) = [] then [] else pb_read p),
      pb_written := pb_written p @ [(dm_id m, d)]\<rparr>)"
proof -
  let ?b = "pb_buffer p"
  have inv: "buf_inv ?b" "buf_inv b"
    using p wr write_ends_or_inv [OF _ m(2), of ?b] by (auto simp: in_order_def)
  then have ids: "map fst (slots b) = msg_ids b" "map fst (slots ?b) = msg_ids ?b"
    by (simp_all add: map_fst_slots buf_inv_def)
  have sorted: "sorted_wrt (<) (map fst (pb_read p) @ msg_ids ?b)" using p by (simp add: in_order_def)
  from write_slots [OF inv(1) m(2,1) wr] show ?thesis
  proof cases
    case not_written
    then have "msg_ids b = msg_ids ?b" using ids by metis
    with not_written p inv(2) show ?thesis by (auto simp: in_order_def)
  next
    case first_written
    then have "msg_ids b = [dm_id m]" using ids(1) by simp
    with first_written p inv(2) show ?thesis by (auto simp: in_order_def)
  next
    case (new_written gap n)
    let ?new = "gap @ [dm_id m]"
    have "msg_ids b = keep n (msg_ids ?b @ ?new)"
      unfolding ids(1) [symmetric] new_written(1) keep_map [symmetric] by (simp add: ids(2) comp_def)
    moreover have "sorted_wrt (<) (msg_ids ?b @ ?new)"
      by (rule contiguous_ascending) (use new_written in auto)
    ultimately have "sorted_wrt (<) (map fst (pb_read p) @ msg_ids b)"
      using sorted_keep_append [OF ascending_extend [OF sorted]] new_written(2) by metis
    moreover have "(i, e) \<in> set (pb_written p @ [(dm_id m, d)])" if "(i, Some e) \<in> set (slots b)" for i e
      using that p keep_subset [of n] unfolding new_written(1) in_order_def by fastforce
    ultimately show ?thesis using p inv(2) new_written(2) by (auto simp: in_order_def)
  next
    case (late_written k)
    have "msg_ids b = msg_ids ?b"
      unfolding ids [symmetric] late_written(1) using late_written(2,3) ids(2)
      by (simp add: map_update) (metis list_update_id)
    moreover have "(i, e) \<in> set (pb_written p @ [(dm_id m, d)])" if "(i, Some e) \<in> set (slots b)" for i e
      using that p set_update_subset_insert [of "slots ?b" k] unfolding late_written(1) in_order_def by fastforce
    moreover have "msg_ids ?b \<noteq> []" using late_written(2) by auto
    ultimately show ?thesis using p inv(2) by (auto simp: in_order_def)
  qed
qed

lemma read_in_order:
  assumes p: "in_order p" and rd: "buffer_try_read (pb_buffer p) = (Inr (Some d), b)"
  shows "in_order (p\<lparr>pb_buffer := b, pb_read := pb_read p @ [(hd (msg_ids (pb_buffer p)), d)]\<rparr>)"
proof -
  let ?b = "pb_buffer p"
  have inv: "buf_inv ?b" "buf_inv b"
    using p rd buf_inv_optional_read [of ?b] by (auto simp: in_order_def)
  from rd obtain vs where vs: "msg_vals ?b = Some d # vs" "b = pop_front ?b"
    by (auto simp: buffer_try_read_def optional_read_def split: if_splits list.splits)
  with inv(1) obtain i rest where ids: "msg_ids ?b = i # rest" by (cases "msg_ids ?b") (auto simp: buf_inv_def)
  have "slots ?b = (i, Some d) # slots b" "msg_ids b = rest"
    by (simp_all add: slots_def vs ids pop_front_def)
  with p inv(2) ids show ?thesis by (auto simp: in_order_def)
qed

interpretation playback_runs: inductive_invariant playback_start playback_step in_order
proof unfold_locales
  fix p p' :: playback
  show "in_order p" if "playback_start p"
    using that by (auto simp: playback_start_def in_order_def buffer_start_def buf_inv_init)
      (simp_all add: buffer_init_def slots_def)
  show "in_order p'" if "playback_step p p'" "in_order p"
    using that
  proof cases
    case (pb_write m d r b)
    show ?thesis unfolding pb_write(1) by (rule write_in_order [OF that(2) pb_write(2-4)])
  next
    case (pb_read d b)
    show ?thesis unfolding pb_read(1) by (rule read_in_order [OF that(2) pb_read(2)])
  next
    case (pb_no_read r b)
    then have "b = pb_buffer p"
      by (auto simp: buffer_try_read_def optional_read_def split: if_splits list.splits)
    with pb_no_read that(2) show ?thesis by (simp add: in_order_def)
  next
    case pb_reset
    with that(2) show ?thesis by (auto simp: in_order_def buf_inv_reset) (simp_all add: buffer_reset_def slots_def)
  qed
qed

subsection \<open>Properties\<close>

text \<open>Over any sequence of writes, reads and resets, what has been read since the buffer was last
  empty is in strictly ascending order of the packets' numbers, so that no packet is played twice and
  none after a newer one, and each payload is one that was written under this number since the last
  reset; what is still in the buffer comes after it.\<close>
lemma played_in_order:
  assumes "reach playback_start playback_step p"
  shows "sorted_wrt (<) (map fst (pb_read p) @ map fst (slots (pb_buffer p)))
    \<and> set (pb_read p) \<subseteq> set (pb_written p)"
  using playback_runs.reach_good [OF assms] by (simp add: in_order_def map_fst_slots buf_inv_def)

text \<open>A buffer for one packet of two bytes: the second packet pushes the first one out.\<close>

definition one_packet :: "msg_id_t \<Rightarrow> buffer_state \<Rightarrow> msg_t \<Rightarrow> buffer" where
  "one_packet i st d =
     \<lparr>max_size = 2, max_elements = 1, buf_state = st, max_msg_id = i, byte_zero = 10, package_size = 2,
      msg_vals = [Some d], msg_ids = [i]\<rparr>"

lemma one_packet_writes:
  "write_get_missed (data_msg_full 10 7 [1, 2]) (buffer_init 2 0 0) = Some (Inr [], one_packet 10 WAITING [1, 2])"
  "write_get_missed (data_msg_full 12 7 [3, 4]) (one_packet 10 WAITING [1, 2]) = Some (Inr [], one_packet 12 READABLE [3, 4])"
  by (simp_all add: write_get_missed_def start_session_def buffer_init_def data_msg_full_def get_data_def
      get_id_def Let_def check_readable_def readable_from_def save_message_def save_new_message_def
      emplace_back_def collect_missed_def missed_loop_stop one_packet_def reserve_missed.simps make_room_def pop_front_def)

lemma played_in_order_example:
  "\<exists>p. reach playback_start playback_step p \<and> pb_read p = [(12, [3, 4])]
    \<and> pb_written p = [(10, [1, 2]), (12, [3, 4])] \<and> set (pb_read p) \<subseteq> set (pb_written p)"
proof -
  let ?p = "\<lambda>b out wr. \<lparr>pb_buffer = b, pb_read = out, pb_written = wr\<rparr>"
  have m: "payload_exists (data_msg_full i 7 [x, y])" "dm_data (data_msg_full i 7 [x, y]) = Some [x, y]"
      "dm_id (data_msg_full i 7 [x, y]) = i" for i x y
    by (simp_all add: payload_exists_def data_msg_full_def)
  let ?init = "?p (buffer_init 2 0 0) [] []"
  let ?first = "?p (one_packet 10 WAITING [1, 2]) [] [(10, [1, 2])]"
  let ?second = "?p (one_packet 12 READABLE [3, 4]) [] [(10, [1, 2]), (12, [3, 4])]"
  let ?played = "?p (pop_front (one_packet 12 READABLE [3, 4])) [(12, [3, 4])] [(10, [1, 2]), (12, [3, 4])]"
  have "reach playback_start playback_step ?init"
    by (rule reach_start) (auto simp: playback_start_def buffer_start_def)
  moreover have "playback_step ?init ?first"
    using pb_write [OF m(2,1), where p = ?init] one_packet_writes(1) m(3) by (simp add: buffer_init_def)
  ultimately have "reach playback_start playback_step ?first" by (rule reach_step)
  moreover have "playback_step ?first ?second"
    using pb_write [OF m(2,1), where p = ?first] one_packet_writes(2) m(3) by (simp add: one_packet_def)
  ultimately have "reach playback_start playback_step ?second" by (rule reach_step)
  moreover have "playback_step ?second ?played"
    using pb_read [where p = ?second] by (simp add: one_packet_def buffer_try_read_def optional_read_def)
  ultimately have "reach playback_start playback_step ?played" by (rule reach_step)
  from this played_in_order [OF this] show ?thesis by (intro exI [of _ ?played]) simp
qed

text \<open>C32: but a packet is played again when it is received again just after it has emptied the buffer:
  a write to an empty buffer does not look at what has been played, so a duplicate of the last packet
  (or any older packet of the session) starts the buffer anew and is the next one read.\<close>
theorem played_twice_when_empty:
  assumes "buf_inv b" "buf_state b = READABLE" "slots b = [(i, Some d)]"
    and "dm_id m = j" "dm_data m = Some e" "j mod package_size b = 0" "j \<le> i"
  shows "\<exists>b1 b2 b3. buffer_try_read b = (Inr (Some d), b1) \<and> write_get_missed m b1 = Some (Inr [], b2)
    \<and> buffer_try_read b2 = (Inr (Some e), b3)"
proof -
  have len: "length (msg_vals b) = length (msg_ids b)" using assms(1) by (simp add: buf_inv_def)
  with map_fst_slots [of b] assms(3) have "msg_ids b = [i]" by simp
  moreover from this len assms(3) have "msg_vals b = [Some d]" by (cases "msg_vals b") (auto simp: slots_def)
  moreover from assms(1,2) have "package_size b \<noteq> 0" by (auto simp: inv_defs)
  ultimately have ids: "msg_ids b = [i]" "msg_vals b = [Some d]" "package_size b \<noteq> 0" by blast+
  let ?b1 = "b\<lparr>msg_ids := [], msg_vals := []\<rparr>" and ?b2 = "b\<lparr>msg_ids := [j], msg_vals := [Some e]\<rparr>"
  have m: "get_id m = j" "get_data m = Inr e" using assms(4,5) by (simp_all add: get_id_def get_data_def)
  have "buffer_try_read b = (Inr (Some d), ?b1)"
    using assms(2) ids by (simp add: buffer_try_read_def optional_read_def pop_front_def)
  moreover have none: "collect_missed m b' = Some (Inr [])" if "msg_ids b' = [j]" for b'
    by (rule collect_missed_none) (simp_all add: m(1) that)
  have "write_get_missed m ?b1 = Some (Inr [], ?b2\<lparr>max_msg_id := j\<rparr>)"
    using assms(2,6) ids(3) m
    by (simp add: write_get_missed_def start_session_def check_readable_def save_message_def
        save_new_message_def emplace_back_def none)
  moreover have "buffer_try_read (?b2\<lparr>max_msg_id := j\<rparr>) = (Inr (Some e), pop_front (?b2\<lparr>max_msg_id := j\<rparr>))"
    using assms(2) by (simp add: buffer_try_read_def optional_read_def)
  ultimately show ?thesis by blast
qed

theorem played_twice_when_empty_witness:
  "\<exists>b1 b2 b3. buffer_try_read (one_packet 12 READABLE [3, 4]) = (Inr (Some [3, 4]), b1)
    \<and> write_get_missed (data_msg_full 12 7 [3, 4]) b1 = Some (Inr [], b2)
    \<and> buffer_try_read b2 = (Inr (Some [3, 4]), b3)"
proof -
  have "buf_inv (one_packet 12 READABLE [3, 4])" by (simp add: one_packet_def inv_defs)
  then show ?thesis
    by (rule played_twice_when_empty [where i = 12 and j = 12])
      (simp_all add: one_packet_def slots_def data_msg_full_def)
qed

end
