(* ===== verification/Rexmit_Manager.thy ===== *)
theory Rexmit_Manager
  imports Std_Set
begin

text \<open>
  \<open>src/receiver/rexmit_manager.hpp\<close>: the set of identifiers to ask for again, each with the time
  of its next request. A point of time is a number of nanoseconds of the system clock, taken as
  unbounded; every call takes the value that \<open>system_clock::now()\<close> returns in it.
\<close>

type_synonym time_point = int

record rexmit_id =
  rid :: msg_id_t
  scheduled_update :: time_point

record rexmit_manager =
  rexmit_ids :: "rexmit_id list"
  last_update :: time_point
  rtime :: int

definition mk_rexmit_id :: "msg_id_t \<Rightarrow> time_point \<Rightarrow> rexmit_id" where
  "mk_rexmit_id i t = \<lparr>rid = i, scheduled_update = t\<rparr>"

lemma mk_rexmit_id_fields [simp]:
  "rid (mk_rexmit_id i t) = i" "scheduled_update (mk_rexmit_id i t) = t"
  by (simp_all add: mk_rexmit_id_def)

text \<open>The constructor's argument is a number of seconds.\<close>

definition rexmit_init :: "nat \<Rightarrow> time_point \<Rightarrow> rexmit_manager" where
  "rexmit_init rtime_seconds now =
     \<lparr>rexmit_ids = [], last_update = now, rtime = int rtime_seconds * 1000000000\<rparr>"

subsection \<open>Operations\<close>

definition append_ids :: "time_point \<Rightarrow> msg_id_t list \<Rightarrow> rexmit_manager \<Rightarrow> rexmit_manager" where
  "append_ids now new_ids r =
     (let next_update = now + rtime r
      in r\<lparr>rexmit_ids := fold (\<lambda>i. emplace rid (mk_rexmit_id i next_update)) new_ids (rexmit_ids r)\<rparr>)"

text \<open>The loop over the set: the iterator moves behind a due element before that element is erased
  and put back with its next time.\<close>

function filter_loop ::
  "time_point \<Rightarrow> time_point \<Rightarrow> rexmit_id list \<Rightarrow> msg_id_t iter \<Rightarrow> msg_id_t list
   \<Rightarrow> (rexmit_id list \<times> msg_id_t list) result" where
  "filter_loop this_update next_update ids End ids_to_update = Inr (ids, ids_to_update)"
| "filter_loop this_update next_update ids Dangling ids_to_update = Inl (Undefined Invalid_Iterator)"
| "filter_loop this_update next_update ids (At k) ids_to_update =
     (case lookup rid ids k of
        None \<Rightarrow> Inl (Undefined Invalid_Iterator)
      | Some x \<Rightarrow>
          if this_update < scheduled_update x
          then filter_loop this_update next_update ids (behind rid ids k) ids_to_update
          else filter_loop this_update next_update
                 (emplace rid (mk_rexmit_id k next_update) (erase rid k ids)) (behind rid ids k)
                 (emplace id k ids_to_update))"
  by pat_completeness auto

termination filter_loop
proof (relation "measure (\<lambda>(_, _, ids, it, _). left rid ids it)", goal_cases)
  case (3 now t ids k acc x)
  have "rid ` set (emplace rid (mk_rexmit_id k t) (erase rid k ids)) \<subseteq> insert k (rid ` set ids)"
    using set_emplace [of rid "mk_rexmit_id k t" "erase rid k ids"] set_erase [of rid k ids] by fastforce
  from left_decreases [OF 3(1) this] show ?case by simp
next
  case (2 now t ids k acc x)
  from left_decreases [OF 2(1), of ids] show ?case by auto
qed simp

definition filter_get_ids ::
  "time_point \<Rightarrow> msg_id_t list \<Rightarrow> rexmit_manager \<Rightarrow> (msg_id_t list \<times> rexmit_manager) result" where
  "filter_get_ids now ids_to_forget r =
     (let kept = fold (erase rid) ids_to_forget (rexmit_ids r)
      in map_sum id (\<lambda>(ids, ids_to_update). (ids_to_update, r\<lparr>rexmit_ids := ids\<rparr>))
           (filter_loop now (now + rtime r) kept (begin_of rid kept) []))"

definition rexmit_reset :: "time_point \<Rightarrow> rexmit_manager \<Rightarrow> rexmit_manager" where
  "rexmit_reset now r = r\<lparr>rexmit_ids := [], last_update := now\<rparr>"

subsection \<open>The set as a map from identifiers to times\<close>

definition due_at :: "rexmit_manager \<Rightarrow> msg_id_t \<rightharpoonup> time_point" where
  "due_at r i = map_option scheduled_update (lookup rid (rexmit_ids r) i)"

definition rexmit_inv :: "rexmit_manager \<Rightarrow> bool" where [inv_defs]:
  "rexmit_inv r \<longleftrightarrow> ascending rid (rexmit_ids r)"

text \<open>What the loop computes, without the iterator.\<close>

definition reschedule :: "time_point \<Rightarrow> time_point \<Rightarrow> rexmit_id \<Rightarrow> rexmit_id" where
  "reschedule now t x = (if now < scheduled_update x then x else mk_rexmit_id (rid x) t)"

lemma rid_reschedule [simp]: "rid (reschedule now t x) = rid x"
  by (simp add: reschedule_def)

lemma ascending_replace:
  "key y = key x \<Longrightarrow> ascending key (xs @ x # ys) \<longleftrightarrow> ascending key (xs @ y # ys)"
  by (simp add: ascending_append)

lemma filter_loop_spec:
  assumes "ascending rid (before @ rest)" "ascending id acc"
    and "\<And>i x. i \<in> set acc \<Longrightarrow> x \<in> set rest \<Longrightarrow> i < rid x"
  shows "filter_loop now t (before @ rest) (begin_of rid rest) acc =
    Inr (before @ map (reschedule now t) rest,
         acc @ map rid (filter (\<lambda>x. scheduled_update x \<le> now) rest))"
  using assms
proof (induction rest arbitrary: before acc)
  case Nil
  then show ?case by (simp add: begin_of_def)
next
  case (Cons x rest)
  note asc = Cons.prems(1)
  have asc': "ascending rid ((before @ [y]) @ rest)" if "rid y = rid x" for y
    using asc ascending_replace [of rid y x before rest] that by simp
  note facts = lookup_split [OF asc] behind_split [OF asc] erase_split [OF asc]
  show ?case
  proof (cases "now < scheduled_update x")
    case True
    with Cons.IH [of "before @ [x]" acc] Cons.prems asc' facts show ?thesis
      by (simp add: begin_of_def [of rid "x # rest"] reschedule_def)
  next
    case False
    let ?y = "mk_rexmit_id (rid x) t"
    have "emplace id (rid x) acc = acc @ [rid x]"
      using Cons.prems(3) by (intro emplace_last) simp
    moreover have acc: "ascending id (acc @ [rid x])"
      unfolding ascending_append using Cons.prems(3) by (simp add: Cons.prems(2))
    moreover have "i < rid y" if "i \<in> set (acc @ [rid x])" "y \<in> set rest" for i y
      using that asc Cons.prems(3) by (auto simp: ascending_append)
    moreover have "emplace rid ?y (before @ rest) = (before @ [?y]) @ rest"
      using asc' [of ?y] by (simp add: emplace_split)
    ultimately show ?thesis
      using False Cons.IH [OF asc' acc, of ?y] facts
      by (simp add: begin_of_def [of rid "x # rest"] reschedule_def)
  qed
qed

lemma lookup_map_same_key:
  "(\<And>x. key (f x) = key x) \<Longrightarrow> lookup key (map f xs) k = map_option f (lookup key xs k)"
  by (induction xs) auto

lemma ascending_map_same_key:
  "(\<And>x. key (f x) = key x) \<Longrightarrow> ascending key (map f xs) = ascending key xs"
  by (simp add: ascending_def sorted_wrt_map)

lemma lookup_scheduled_filter:
  "ascending key xs \<Longrightarrow>
   i \<in> key ` {x \<in> set xs. P x} \<longleftrightarrow> (\<exists>x. lookup key xs i = Some x \<and> P x)"
  by (auto simp: lookup_ascending)

text \<open>The whole call, over the set that is left after forgetting.\<close>

lemma filter_get_ids_spec:
  fixes forget :: "msg_id_t list"
  assumes "rexmit_inv r"
  defines "kept \<equiv> fold (erase rid) forget (rexmit_ids r)"
  shows "filter_get_ids now forget r =
      Inr (map rid (filter (\<lambda>x. scheduled_update x \<le> now) kept),
           r\<lparr>rexmit_ids := map (reschedule now (now + rtime r)) kept\<rparr>)"
    and "ascending rid kept"
    and "lookup rid kept i = (if i \<in> set forget then None else lookup rid (rexmit_ids r) i)"
proof -
  show kept: "ascending rid kept"
    using assms(1) by (simp add: kept_def rexmit_inv_def std_set.shape_removes)
  show "lookup rid kept i = (if i \<in> set forget then None else lookup rid (rexmit_ids r) i)"
    using assms(1) by (simp add: kept_def rexmit_inv_def std_set.find_removes)
  have "ascending id ([] :: msg_id_t list)" by simp
  from filter_loop_spec [OF _ this, of "[]" kept now "now + rtime r"] kept
  show "filter_get_ids now forget r =
      Inr (map rid (filter (\<lambda>x. scheduled_update x \<le> now) kept),
           r\<lparr>rexmit_ids := map (reschedule now (now + rtime r)) kept\<rparr>)"
    by (simp add: filter_get_ids_def kept_def Let_def)
qed

lemma append_ids_spec:
  assumes "rexmit_inv r"
  shows "rexmit_inv (append_ids now ids r)"
    and "due_at (append_ids now ids r) i =
      (case due_at r i of Some t \<Rightarrow> Some t | None \<Rightarrow> if i \<in> set ids then Some (now + rtime r) else None)"
    and "rtime (append_ids now ids r) = rtime r"
proof -
  let ?new = "map (\<lambda>i. mk_rexmit_id i (now + rtime r)) ids"
  have eq: "rexmit_ids (append_ids now ids r) = fold (emplace rid) ?new (rexmit_ids r)"
    by (simp add: append_ids_def Let_def fold_map comp_def)
  have find_new: "find (\<lambda>x. rid x = i) ?new =
      (if i \<in> set ids then Some (mk_rexmit_id i (now + rtime r)) else None)"
    by (induction ids) auto
  show "rexmit_inv (append_ids now ids r)"
    using assms std_set.shape_puts by (simp add: rexmit_inv_def eq)
  show "due_at (append_ids now ids r) i =
      (case due_at r i of Some t \<Rightarrow> Some t | None \<Rightarrow> if i \<in> set ids then Some (now + rtime r) else None)"
    using assms by (auto simp: due_at_def eq find_new std_set.find_puts rexmit_inv_def split: option.split)
  show "rtime (append_ids now ids r) = rtime r" by (simp add: append_ids_def)
qed

lemma filter_get_ids_due:
  assumes "rexmit_inv r"
  shows "\<exists>ids r'. filter_get_ids now forget r = Inr (ids, r') \<and> rexmit_inv r' \<and> rtime r' = rtime r
    \<and> ascending id ids
    \<and> (\<forall>i. i \<in> set ids \<longleftrightarrow> i \<notin> set forget \<and> (\<exists>t. due_at r i = Some t \<and> t \<le> now))
    \<and> due_at r' = (\<lambda>i. if i \<in> set forget then None else if i \<in> set ids then Some (now + rtime r) else due_at r i)"
proof -
  let ?kept = "fold (erase rid) forget (rexmit_ids r)"
  let ?ids = "map rid (filter (\<lambda>x. scheduled_update x \<le> now) ?kept)"
  note kept = filter_get_ids_spec [OF assms]
  have mem: "i \<in> set ?ids \<longleftrightarrow> i \<notin> set forget \<and> (\<exists>t. due_at r i = Some t \<and> t \<le> now)" for i
    using lookup_scheduled_filter [OF kept(2) [of forget], of i "\<lambda>x. scheduled_update x \<le> now"] kept(3)
    by (auto simp: due_at_def split: option.splits if_splits)
  have "sorted_wrt (\<lambda>x y. rid x < rid y) (filter (\<lambda>x. scheduled_update x \<le> now) ?kept)"
    using kept(2) unfolding ascending_def by (rule sorted_wrt_filter)
  then have "ascending id ?ids" by (simp only: ascending_map) (simp add: ascending_def)
  moreover have "rexmit_inv (r\<lparr>rexmit_ids := map (reschedule now (now + rtime r)) ?kept\<rparr>)"
    using kept(2) by (simp add: rexmit_inv_def ascending_map_same_key)
  moreover have "due_at (r\<lparr>rexmit_ids := map (reschedule now (now + rtime r)) ?kept\<rparr>) i =
      (if i \<in> set forget then None else if i \<in> set ?ids then Some (now + rtime r) else due_at r i)" for i
    unfolding mem
    by (cases "lookup rid (rexmit_ids r) i") (auto simp: due_at_def lookup_map_same_key kept(3) reschedule_def)
  ultimately show ?thesis
    using kept(1) [of now forget] mem
    by (intro exI [of _ ?ids] exI [of _ "r\<lparr>rexmit_ids := map (reschedule now (now + rtime r)) ?kept\<rparr>"] conjI)
      (simp_all add: fun_eq_iff)
qed

subsection \<open>Calls over time\<close>

text \<open>The manager with the clock's last value and the requests it has let through, newest first.\<close>

record rexmit_run =
  manager :: rexmit_manager
  clock :: time_point
  requests :: "(time_point \<times> msg_id_t) list"

inductive rexmit_step :: "rexmit_run \<Rightarrow> rexmit_run \<Rightarrow> bool" where
  step_append: "clock s \<le> now \<Longrightarrow>
     rexmit_step s (s\<lparr>manager := append_ids now ids (manager s), clock := now\<rparr>)"
| step_filter: "clock s \<le> now \<Longrightarrow> filter_get_ids now forget (manager s) = Inr (ids, r') \<Longrightarrow>
     rexmit_step s (s\<lparr>manager := r', clock := now, requests := map (Pair now) ids @ requests s\<rparr>)"
| step_rexmit_reset: "clock s \<le> now \<Longrightarrow>
     rexmit_step s (s\<lparr>manager := rexmit_reset now (manager s), clock := now\<rparr>)"

definition rexmit_start :: "nat \<Rightarrow> rexmit_run \<Rightarrow> bool" where
  "rexmit_start secs s \<longleftrightarrow> (\<exists>now. s = \<lparr>manager = rexmit_init secs now, clock = now, requests = []\<rparr>)"

text \<open>Two requests for one identifier are at least \<open>gap\<close> apart.\<close>

fun requests_apart :: "int \<Rightarrow> (time_point \<times> msg_id_t) list \<Rightarrow> bool" where
  "requests_apart gap [] = True"
| "requests_apart gap ((t, i) # rs) =
     (list_all (\<lambda>(t', i'). i' \<noteq> i \<or> t' + gap \<le> t) rs \<and> requests_apart gap rs)"

definition run_ok :: "nat \<Rightarrow> rexmit_run \<Rightarrow> bool" where
  "run_ok secs s \<longleftrightarrow>
     rexmit_inv (manager s) \<and> rtime (manager s) = int secs * 1000000000
     \<and> requests_apart (int secs * 1000000000) (requests s)
     \<and> (\<forall>(t, i) \<in> set (requests s). t \<le> clock s
          \<and> (\<forall>d. due_at (manager s) i = Some d \<longrightarrow> t + int secs * 1000000000 \<le> d))"

lemma requests_apart_batch:
  assumes "requests_apart gap rs" "distinct ids"
    and "\<And>t i. (t, i) \<in> set rs \<Longrightarrow> i \<in> set ids \<Longrightarrow> t + gap \<le> now"
  shows "requests_apart gap (map (Pair now) ids @ rs)"
  using assms(2,3)
proof (induction ids)
  case (Cons i ids)
  then show ?case by (fastforce simp: list_all_iff)
qed (simp add: assms(1))

lemma ascending_distinct: "ascending id xs \<Longrightarrow> distinct xs"
  by (induction xs) auto


interpretation rexmit_calls: inductive_invariant "rexmit_start secs" rexmit_step "run_ok secs"
  for secs :: nat
proof unfold_locales
  fix s s' :: rexmit_run
  show "rexmit_start secs s \<Longrightarrow> run_ok secs s"
    by (auto simp: rexmit_start_def run_ok_def rexmit_init_def rexmit_inv_def)
  assume "rexmit_step s s'" and ok: "run_ok secs s"
  then show "run_ok secs s'"
  proof cases
    case (step_append now ids)
    have inv: "rexmit_inv (manager s)" using ok by (simp add: run_ok_def)
    show ?thesis
      using ok step_append append_ids_spec [OF inv]
      by (fastforce simp: run_ok_def split: option.splits if_splits)
  next
    case (step_filter now forget ids r')
    have inv: "rexmit_inv (manager s)" using ok by (simp add: run_ok_def)
    have f: "rexmit_inv r'" "rtime r' = rtime (manager s)" "ascending id ids"
        "\<And>i. i \<in> set ids \<longleftrightarrow> i \<notin> set forget \<and> (\<exists>t. due_at (manager s) i = Some t \<and> t \<le> now)"
        "due_at r' = (\<lambda>i. if i \<in> set forget then None else if i \<in> set ids then Some (now + rtime (manager s))
           else due_at (manager s) i)"
      using filter_get_ids_due [OF inv, of now forget] step_filter(3) by auto
    have "requests_apart (int secs * 1000000000) (map (Pair now) ids @ requests s)"
      using ok f(4) by (intro requests_apart_batch ascending_distinct f(3)) (fastforce simp: run_ok_def)+
    then show ?thesis
      using ok step_filter f by (fastforce simp: run_ok_def split: if_splits)
  next
    case (step_rexmit_reset now)
    with ok show ?thesis
      by (fastforce simp: run_ok_def rexmit_reset_def rexmit_inv_def due_at_def)
  qed
qed

subsection \<open>Properties\<close>

text \<open>Adding missed identifiers schedules each new one a full period ahead and leaves the
  identifiers that are already waiting at their time (a packet that is missed again is not postponed);
  every other identifier stays out of the set.\<close>
lemma append_schedules_new_ids:
  assumes "rexmit_inv r"
  shows "rexmit_inv (append_ids now ids r)
    \<and> due_at (append_ids now ids r) =
        (\<lambda>i. if i \<in> set ids \<and> due_at r i = None then Some (now + rtime r) else due_at r i)"
  using append_ids_spec [OF assms] by (auto simp: fun_eq_iff split: option.split)

text \<open>Two missed packets, one of them waiting already.\<close>

definition sample_rexmit :: rexmit_manager where
  "sample_rexmit = \<lparr>rexmit_ids = [\<lparr>rid = 512, scheduled_update = 7\<rparr>, \<lparr>rid = 2048, scheduled_update = 90\<rparr>],
     last_update = 0, rtime = 20\<rparr>"

lemma sample_rexmit_ok: "rexmit_inv sample_rexmit" "rtime sample_rexmit = 20"
  "due_at sample_rexmit 512 = Some 7" "due_at sample_rexmit 1024 = None" "due_at sample_rexmit 2048 = Some 90"
  by (simp_all add: sample_rexmit_def rexmit_inv_def due_at_def)

lemma append_schedules_new_ids_example:
  "due_at (append_ids 10 [512, 1024] sample_rexmit) 512 = Some 7
   \<and> due_at (append_ids 10 [512, 1024] sample_rexmit) 1024 = Some 30"
  using append_schedules_new_ids [OF sample_rexmit_ok(1), of 10 "[512, 1024]"] by (simp add: sample_rexmit_ok)

text \<open>C19: the loop of \<open>filter_get_ids\<close>, which erases and puts back elements of the set it walks
  through, ends and never uses an invalid iterator. It returns, in ascending order, exactly the
  identifiers that are due and not to be forgotten; these are due again one period later, the
  forgotten ones are gone, and all others keep their time.\<close>
theorem filter_returns_due_ids:
  assumes "rexmit_inv r"
  shows "\<exists>ids r'. filter_get_ids now forget r = Inr (ids, r') \<and> rexmit_inv r' \<and> ascending id ids
    \<and> set ids = {i. i \<notin> set forget \<and> (\<exists>t. due_at r i = Some t \<and> t \<le> now)}
    \<and> due_at r' = (\<lambda>i. if i \<in> set forget then None else if i \<in> set ids then Some (now + rtime r) else due_at r i)"
  using filter_get_ids_due [OF assms, of now forget] by auto

theorem filter_returns_due_ids_witness:
  "\<exists>ids r'. filter_get_ids 50 [4096] sample_rexmit = Inr (ids, r') \<and> 512 \<in> set ids \<and> 2048 \<notin> set ids
    \<and> due_at r' 512 = Some 70 \<and> due_at r' 2048 = Some 90"
  using filter_returns_due_ids [OF sample_rexmit_ok(1), of 50 "[4096]"] by (auto simp: sample_rexmit_ok)


text \<open>A packet missed at second 0, asked for in the seconds 1 and 2.\<close>

definition sample_waiting :: "time_point \<Rightarrow> rexmit_manager" where
  "sample_waiting t =
     \<lparr>rexmit_ids = [\<lparr>rid = 512, scheduled_update = t\<rparr>], last_update = 0, rtime = 1000000000\<rparr>"

lemma sample_waiting_append: "append_ids 0 [512] (rexmit_init 1 0) = sample_waiting 1000000000"
  by (simp add: append_ids_def rexmit_init_def mk_rexmit_id_def sample_waiting_def)

lemma sample_waiting_filter:
  "filter_get_ids t [] (sample_waiting t) = Inr ([512], sample_waiting (t + 1000000000))"
  by (simp add: filter_get_ids_def begin_of_def behind_def mk_rexmit_id_def sample_waiting_def)

lemma reach_filter:
  "reach start rexmit_step \<lparr>manager = sample_waiting t, clock = t', requests = rs\<rparr> \<Longrightarrow> t' \<le> t \<Longrightarrow>
   reach start rexmit_step
     \<lparr>manager = sample_waiting (t + 1000000000), clock = t, requests = (t, 512) # rs\<rparr>"
  using step_filter [of "\<lparr>manager = sample_waiting t, clock = t', requests = rs\<rparr>" t "[]" "[512]"]
  by (simp add: sample_waiting_filter) (erule reach_step)

lemma sample_requests:
  "reach (rexmit_start 1) rexmit_step
     \<lparr>manager = sample_waiting 3000000000, clock = 2000000000,
      requests = [(2000000000, 512), (1000000000, 512)]\<rparr>"
proof -
  let ?s = "\<lparr>manager = rexmit_init 1 0, clock = 0, requests = []\<rparr>"
  have "rexmit_step ?s \<lparr>manager = sample_waiting 1000000000, clock = 0, requests = []\<rparr>"
    using step_append [of ?s 0 "[512]"] by (simp only: rexmit_run.simps sample_waiting_append order_refl simp_thms)
  moreover have "rexmit_start 1 ?s" by (auto simp: rexmit_start_def)
  ultimately have "reach (rexmit_start 1) rexmit_step
      \<lparr>manager = sample_waiting 1000000000, clock = 0, requests = []\<rparr>"
    by (blast intro: reach_start reach_step)
  from reach_filter [OF reach_filter [OF this]] show ?thesis by simp
qed


end
