(* ===== verification/Ctrl_Msg.thy ===== *)
theory Ctrl_Msg
  imports Std_String
begin

text \<open>
  \<open>src/common/ctrl_msg.hpp\<close>: the control messages (lookup, reply, rexmit), how they are told
  apart, what is read out of them and how they are made. A message is its text.
\<close>

subsection \<open>Keys and kinds\<close>

definition lookup_msg_key :: string where
  "lookup_msg_key = ''ZERO_SEVEN_COME_IN''"

definition reply_msg_key :: string where
  "reply_msg_key = ''BOREWICZ_HERE ''"

definition rexmit_msg_key :: string where
  "rexmit_msg_key = ''LOUDER_PLEASE ''"

lemmas msg_keys = lookup_msg_key_def reply_msg_key_def rexmit_msg_key_def

record ctrl_msg =
  msg_data :: string

definition is_lookup :: "ctrl_msg \<Rightarrow> bool" where
  "is_lookup m \<longleftrightarrow> str_find (msg_data m) lookup_msg_key = Some 0"

definition is_reply :: "ctrl_msg \<Rightarrow> bool" where
  "is_reply m \<longleftrightarrow> str_find (msg_data m) reply_msg_key = Some 0"

definition is_rexmit :: "ctrl_msg \<Rightarrow> bool" where
  "is_rexmit m \<longleftrightarrow> str_find (msg_data m) rexmit_msg_key = Some 0"

lemma msg_kind_prefix:
  "is_lookup m \<longleftrightarrow> prefix lookup_msg_key (msg_data m)"
  "is_reply m \<longleftrightarrow> prefix reply_msg_key (msg_data m)"
  "is_rexmit m \<longleftrightarrow> prefix rexmit_msg_key (msg_data m)"
  by (simp_all add: is_lookup_def is_reply_def is_rexmit_def str_find_0_iff)

subsection \<open>Reading\<close>

text \<open>
  \<open>get_rexmit_ids\<close>: the text after the key, with the last character of the key replaced by a comma,
  is searched for commas followed by digits. A number that does not fit in 64 bits leaves the
  function through the exception of \<open>stoull\<close>.
\<close>

definition get_rexmit_ids :: "ctrl_msg \<Rightarrow> msg_id_t list result" where
  "get_rexmit_ids m =
     (if \<not> is_rexmit m
      then Inl (Ctrl_Msg_Exception ''Trying to read rexmit ids from non-rexmit message'')
      else
        let searchable = (drop (length rexmit_msg_key - 1) (msg_data m))[0 := CHR '','']
        in map_result stoull (runs_after CHR '','' is_digit searchable))"

text \<open>
  \<open>get_reply_data\<close>: the first two space-separated words of the text (after the key's own word) are
  the address and the port, the others, joined by single spaces, the name. Dereferencing the
  iterator when the words have run out is undefined. The port is cut to the sixteen bits of
  \<open>in_port_t\<close>.
\<close>

definition get_reply_data :: "ctrl_msg \<Rightarrow> (string \<times> string \<times> in_port) result" where
  "get_reply_data m =
     (if \<not> is_reply m
      then Inl (Ctrl_Msg_Exception ''Trying to read reply data from a non-reply message'')
      else
        (case runs_after CHR '' '' (\<lambda>c. \<not> is_space c) (msg_data m) of
           [] \<Rightarrow> Inl (Undefined Invalid_Iterator)
         | addr # ws1 \<Rightarrow>
             (case ws1 of
                [] \<Rightarrow> Inl (Undefined Invalid_Iterator)
              | port_word # ws2 \<Rightarrow>
                  (case stoull port_word of
                     Inl e \<Rightarrow> Inl e
                   | Inr port \<Rightarrow>
                       (case ws2 of
                          [] \<Rightarrow> Inl (Undefined Invalid_Iterator)
                        | first_word # following \<Rightarrow>
                            Inr (first_word @ after_each CHR '' '' following, addr, ucast port))))))"

definition ctrl_sendable :: "ctrl_msg \<Rightarrow> string" where
  "ctrl_sendable m = msg_data m"

subsection \<open>Making\<close>

definition newline :: char where
  "newline = CHR 0x0A"

fun join :: "char \<Rightarrow> string list \<Rightarrow> string" where
  "join sep [] = []"
| "join sep (w # ws) = w @ after_each sep ws"

definition make_lookup :: ctrl_msg where
  "make_lookup = \<lparr>msg_data = lookup_msg_key @ [newline]\<rparr>"

definition make_reply :: "string \<Rightarrow> string \<Rightarrow> in_port \<Rightarrow> ctrl_msg" where
  "make_reply name mcast_addr data_port =
     \<lparr>msg_data = reply_msg_key @ mcast_addr @ '' '' @ to_string (unat data_port) @ '' '' @ name
        @ [newline]\<rparr>"

text \<open>The set of identifiers is given in the order of its iteration, ascending.\<close>

definition make_rexmit :: "msg_id_t list \<Rightarrow> ctrl_msg" where
  "make_rexmit ids =
     \<lparr>msg_data = rexmit_msg_key @ join CHR '','' (map (\<lambda>i. to_string (unat i)) ids) @ [newline]\<rparr>"

lemmas ctrl_msg_defs = make_lookup_def make_reply_def make_rexmit_def newline_def

subsection \<open>Kinds are exclusive, and each constructor makes its kind\<close>

lemma newline_class [simp]: "is_space newline" "\<not> is_digit newline" "newline \<noteq> CHR '',''"
  by (simp_all add: newline_def is_space_def is_digit_def)

text \<open>Every text is of at most one of the three kinds, and the three constructors make a
  lookup, a reply and a rexmit message whatever their arguments.\<close>
lemma ctrl_msg_kinds_exclusive:
  "\<not> (is_lookup m \<and> is_reply m) \<and> \<not> (is_lookup m \<and> is_rexmit m) \<and> \<not> (is_reply m \<and> is_rexmit m)
   \<and> is_lookup make_lookup \<and> is_reply (make_reply name addr port) \<and> is_rexmit (make_rexmit ids)"
  by (auto simp: msg_kind_prefix msg_keys ctrl_msg_defs prefix_def)

subsection \<open>Rexmit messages round trip\<close>

lemma rexmit_runs:
  assumes "list_all (word_of is_digit) ws"
  shows "runs_after CHR '','' is_digit ((drop (length rexmit_msg_key - 1)
    (rexmit_msg_key @ join CHR '','' ws @ [newline]))[0 := CHR '','']) = ws"
proof -
  have comma: "\<not> is_digit CHR '',''" by (simp add: is_digit_def)
  have "(drop (length rexmit_msg_key - 1) (rexmit_msg_key @ join CHR '','' ws @ [newline]))[0 := CHR '','']
      = (if ws = [] then '','' else after_each CHR '','' ws) @ [newline]"
    by (cases ws) (simp_all add: rexmit_msg_key_def)
  with assms comma show ?thesis
    by (simp add: runs_after_after_each)
qed

lemma get_rexmit_ids_join:
  assumes "list_all (word_of is_digit) ws"
  shows "get_rexmit_ids \<lparr>msg_data = rexmit_msg_key @ join CHR '','' ws @ [newline]\<rparr>
    = map_result stoull ws"
  using rexmit_runs [OF assms] by (simp add: get_rexmit_ids_def msg_kind_prefix)

lemma stoull_digits:
  assumes "word_of is_digit w"
  shows "stoull w = (if 2 ^ 64 \<le> digits_value w then Inl Out_Of_Range else Inr (of_nat (digits_value w)))"
proof -
  from assms obtain c cs where w: "w = c # cs" "is_digit c" "list_all is_digit cs"
    by (cases w) (auto simp: word_of_def)
  have all_digits: "takeWhile is_digit cs = cs"
    using w(3) by (simp add: takeWhile_eq_all_conv list_all_iff)
  then show ?thesis
    using w(2) digit_not_sign [OF w(2)] by (simp add: stoull_def Let_def w(1) digit_not_space all_digits)
qed

text \<open>The rexmit message made for a set of identifiers is read back as exactly these identifiers,
  in the same order.\<close>
lemma rexmit_round_trip:
  "get_rexmit_ids (make_rexmit ids) = Inr ids"
proof -
  let ?ws = "map (\<lambda>i :: msg_id_t. to_string (unat i)) ids"
  have "list_all (word_of is_digit) ?ws"
    by (auto simp: list_all_iff word_of_def to_string_digits)
  moreover have "map_result stoull ?ws = Inr (map (\<lambda>w. of_nat (digits_value w)) ?ws)"
    by (rule map_result_all_ok) auto
  ultimately show ?thesis
    by (simp add: make_rexmit_def get_rexmit_ids_join comp_def)
qed

lemma map_result_stoull_digits:
  "list_all (word_of is_digit) ws \<Longrightarrow>
   map_result stoull ws =
     (if list_all (\<lambda>w. digits_value w < 2 ^ 64) ws
      then Inr (map (\<lambda>w. of_nat (digits_value w)) ws) else Inl Out_Of_Range)"
  by (induction ws) (auto simp: stoull_digits)

text \<open>A rexmit message that lists decimal numbers separated by commas, from whatever sender, is
  read as the numbers it lists when all of them fit in 64 bits; one number that does not fit makes
  the function end with \<open>out_of_range\<close>, which is not an exception class of the repository.\<close>
lemma rexmit_read_decimal:
  assumes "list_all (word_of is_digit) ws"
  shows "get_rexmit_ids \<lparr>msg_data = rexmit_msg_key @ join CHR '','' ws @ [newline]\<rparr>
     = (if list_all (\<lambda>w. digits_value w < 2 ^ 64) ws
        then Inr (map (\<lambda>w. of_nat (digits_value w)) ws) else Inl Out_Of_Range)"
  using assms
  by (simp add: get_rexmit_ids_join map_result_stoull_digits)

lemma rexmit_read_decimal_example:
  "get_rexmit_ids \<lparr>msg_data = ''LOUDER_PLEASE 007,18446744073709551616'' @ [newline]\<rparr> = Inl Out_Of_Range
   \<and> get_rexmit_ids \<lparr>msg_data = ''LOUDER_PLEASE 007,512'' @ [newline]\<rparr> = Inr [7, 512]"
  using rexmit_read_decimal [of "[''007'', ''18446744073709551616'']"]
    rexmit_read_decimal [of "[''007'', ''512'']"]
  by (simp add: rexmit_msg_key_def word_of_def is_digit_def digits_value_def digit_value_def)

subsection \<open>Reply messages round trip for well-spaced names\<close>

abbreviation non_space :: "char \<Rightarrow> bool" where
  "non_space c \<equiv> \<not> is_space c"

text \<open>A name of non-empty words separated by single spaces, with no other whitespace. The flag
  says that a word has to start here.\<close>

fun spaced :: "bool \<Rightarrow> string \<Rightarrow> bool" where
  "spaced start [] = (\<not> start)"
| "spaced start (c # cs) =
     (if c = CHR '' '' then \<not> start \<and> spaced True cs else non_space c \<and> spaced False cs)"

definition well_spaced :: "string \<Rightarrow> bool" where
  "well_spaced name = spaced True name"

lemma space_class [simp]: "is_space CHR '' ''"
  by (simp add: is_space_def)

lemma spaced_words:
  "spaced start s \<Longrightarrow>
   \<exists>w ws. s = w @ after_each CHR '' '' ws \<and> list_all non_space w \<and> (start \<longrightarrow> w \<noteq> [])
     \<and> list_all (word_of non_space) ws"
proof (induction start s rule: spaced.induct)
  case (1 start)
  then show ?case by (intro exI [of _ "[]"] exI [of _ "[]"]) simp
next
  case (2 start c cs)
  show ?case
  proof (cases "c = CHR '' ''")
    case True
    with 2 obtain w ws where w: "cs = w @ after_each CHR '' '' ws" "list_all non_space w" "w \<noteq> []"
        "list_all (word_of non_space) ws"
      by auto
    then show ?thesis
      using True "2.prems"
      by (intro exI [of _ "[] :: string"] exI [of _ "w # ws"]) (simp add: word_of_def [of non_space w])
  next
    case False
    with 2 obtain w ws where "cs = w @ after_each CHR '' '' ws" "list_all non_space w"
        "list_all (word_of non_space) ws"
      by auto
    with False 2 show ?thesis
      by (intro exI [of _ "c # w"] exI [of _ ws]) auto
  qed
qed

lemma spaced_append_word: "list_all non_space w \<Longrightarrow> w \<noteq> [] \<Longrightarrow> spaced start (w @ s) = spaced False s"
proof (induction w arbitrary: start)
  case Nil
  then show ?case by simp
next
  case (Cons c w)
  then have "c \<noteq> CHR '' ''" by auto
  with Cons show ?case by (cases w) auto
qed

lemma spaced_after_each: "list_all (word_of non_space) ws \<Longrightarrow> spaced False (after_each CHR '' '' ws)"
  by (induction ws) (auto simp: word_of_def spaced_append_word)

lemma well_spaced_iff:
  "well_spaced name \<longleftrightarrow> (\<exists>ws. ws \<noteq> [] \<and> list_all (word_of non_space) ws \<and> name = join CHR '' '' ws)"
proof
  assume "well_spaced name"
  then obtain w ws where "name = w @ after_each CHR '' '' ws" "list_all non_space w" "w \<noteq> []"
      "list_all (word_of non_space) ws"
    using spaced_words [of True name] by (auto simp: well_spaced_def)
  then show "\<exists>ws. ws \<noteq> [] \<and> list_all (word_of non_space) ws \<and> name = join CHR '' '' ws"
    by (intro exI [of _ "w # ws"]) (simp add: word_of_def)
next
  assume "\<exists>ws. ws \<noteq> [] \<and> list_all (word_of non_space) ws \<and> name = join CHR '' '' ws"
  then obtain w ws where "word_of non_space w" "list_all (word_of non_space) ws"
      "name = w @ after_each CHR '' '' ws"
    by (metis join.elims list.pred_inject(2))
  then show "well_spaced name"
    by (simp add: well_spaced_def word_of_def spaced_append_word spaced_after_each)
qed

lemma stoull_port: "stoull (to_string (unat (p :: in_port))) = Inr (ucast p)"
proof -
  have "unat p < 2 ^ LENGTH(16)" by (rule unsigned_less)
  moreover have "(of_nat (unat p) :: u64) = ucast p" by simp
  ultimately show ?thesis by (simp add: stoull_to_string)
qed

lemma port_of_port [simp]: "ucast (ucast p :: u64) = (p :: in_port)"
  by (rule bit_eqI) (auto simp: bit_simps dest: bit_imp_le_length)

text \<open>What a receiver reads of a reply: the first words of the name it was made with.\<close>

lemma get_reply_data_make_reply:
  assumes addr: "word_of non_space addr"
  shows "get_reply_data (make_reply name addr port) =
    (case runs_after CHR '' '' non_space ('' '' @ name @ [newline]) of
       [] \<Rightarrow> Inl (Undefined Invalid_Iterator)
     | w # ws \<Rightarrow> Inr (join CHR '' '' (w # ws), addr, port))"
proof -
  let ?port = "to_string (unat port)"
  have words: "list_all (word_of non_space) [addr, ?port]"
    using addr by (auto simp: word_of_def list_all_iff dest: to_string_digits digit_not_space)
  have "msg_data (make_reply name addr port)
      = ''BOREWICZ_HERE'' @ after_each CHR '' '' [addr, ?port] @ '' '' @ name @ [newline]"
    by (simp add: make_reply_def reply_msg_key_def)
  then have "runs_after CHR '' '' non_space (msg_data (make_reply name addr port))
      = [addr, ?port] @ runs_after CHR '' '' non_space ('' '' @ name @ [newline])"
    using runs_after_after_each [OF words, of "CHR '' ''" "'' '' @ name @ [newline]"]
      runs_after_skip [of "CHR '' ''" "''BOREWICZ_HERE''" non_space]
    by (simp del: runs_after.simps append_Cons append_Nil after_each_simps)
  moreover have "is_reply (make_reply name addr port)"
    by (simp add: msg_kind_prefix make_reply_def)
  ultimately show ?thesis
    by (simp add: get_reply_data_def stoull_port del: runs_after.simps split: list.split)
qed

lemma reply_read_iff:
  assumes "word_of (\<lambda>c. \<not> is_space c) addr"
  shows "(get_reply_data (make_reply name addr port) = Inr (name, addr, port) \<longleftrightarrow> well_spaced name)
    \<and> (get_reply_data (make_reply name addr port) = Inl (Undefined Invalid_Iterator)
         \<longleftrightarrow> runs_after CHR '' '' (\<lambda>c. \<not> is_space c) ('' '' @ name @ [newline]) = [])"
proof -
  let ?runs = "runs_after CHR '' '' non_space ('' '' @ name @ [newline])"
  have "?runs = ws" if "name = join CHR '' '' ws" "list_all (word_of non_space) ws" "ws \<noteq> []" for ws
  proof -
    from that have line: "'' '' @ name @ [newline] = after_each CHR '' '' ws @ [newline]"
      by (cases ws) auto
    show ?thesis
      unfolding line using that runs_after_after_each [of non_space ws "CHR '' ''" "[newline]"]
      by simp
  qed
  moreover have "list_all (word_of non_space) ?runs"
    by (auto simp: list_all_iff intro: runs_after_word_of simp del: runs_after.simps)
  ultimately have "well_spaced name \<longleftrightarrow> ?runs \<noteq> [] \<and> join CHR '' '' ?runs = name"
    by (auto simp: well_spaced_iff simp del: runs_after.simps)
  then show ?thesis
    by (simp add: get_reply_data_make_reply [OF assms] del: runs_after.simps join.simps split: list.split)
qed

text \<open>C37: a reply made with an address that is one word is read back as the same name, address and
  port exactly when the name is made of non-empty words separated by single spaces. A name with
  other spacing comes back altered, and a name without a word makes the reader dereference an end
  iterator.\<close>
theorem reply_round_trip_iff:
  assumes "word_of (\<lambda>c. \<not> is_space c) addr"
  shows "(get_reply_data (make_reply name addr port) = Inr (name, addr, port) \<longleftrightarrow> well_spaced name)
    \<and> (get_reply_data (make_reply name addr port) = Inl (Undefined Invalid_Iterator)
         \<longleftrightarrow> runs_after CHR '' '' (\<lambda>c. \<not> is_space c) ('' '' @ name @ [newline]) = [])"
  using reply_read_iff [OF assms] .

theorem reply_round_trip_iff_witness:
  "get_reply_data (make_reply ''Test radio'' ''239.10.11.12'' 9999)
     = Inr (''Test radio'', ''239.10.11.12'', 9999)
   \<and> get_reply_data (make_reply ''a  b'' ''239.10.11.12'' 9999) \<noteq> Inr (''a  b'', ''239.10.11.12'', 9999)
   \<and> get_reply_data (make_reply '''' ''239.10.11.12'' 9999) = Inl (Undefined Invalid_Iterator)"
proof -
  have addr: "word_of non_space ''239.10.11.12''"
    by (simp add: word_of_def is_space_def)
  show ?thesis
    using reply_round_trip_iff [OF addr, of "''Test radio''" 9999]
      reply_round_trip_iff [OF addr, of "''a  b''" 9999] reply_round_trip_iff [OF addr, of "''''" 9999]
    by (simp add: well_spaced_def is_space_def newline_def)
qed

end
