(* ===== verification/Structures.thy ===== *)
theory Structures
  imports Ctrl_Msg Data_Msg Rexmit_Manager "HOL-Library.List_Lexorder" "HOL-Library.Char_ord"
begin

text \<open>
  \<open>src/receiver/structures.hpp\<close>: the station record with its comparisons, and \<open>as_station\<close>, which
  reads a station out of a reply. Names are compared as the library orders strings
  (lexicographically, by character code below 128); \<open>operator==\<close> is \<open>same_station\<close>.
\<close>

datatype menu_selection_update = UP | DOWN

record station =
  st_name :: string
  ctrl_address :: string
  ctrl_port :: in_port
  data_address :: string
  st_data_port :: in_port
  last_reply :: time_point

text \<open>\<open>operator<\<close> and its companions look at the name only: a preorder.\<close>

definition station_less :: "'a station_scheme \<Rightarrow> 'a station_scheme \<Rightarrow> bool" where
  "station_less s t \<longleftrightarrow> st_name s < st_name t"

definition station_less_eq :: "'a station_scheme \<Rightarrow> 'a station_scheme \<Rightarrow> bool" where
  "station_less_eq s t \<longleftrightarrow> st_name s \<le> st_name t"

instantiation station_ext :: (type) preorder
begin

definition less_station_ext :: "'a station_scheme \<Rightarrow> 'a station_scheme \<Rightarrow> bool" where
  "less_station_ext = station_less"

definition less_eq_station_ext :: "'a station_scheme \<Rightarrow> 'a station_scheme \<Rightarrow> bool" where
  "less_eq_station_ext = station_less_eq"

instance
  by standard (auto simp: less_station_ext_def less_eq_station_ext_def station_less_def station_less_eq_def)

end

definition same_station :: "station \<Rightarrow> station \<Rightarrow> bool" where
  "same_station s t \<longleftrightarrow>
     (let names_equal = (st_name s = st_name t);
          ca_equal = (ctrl_address s = ctrl_address t);
          da_equal = (data_address s = data_address t);
          cp_equal = (ctrl_port s = ctrl_port t);
          dp_equal = (st_data_port s = st_data_port t)
      in names_equal \<and> da_equal \<and> ca_equal \<and> cp_equal \<and> dp_equal)"

lemma same_station_iff:
  "same_station s t \<longleftrightarrow> s\<lparr>last_reply := x\<rparr> = t\<lparr>last_reply := x\<rparr>"
  by (cases s; cases t) (auto simp: same_station_def Let_def)

lemma same_station_refl [simp]: "same_station s s"
  by (simp add: same_station_def Let_def)

lemma same_station_sym: "same_station s t \<Longrightarrow> same_station t s"
  by (simp add: same_station_def Let_def)

lemma same_station_trans: "same_station s t \<Longrightarrow> same_station t u \<Longrightarrow> same_station s u"
  by (simp add: same_station_iff [of _ _ 0])

subsection \<open>Reading a station\<close>

text \<open>The parts of a \<open>sockaddr_in\<close> that the code reads, as the words they are in memory, and the C
  library's functions on them.\<close>

record sockaddr_in =
  sin_port :: in_port
  sin_addr :: u32

definition ntohs :: "host \<Rightarrow> in_port \<Rightarrow> in_port" where
  "ntohs h w = (case h of Little_Endian \<Rightarrow> push_bit 8 w OR drop_bit 8 w | Big_Endian \<Rightarrow> w)"

definition octets :: "host \<Rightarrow> u32 \<Rightarrow> byte list" where
  "octets h a =
     (let low_first = [ucast a, ucast (drop_bit 8 a), ucast (drop_bit 16 a), ucast (drop_bit 24 a)]
      in (case h of Little_Endian \<Rightarrow> low_first | Big_Endian \<Rightarrow> rev low_first))"

definition inet_ntoa :: "host \<Rightarrow> u32 \<Rightarrow> string" where
  "inet_ntoa h a = join CHR ''.'' (map (\<lambda>b. to_string (unat b)) (octets h a))"

definition as_station :: "host \<Rightarrow> time_point \<Rightarrow> ctrl_msg \<Rightarrow> sockaddr_in \<Rightarrow> station result" where
  "as_station h now msg sender_address =
     (let ctrl_addr = inet_ntoa h (sin_addr sender_address)
      in map_sum id
           (\<lambda>(name, data_addr, data_port).
              \<lparr>st_name = name, ctrl_address = ctrl_addr, ctrl_port = ntohs h (sin_port sender_address),
               data_address = data_addr, st_data_port = data_port, last_reply = now\<rparr>)
           (get_reply_data msg))"

subsection \<open>Properties\<close>

lemma as_station_make_reply:
  assumes "word_of (\<lambda>c. \<not> is_space c) addr" "well_spaced name"
  shows "as_station h now (make_reply name addr port) \<lparr>sin_port = p, sin_addr = a\<rparr> =
    Inr \<lparr>st_name = name,
         ctrl_address = join CHR ''.'' (map (\<lambda>b. to_string (unat b)) (octets h a)),
         ctrl_port = (case h of Little_Endian \<Rightarrow> push_bit 8 p OR drop_bit 8 p | Big_Endian \<Rightarrow> p),
         data_address = addr, st_data_port = port, last_reply = now\<rparr>"
  using reply_read_iff [OF assms(1), of name port] assms(2)
  by (simp add: as_station_def inet_ntoa_def ntohs_def)

text \<open>A station is read out of the reply it sends: with an address of one word and a name of words
  separated by single spaces, the receiver enters the station under its own name with the address and
  port of its data, the address and port that the reply came from (as four decimal numbers, and in
  the host's byte order), and the time of the reply.\<close>
lemma reply_makes_station:
  assumes "word_of (\<lambda>c. \<not> is_space c) addr" "well_spaced name"
  shows "as_station h now (make_reply name addr port) \<lparr>sin_port = p, sin_addr = a\<rparr> =
    Inr \<lparr>st_name = name,
         ctrl_address = join CHR ''.'' (map (\<lambda>b. to_string (unat b)) (octets h a)),
         ctrl_port = (case h of Little_Endian \<Rightarrow> push_bit 8 p OR drop_bit 8 p | Big_Endian \<Rightarrow> p),
         data_address = addr, st_data_port = port, last_reply = now\<rparr>"
  by (rule as_station_make_reply [OF assms])

lemma sample_reply:
  "word_of (\<lambda>c. \<not> is_space c) ''239.10.11.12''" "well_spaced ''Test radio''"
  "inet_ntoa Little_Endian 16777226 = ''10.0.0.1''"
  by (simp_all add: word_of_def is_space_def well_spaced_def)
    (simp add: inet_ntoa_def octets_def to_string.simps digit_char_def char_of_def bit_0)

lemma reply_makes_station_example:
  "as_station Little_Endian 5 (make_reply ''Test radio'' ''239.10.11.12'' 9999)
     \<lparr>sin_port = 63115, sin_addr = 16777226\<rparr> =
    Inr \<lparr>st_name = ''Test radio'', ctrl_address = ''10.0.0.1'', ctrl_port = 35830,
         data_address = ''239.10.11.12'', st_data_port = 9999, last_reply = 5\<rparr>"
  using reply_makes_station [OF sample_reply(1,2), of Little_Endian 5 9999 63115 16777226]
    sample_reply(3) by (simp add: inet_ntoa_def)

end
