(* ===== verification/State_Manager.thy ===== *)
theory State_Manager
  imports Structures
begin

text \<open>
  \<open>src/receiver/state_manager.hpp\<close>: which station and which session the receiver plays, and the
  flag by which the other threads tell the playback resetter that something has changed. Each call
  is one step.
\<close>

record state_manager =
  active_station :: "station option"
  dirty :: bool
  session_id :: msg_id_t

definition state_init :: state_manager where
  "state_init = \<lparr>active_station = None, dirty = False, session_id = 0\<rparr>"

text \<open>The flag is returned in an \<open>in_port_t\<close>, as 0 or 1.\<close>

definition check_state :: "state_manager \<Rightarrow> (station option \<times> in_port) \<times> state_manager" where
  "check_state s =
     (let was_dirty = dirty s
      in ((active_station s, if was_dirty then 1 else 0), s\<lparr>dirty := False\<rparr>))"

definition register_address_check_change :: "station \<Rightarrow> state_manager \<Rightarrow> bool \<times> state_manager" where
  "register_address_check_change new_station s =
     (let s1 = (case active_station s of
                  None \<Rightarrow> s\<lparr>active_station := Some new_station, dirty := True\<rparr>
                | Some st \<Rightarrow>
                    if \<not> same_station st new_station
                    then s\<lparr>active_station := Some new_station, dirty := True\<rparr> else s)
      in (dirty s1, s1))"

definition register_session_check_ignore :: "msg_id_t \<Rightarrow> state_manager \<Rightarrow> bool \<times> state_manager" where
  "register_session_check_ignore new_session_id s =
     (if new_session_id < session_id s then (True, s)
      else if new_session_id = session_id s then (False, s)
      else (True, s\<lparr>session_id := new_session_id, dirty := True\<rparr>))"

definition mark_dirty :: "state_manager \<Rightarrow> state_manager" where
  "mark_dirty s = s\<lparr>active_station := None, dirty := True\<rparr>"

subsection \<open>Sequences of calls\<close>

datatype state_call = Check | Address station | Session msg_id_t | Mark

primrec state_do :: "state_call \<Rightarrow> state_manager \<Rightarrow> state_manager" where
  "state_do Check s = snd (check_state s)"
| "state_do (Address st) s = snd (register_address_check_change st s)"
| "state_do (Session i) s = snd (register_session_check_ignore i s)"
| "state_do Mark s = mark_dirty s"

abbreviation state_run :: "state_call list \<Rightarrow> state_manager \<Rightarrow> state_manager" where
  "state_run cs \<equiv> fold state_do cs"

text \<open>The sessions that a sequence of calls reports, in order.\<close>

fun sessions_of :: "state_call list \<Rightarrow> msg_id_t list" where
  "sessions_of [] = []"
| "sessions_of (Session i # cs) = i # sessions_of cs"
| "sessions_of (_ # cs) = sessions_of cs"

lemmas state_manager_defs =
  check_state_def register_address_check_change_def register_session_check_ignore_def mark_dirty_def

lemma session_id_do:
  "session_id (state_do c s) = (case c of Session i \<Rightarrow> max i (session_id s) | _ \<Rightarrow> session_id s)"
  by (auto simp: state_manager_defs Let_def max_def split: state_call.split option.split)

lemma session_id_run: "session_id (state_run cs s) = fold max (sessions_of cs) (session_id s)"
  by (induction cs arbitrary: s rule: sessions_of.induct) (simp_all add: session_id_do del: state_do.simps)

lemma fold_max_Max: "fold max is (i :: msg_id_t) = Max (insert i (set is))"
proof (induction "is" arbitrary: i)
  case (Cons j js)
  have "Max (insert i (insert j (set js))) = Max (insert (max j i) (set js))"
    by (cases "set js = {}") (auto simp: max.assoc max.commute max.left_commute)
  with Cons show ?case by simp
qed simp

lemma dirty_do:
  "dirty (state_do c s) \<longleftrightarrow> c \<noteq> Check \<and>
     (dirty s \<or> c = Mark \<or> active_station (state_do c s) \<noteq> active_station s
      \<or> session_id (state_do c s) \<noteq> session_id s)"
  by (cases c) (auto simp: state_manager_defs Let_def split: option.split)

text \<open>The calls of a sequence that change something: the mark, or another station or session.\<close>

fun changes :: "state_call list \<Rightarrow> state_manager \<Rightarrow> bool" where
  "changes [] s = False"
| "changes (c # cs) s =
     (c = Mark \<or> active_station (state_do c s) \<noteq> active_station s
      \<or> session_id (state_do c s) \<noteq> session_id s \<or> changes cs (state_do c s))"

lemma dirty_run:
  "Check \<notin> set cs \<Longrightarrow> dirty (state_run cs s) \<longleftrightarrow> dirty s \<or> changes cs s"
  by (induction cs arbitrary: s) (auto simp: dirty_do simp del: state_do.simps)

subsection \<open>Properties\<close>

text \<open>C26: a packet of session \<open>i\<close> is let through exactly when \<open>i\<close> is the highest session number that
  any earlier packet had, whatever the other threads did in between (stations changed, the state was
  checked or marked). So the first packet of every new session is dropped, and the packets of a
  session with a lower number are dropped for ever, also when they come from another station.\<close>
theorem session_accepted_iff:
  "fst (register_session_check_ignore i (state_run cs state_init)) =
     (i \<noteq> Max (insert 0 (set (sessions_of cs))))
   \<and> session_id (snd (register_session_check_ignore i (state_run cs state_init))) =
       Max (insert i (insert 0 (set (sessions_of cs))))"
proof -
  let ?m = "Max (insert 0 (set (sessions_of cs)))"
  have "session_id (state_run cs state_init) = ?m"
    by (simp add: session_id_run fold_max_Max state_init_def)
  moreover have "Max (insert i (insert 0 (set (sessions_of cs)))) = max i ?m" by simp
  ultimately show ?thesis
    by (auto simp: register_session_check_ignore_def max_def)
qed

text \<open>C34: a check of the state reports a change exactly when, since the previous check, the playing
  station or the session has become another or the state was marked: no change is lost, none is
  invented (a reply that only renews the station's time is not one), and the station reported is
  the one that holds then.\<close>
theorem check_reports_changes:
  assumes "Check \<notin> set cs"
  shows "fst (check_state (state_run (Check # cs) s)) =
     (active_station (state_run cs (state_do Check s)), if changes cs (state_do Check s) then 1 else 0)"
  using dirty_run [OF assms, of "state_do Check s"] by (simp add: check_state_def)

text \<open>The same station replies twice, then the first packet of session 5 arrives.\<close>

definition sample_station :: station where
  "sample_station = \<lparr>st_name = ''A'', ctrl_address = ''10.0.0.1'', ctrl_port = 35830,
     data_address = ''239.10.11.12'', st_data_port = 25830, last_reply = 0\<rparr>"

theorem check_reports_changes_witness:
  "fst (check_state (state_run [Check, Address (sample_station\<lparr>last_reply := 9\<rparr>)]
      (state_do (Address sample_station) state_init))) = (Some sample_station, 0)
   \<and> fst (check_state (state_run [Check, Session 5]
      (state_do (Address sample_station) state_init))) = (Some sample_station, 1)"
  using check_reports_changes [of "[Address (sample_station\<lparr>last_reply := 9\<rparr>)]"
      "state_do (Address sample_station) state_init"]
    check_reports_changes [of "[Session 5]" "state_do (Address sample_station) state_init"]
  by (simp add: state_manager_defs state_init_def Let_def sample_station_def same_station_def)

end
