(* ===== verification/State_Race.thy ===== *)
theory State_Race
  imports State_Manager
begin

text \<open>
  \<open>src/receiver/state_manager.hpp\<close> as it is locked. Each method opens with \<open>std::scoped_lock{mut};\<close>, a
  temporary that is gone at the end of the statement, so that the calls of different threads can
  overlap. Here a call is the sequence of its accesses to the members, each of them one step, and threads
  interleave between them. (An access to \<open>active_station\<close> is itself no single step of the machine: by
  the rules of C++ the race for it is undefined. This is what remains when it is taken as one.)
\<close>

subsection \<open>The accesses of a call\<close>

text \<open>Where a thread stands in its call, with its local variables; the last four are returns.\<close>

datatype state_pc =
    Check_Read | Check_Clear bool | Check_Copy bool
  | Addr_Test station | Addr_Store station | Addr_Mark | Addr_Report
  | Sess_Less msg_id_t | Sess_Equal msg_id_t | Sess_Store msg_id_t | Sess_Mark
  | Mark_Station | Mark_Flag
  | Check_Done "station option" bool | Addr_Done bool | Sess_Done bool | Mark_Done

fun finished :: "state_pc \<Rightarrow> bool" where
  "finished (Check_Done st was_dirty) = True"
| "finished (Addr_Done b) = True"
| "finished (Sess_Done b) = True"
| "finished Mark_Done = True"
| "finished _ = False"

fun access :: "state_pc \<Rightarrow> state_manager \<Rightarrow> state_pc \<times> state_manager" where
  "access Check_Read s = (Check_Clear (dirty s), s)"
| "access (Check_Clear was_dirty) s = (Check_Copy was_dirty, s\<lparr>dirty := False\<rparr>)"
| "access (Check_Copy was_dirty) s = (Check_Done (active_station s) was_dirty, s)"
| "access (Addr_Test st) s =
     (if (case active_station s of None \<Rightarrow> True | Some old \<Rightarrow> \<not> same_station old st)
      then (Addr_Store st, s) else (Addr_Report, s))"
| "access (Addr_Store st) s = (Addr_Mark, s\<lparr>active_station := Some st\<rparr>)"
| "access Addr_Mark s = (Addr_Report, s\<lparr>dirty := True\<rparr>)"
| "access Addr_Report s = (Addr_Done (dirty s), s)"
| "access (Sess_Less i) s = (if i < session_id s then (Sess_Done True, s) else (Sess_Equal i, s))"
| "access (Sess_Equal i) s = (if i = session_id s then (Sess_Done False, s) else (Sess_Store i, s))"
| "access (Sess_Store i) s = (Sess_Mark, s\<lparr>session_id := i\<rparr>)"
| "access Sess_Mark s = (Sess_Done True, s\<lparr>dirty := True\<rparr>)"
| "access Mark_Station s = (Mark_Flag, s\<lparr>active_station := None\<rparr>)"
| "access Mark_Flag s = (Mark_Done, s\<lparr>dirty := True\<rparr>)"
| "access done s = (done, s)"

fun first_access :: "state_call \<Rightarrow> state_pc" where
  "first_access Check = Check_Read"
| "first_access (Address st) = Addr_Test st"
| "first_access (Session i) = Sess_Less i"
| "first_access Mark = Mark_Station"

text \<open>So many accesses of a thread, with none of another in between.\<close>

fun accesses :: "nat \<Rightarrow> state_pc \<times> state_manager \<Rightarrow> state_pc \<times> state_manager" where
  "accesses 0 x = x"
| "accesses (Suc n) (pc, s) = accesses n (access pc s)"

text \<open>What a call returns when it is one step.\<close>

fun answer :: "state_call \<Rightarrow> state_manager \<Rightarrow> state_pc" where
  "answer Check s = (case fst (check_state s) of (st, was_dirty) \<Rightarrow> Check_Done st (was_dirty \<noteq> 0))"
| "answer (Address st) s = Addr_Done (fst (register_address_check_change st s))"
| "answer (Session i) s = Sess_Done (fst (register_session_check_ignore i s))"
| "answer Mark s = Mark_Done"

subsection \<open>Threads\<close>

inductive race_step :: "state_pc list \<times> state_manager \<Rightarrow> state_pc list \<times> state_manager \<Rightarrow> bool" where
  "i < length pcs \<Longrightarrow> \<not> finished (pcs ! i) \<Longrightarrow> access (pcs ! i) s = (pc, s') \<Longrightarrow>
   race_step (pcs, s) (pcs[i := pc], s')"

abbreviation races_to :: "state_pc list \<times> state_manager \<Rightarrow> state_pc list \<times> state_manager \<Rightarrow> bool" where
  "races_to \<equiv> race_step\<^sup>*\<^sup>*"

lemma finished_access: "finished pc \<Longrightarrow> access pc s = (pc, s)"
  by (cases pc) simp_all

lemma races_accesses:
  assumes "i < length pcs"
  shows "races_to (pcs[i := pc], s)
    (pcs[i := fst (accesses n (pc, s))], snd (accesses n (pc, s)))"
proof (induction n arbitrary: pc s)
  case (Suc n)
  obtain pc' s' where step: "access pc s = (pc', s')" by fastforce
  show ?case
  proof (cases "finished pc")
    case True
    with Suc.IH [of pc s] finished_access [OF True, of s] show ?thesis by simp
  next
    case False
    then have "race_step (pcs[i := pc], s) ((pcs[i := pc])[i := pc'], s')"
      using assms step by (intro race_step.intros) simp_all
    with Suc.IH [of pc' s'] step show ?thesis by (simp add: converse_rtranclp_into_rtranclp)
  qed
qed simp

lemma uninterrupted: "accesses 4 (first_access c, s) = (answer c s, state_do c s)"
  by (cases c) (auto simp: numeral_eq_Suc state_manager_defs Let_def split: option.split)

lemma races_call:
  assumes "i < length pcs"
  shows "races_to (pcs[i := first_access c], s) (pcs[i := answer c s], state_do c s)"
  using races_accesses [OF assms, of "first_access c" s 4] by (simp add: uninterrupted)

subsection \<open>Properties\<close>


text \<open>C14: but without the lock every change can be lost: when any call that changes the station or the
  session, or marks the state, comes between the two first accesses of a check, the check reports no
  change and leaves the flag clear, with the change made. Nothing then makes the receiver start anew.\<close>
theorem check_can_lose_change:
  assumes "\<not> dirty s" "c \<noteq> Check"
  shows "\<exists>st. races_to ([Check_Read, first_access c], s)
      ([Check_Done st False, answer c s], (state_do c s)\<lparr>dirty := False\<rparr>)
    \<and> st = active_station (state_do c s)"
proof -
  let ?s = "state_do c s"
  have "races_to ([Check_Read, first_access c], s) ([Check_Clear False, first_access c], s)"
    using races_accesses [of 0 "[Check_Read, first_access c]" Check_Read s 1] assms(1) by simp
  also have "races_to \<dots> ([Check_Clear False, answer c s], ?s)"
    using races_call [of 1 "[Check_Clear False, first_access c]" c s] by simp
  also have "races_to \<dots> ([Check_Done (active_station ?s) False, answer c s], ?s\<lparr>dirty := False\<rparr>)"
    using races_accesses [of 0 "[Check_Clear False, answer c s]" "Check_Clear False" ?s 2] by (simp add: numeral_2_eq_2)
  finally show ?thesis by blast
qed

text \<open>The playing station is replaced by another while the resetter checks: the new one is returned, with no
  change reported.\<close>

theorem check_can_lose_change_witness:
  "let s = \<lparr>active_station = None, dirty = False, session_id = 0\<rparr> in
   races_to ([Check_Read, Addr_Test sample_station], s)
     ([Check_Done (Some sample_station) False, Addr_Done True], s\<lparr>active_station := Some sample_station\<rparr>)
   \<and> fst (check_state (snd (register_address_check_change sample_station s))) = (Some sample_station, 1)"
  using check_can_lose_change [of "\<lparr>active_station = None, dirty = False, session_id = 0\<rparr>" "Address sample_station"]
  by (simp add: state_manager_defs Let_def)

end
