(* ===== verification/Station_Set.thy ===== *)
theory Station_Set
  imports Structures
begin

text \<open>
  \<open>src/receiver/station_set.hpp\<close>: the stations heard of in the last 20 seconds, ordered by name,
  and the one that is selected. The selection is an iterator into the set: erasing its station
  leaves it dangling, and every later use of it is undefined.
\<close>

definition max_inactive :: int where
  "max_inactive = 20 * 1000000000"

record station_set =
  preferred_station_name :: "string option"
  stations :: "station list"
  selected_station :: "string iter"

definition station_set_init :: "string option \<Rightarrow> station_set" where
  "station_set_init preferred =
     \<lparr>preferred_station_name = preferred, stations = [], selected_station = End\<rparr>"

text \<open>Erasing the element with a key: an iterator at that element dangles afterwards.\<close>

definition erase_station :: "string \<Rightarrow> station_set \<Rightarrow> station_set" where
  "erase_station k ss =
     (if lookup st_name (stations ss) k = None then ss
      else ss\<lparr>stations := erase st_name k (stations ss),
              selected_station := (if selected_station ss = At k then Dangling else selected_station ss)\<rparr>)"

text \<open>The two statements that move the selection forward: past the last station to the first.\<close>

definition move_up :: "station_set \<Rightarrow> station_set result" where
  "move_up ss =
     and_then (iter_eq (selected_station ss) End) (\<lambda>at_end.
     and_then (if at_end then Inr (selected_station ss)
               else incr st_name (stations ss) (selected_station ss)) (\<lambda>it.
     and_then (iter_eq it End) (\<lambda>at_end2.
     Inr (ss\<lparr>selected_station := (if at_end2 then begin_of st_name (stations ss) else it)\<rparr>))))"

definition move_down :: "station_set \<Rightarrow> station_set result" where
  "move_down ss =
     (let first = begin_of st_name (stations ss) in
     and_then (iter_eq (selected_station ss) first) (\<lambda>at_first.
     let it = (if at_first then End else selected_station ss) in
     and_then (iter_eq it first) (\<lambda>still_first.
     and_then (if still_first then Inr it else decr st_name (stations ss) it) (\<lambda>it2.
     Inr (ss\<lparr>selected_station := it2\<rparr>)))))"

definition inactive :: "time_point \<Rightarrow> station \<Rightarrow> bool" where
  "inactive now st \<longleftrightarrow> \<not> now - last_reply st \<le> max_inactive"

text \<open>The body of the loop for an inactive station at the iterator.\<close>

definition remove_station :: "station \<Rightarrow> station_set \<Rightarrow> station_set result" where
  "remove_station x ss =
     and_then (deref st_name (stations ss) (selected_station ss)) (\<lambda>sel.
     and_then (if same_station x sel then move_up ss else Inr ss) (\<lambda>ss1.
     Inr (erase_station (st_name x) ss1)))"

function remove_loop :: "time_point \<Rightarrow> string iter \<Rightarrow> station_set \<Rightarrow> station_set result" where
  "remove_loop now End ss = Inr ss"
| "remove_loop now Dangling ss = Inl (Undefined Invalid_Iterator)"
| "remove_loop now (At k) ss =
     (case lookup st_name (stations ss) k of
        None \<Rightarrow> Inl (Undefined Invalid_Iterator)
      | Some x \<Rightarrow>
          if \<not> inactive now x then remove_loop now (behind st_name (stations ss) k) ss
          else
            (case remove_station x ss of
               Inl e \<Rightarrow> Inl e
             | Inr ss1 \<Rightarrow> remove_loop now (behind st_name (stations ss) k) ss1))"
  by pat_completeness auto

lemma stations_move_up: "move_up ss = Inr ss1 \<Longrightarrow> stations ss1 = stations ss"
  by (auto simp: move_up_def and_then_ok_iff)

lemma stations_erase_station [simp]: "stations (erase_station k ss) = erase st_name k (stations ss)"
  by (simp add: erase_station_def erase_absent lookup_None_iff)

lemma stations_remove:
  assumes "remove_station x ss = Inr ss1"
  shows "stations ss1 = erase st_name (st_name x) (stations ss)"
  using assms by (auto simp: remove_station_def and_then_ok_iff stations_move_up split: if_splits)

termination remove_loop
proof (relation "measure (\<lambda>(_, it, ss). left st_name (stations ss) it)", goal_cases)
  case (2 now k ss x)
  from left_decreases [OF 2(1), of "stations ss"] show ?case by auto
next
  case (3 now k ss x ss1)
  from left_decreases [OF 3(1), of "stations ss1"] stations_remove [OF 3(3)]
    set_erase [of st_name "st_name x" "stations ss"]
  show ?case by auto
qed simp

definition remove_old_stations :: "time_point \<Rightarrow> station_set \<Rightarrow> station_set result" where
  "remove_old_stations now ss = remove_loop now (begin_of st_name (stations ss)) ss"

definition get_selected_station :: "station_set \<Rightarrow> station option result" where
  "get_selected_station ss =
     (if stations ss = [] then Inr None
      else map_sum id Some (deref st_name (stations ss) (selected_station ss)))"

definition update_get_selected ::
  "time_point \<Rightarrow> station \<Rightarrow> station_set \<Rightarrow> (station option \<times> station_set) result" where
  "update_get_selected now new_station ss =
     and_then (remove_old_stations now ss) (\<lambda>ss1.
     let erased = (if lookup st_name (stations ss1) (st_name new_station) = None then 0 else 1 :: nat);
         ss2 = erase_station (st_name new_station) ss1;
         ss3 = ss2\<lparr>stations := emplace st_name new_station (stations ss2)\<rparr>;
         new_it = At (st_name new_station)
     in and_then (iter_eq (selected_station ss3) End) (\<lambda>at_end.
        let ss4 = (if at_end then ss3\<lparr>selected_station := new_it\<rparr> else ss3);
            ss5 = (if preferred_station_name ss4 \<noteq> None
                      \<and> the (preferred_station_name ss4) = st_name new_station \<and> erased = 0
                   then ss4\<lparr>selected_station := new_it\<rparr> else ss4)
        in and_then (get_selected_station ss5) (\<lambda>sel. Inr (sel, ss5))))"

definition select_get_selected ::
  "time_point \<Rightarrow> menu_selection_update \<Rightarrow> station_set \<Rightarrow> (station option \<times> station_set) result" where
  "select_get_selected now msu ss =
     and_then (remove_old_stations now ss) (\<lambda>ss1.
     if stations ss1 = [] then and_then (get_selected_station ss1) (\<lambda>sel. Inr (sel, ss1))
     else
       and_then (if msu = UP then move_up ss1 else move_down ss1) (\<lambda>ss2.
       and_then (get_selected_station ss2) (\<lambda>sel. Inr (sel, ss2))))"

definition get_selected :: "time_point \<Rightarrow> station_set \<Rightarrow> (station option \<times> station_set) result" where
  "get_selected now ss =
     and_then (remove_old_stations now ss) (\<lambda>ss1.
     and_then (get_selected_station ss1) (\<lambda>sel. Inr (sel, ss1)))"

definition get_station_names :: "time_point \<Rightarrow> station_set \<Rightarrow> (string list \<times> station_set) result" where
  "get_station_names now ss =
     and_then (remove_old_stations now ss) (\<lambda>ss1. Inr (map st_name (stations ss1), ss1))"

subsection \<open>The invariant, and what removing inactive stations does\<close>

definition station_inv :: "station_set \<Rightarrow> bool" where [inv_defs]:
  "station_inv ss \<longleftrightarrow>
     ascending st_name (stations ss)
     \<and> (case selected_station ss of
          At k \<Rightarrow> k \<in> st_name ` set (stations ss)
        | _ \<Rightarrow> stations ss = [])"

text \<open>The station that takes over: the first active one from \<open>k\<close> on, or else the first active one.\<close>

definition heir :: "time_point \<Rightarrow> station list \<Rightarrow> string \<Rightarrow> string iter" where
  "heir now xs k =
     (case filter (\<lambda>y. k \<le> st_name y \<and> \<not> inactive now y) xs of
        y # _ \<Rightarrow> At (st_name y)
      | [] \<Rightarrow> (case filter (\<lambda>y. \<not> inactive now y) xs of y # _ \<Rightarrow> At (st_name y) | [] \<Rightarrow> Dangling))"

lemma deref_At: "lookup key xs k = Some x \<Longrightarrow> deref key xs (At k) = Inr x"
  by (simp add: deref_def)

lemma move_up_split:
  assumes "ascending st_name (xs @ x # ys)" "stations ss = xs @ x # ys"
    and "selected_station ss = At (st_name x)"
  shows "move_up ss = Inr (ss\<lparr>selected_station :=
    (if ys = [] then At (st_name (hd (xs @ [x]))) else At (st_name (hd ys)))\<rparr>)"
  using lookup_split [OF assms(1)] behind_split [OF assms(1)] assms(2,3)
  by (cases ys; cases xs) (simp_all add: move_up_def iter_eq_def incr_def begin_of_def)

lemma remove_station_other:
  assumes "ascending st_name (xs @ x # ys)" "stations ss = xs @ x # ys"
    and "selected_station ss = At k" "k \<noteq> st_name x" "k \<in> st_name ` set (xs @ x # ys)"
  shows "remove_station x ss = Inr (ss\<lparr>stations := xs @ ys\<rparr>)"
proof -
  obtain y where y: "lookup st_name (stations ss) k = Some y"
    using assms(2,5) lookup_None_iff [of st_name "stations ss" k] by auto
  then have "st_name y = k" by (rule lookup_SomeD [THEN conjunct2])
  then have "\<not> same_station x y" using assms(4) by (auto simp: same_station_def Let_def)
  then show ?thesis
    using y assms lookup_split [OF assms(1)] erase_split [OF assms(1)]
    by (simp add: remove_station_def deref_def erase_station_def)
qed

lemma remove_station_selected:
  assumes "ascending st_name (xs @ x # ys)" "stations ss = xs @ x # ys"
    and "selected_station ss = At (st_name x)"
  shows "remove_station x ss = Inr (ss\<lparr>stations := xs @ ys, selected_station :=
    (if ys = [] then if xs = [] then Dangling else At (st_name (hd xs)) else At (st_name (hd ys)))\<rparr>)"
proof -
  have "st_name (hd xs) \<noteq> st_name x" if "xs \<noteq> []"
    using that assms(1) by (cases xs) auto
  moreover have "st_name (hd ys) \<noteq> st_name x" if "ys \<noteq> []"
    using that assms(1) by (cases ys) (auto simp: ascending_append)
  ultimately show ?thesis
    using move_up_split [OF assms] lookup_split [OF assms(1)] erase_split [OF assms(1)] assms(2,3)
    by (auto simp: remove_station_def deref_def erase_station_def)
qed

lemma heir_drop:
  "inactive now x \<Longrightarrow> heir now (xs @ x # ys) k = heir now (xs @ ys) k"
  unfolding heir_def by (simp only: filter_append filter.simps not_True_eq_False simp_thms if_False)

lemma filter_from:
  assumes "ascending st_name (xs @ ys)" "ys \<noteq> [] \<Longrightarrow> k \<le> st_name (hd ys)"
    and "\<And>x. x \<in> set xs \<Longrightarrow> st_name x < k"
  shows "filter (\<lambda>y. k \<le> st_name y \<and> P y) (xs @ ys) = filter P ys"
proof -
  have "filter (\<lambda>y. k \<le> st_name y \<and> P y) xs = []"
    using assms(3) by (auto simp: filter_empty_conv not_le)
  moreover have "k \<le> st_name y" if "y \<in> set ys" for y
    using assms(1,2) that by (cases ys) (auto simp: ascending_append intro: order_trans less_imp_le)
  then have "filter (\<lambda>y. k \<le> st_name y \<and> P y) ys = filter P ys"
    by (intro filter_cong) auto
  ultimately show ?thesis by simp
qed

lemma heir_active:
  assumes "ascending st_name (xs @ x # ys)" "\<not> inactive now x"
  shows "heir now (xs @ x # ys) (st_name x) = At (st_name x)"
  using filter_from [OF assms(1), of "st_name x" "\<lambda>y. \<not> inactive now y"] assms
  by (simp add: heir_def ascending_append)

lemma heir_inactive:
  assumes "ascending st_name (xs @ x # ys)" "inactive now x" "list_all (\<lambda>x. \<not> inactive now x) xs"
  shows "heir now (xs @ x # ys) (st_name x) =
    (if ys = [] then if xs = [] then Dangling else At (st_name (hd xs)) else heir now (xs @ ys) (st_name (hd ys)))"
proof -
  have asc: "ascending st_name (xs @ ys)" using assms(1) by (simp add: ascending_append)
  have xs: "st_name z < st_name x" if "z \<in> set xs" for z
    using assms(1) that by (simp add: ascending_append)
  have hd: "st_name x < st_name (hd ys)" if "ys \<noteq> []"
    using assms(1) that by (cases ys) (auto simp: ascending_append)
  have keep: "filter (\<lambda>x. \<not> inactive now x) xs = xs"
    using assms(3) by (simp add: list_all_iff filter_id_conv)
  have here: "filter (\<lambda>y. st_name x \<le> st_name y \<and> \<not> inactive now y) (xs @ x # ys) = filter (\<lambda>y. \<not> inactive now y) ys"
    using filter_from [OF assms(1), of "st_name x" "\<lambda>y. \<not> inactive now y"] xs assms(2) by simp
  have there: "filter (\<lambda>y. st_name (hd ys) \<le> st_name y \<and> \<not> inactive now y) (xs @ ys)
      = filter (\<lambda>y. \<not> inactive now y) ys" if "ys \<noteq> []"
    by (rule filter_from [OF asc]) (use xs hd [OF that] in \<open>auto intro: less_trans\<close>)
  have all: "filter (\<lambda>y. \<not> inactive now y) (xs @ x # ys) = xs @ filter (\<lambda>y. \<not> inactive now y) ys"
      "filter (\<lambda>y. \<not> inactive now y) (xs @ ys) = xs @ filter (\<lambda>y. \<not> inactive now y) ys"
    using assms(2) keep by simp_all
  show ?thesis
  proof (cases "ys = []")
    case True
    then show ?thesis unfolding heir_def here all by (cases xs) simp_all
  next
    case False
    then show ?thesis unfolding heir_def here all there [OF False] by simp
  qed
qed

lemma remove_loop_spec:
  assumes "ascending st_name (xs @ ys)" "stations ss = xs @ ys" "selected_station ss = At k"
    and "k \<in> st_name ` set (xs @ ys)" "list_all (\<lambda>x. \<not> inactive now x) xs"
  shows "remove_loop now (begin_of st_name ys) ss =
    Inr (ss\<lparr>stations := xs @ filter (\<lambda>x. \<not> inactive now x) ys, selected_station := heir now (xs @ ys) k\<rparr>)"
  using assms
proof (induction ys arbitrary: xs ss k)
  case Nil
  then obtain x where "x \<in> set xs" "k = st_name x" by auto
  then obtain as bs where "xs = as @ x # bs" "\<not> inactive now x"
    using Nil.prems(5) by (auto simp: list_all_iff dest: split_list)
  then have "heir now xs k = At k"
    using heir_active [of as x bs now] Nil.prems(1) \<open>k = st_name x\<close> by simp
  with Nil show ?case by (simp add: begin_of_def)
next
  case (Cons y ys)
  note asc = Cons.prems(1)
  have asc': "ascending st_name ((xs @ [y]) @ ys)" "ascending st_name (xs @ ys)"
    using asc by (simp_all add: ascending_append)
  note facts = lookup_split [OF asc] behind_split [OF asc]
  consider "\<not> inactive now y" | "inactive now y" "k \<noteq> st_name y" | "inactive now y" "k = st_name y"
    by blast
  then show ?case
  proof cases
    case 1
    with Cons.IH [OF asc'(1), of ss k] Cons.prems facts show ?thesis
      by (simp add: begin_of_def [of st_name "y # ys"])
  next
    case 2
    have "remove_station y ss = Inr (ss\<lparr>stations := xs @ ys\<rparr>)"
      using remove_station_other [OF asc Cons.prems(2,3)] 2(2) Cons.prems(4) by simp
    with Cons.IH [OF asc'(2), of "ss\<lparr>stations := xs @ ys\<rparr>" k] 2 Cons.prems facts show ?thesis
      by (simp add: begin_of_def [of st_name "y # ys"] heir_drop)
  next
    case 3
    note removed = remove_station_selected [OF asc Cons.prems(2)] heir_inactive [OF asc 3(1) Cons.prems(5)]
    show ?thesis
    proof (cases "ys = []")
      case True
      with 3 removed Cons.prems(2,3) facts show ?thesis
        by (simp add: begin_of_def)
    next
      case False
      let ?ss = "ss\<lparr>stations := xs @ ys, selected_station := At (st_name (hd ys))\<rparr>"
      have "st_name (hd ys) \<in> st_name ` set (xs @ ys)" using False by simp
      with Cons.IH [OF asc'(2), of ?ss "st_name (hd ys)"] 3 removed Cons.prems False facts show ?thesis
        by (simp add: begin_of_def [of st_name "y # ys"])
    qed
  qed
qed


text \<open>What removing inactive stations comes to, in any well-formed state.\<close>

definition expire :: "time_point \<Rightarrow> station_set \<Rightarrow> station_set" where
  "expire now ss =
     ss\<lparr>stations := filter (\<lambda>x. \<not> inactive now x) (stations ss),
        selected_station := (case selected_station ss of At k \<Rightarrow> heir now (stations ss) k | it \<Rightarrow> it)\<rparr>"

lemma filter_hd: "filter P xs = y # ys \<Longrightarrow> y \<in> set xs \<and> P y"
  by (drule sym, drule Cons_eq_filterD) auto

lemma heir_cases:
  "(\<exists>y. heir now xs k = At (st_name y) \<and> y \<in> set xs \<and> \<not> inactive now y)
   \<or> (heir now xs k = Dangling \<and> filter (\<lambda>x. \<not> inactive now x) xs = [])"
proof (cases "filter (\<lambda>y. k \<le> st_name y \<and> \<not> inactive now y) xs")
  case (Cons y ys)
  from filter_hd [OF this] Cons show ?thesis by (simp add: heir_def) blast
next
  case Nil
  show ?thesis
  proof (cases "filter (\<lambda>y. \<not> inactive now y) xs")
    case (Cons y ys)
    from filter_hd [OF this] Cons Nil show ?thesis by (simp add: heir_def) blast
  next
    case Nil2: Nil
    with Nil show ?thesis by (simp add: heir_def)
  qed
qed

lemma remove_old_spec:
  assumes "station_inv ss"
  shows "remove_old_stations now ss = Inr (expire now ss)" and "station_inv (expire now ss)"
proof -
  have asc: "ascending st_name (stations ss)" using assms(1) by (simp add: station_inv_def)
  then have asc': "ascending st_name (filter P (stations ss))" for P
    unfolding ascending_def by (rule sorted_wrt_filter)
  show "remove_old_stations now ss = Inr (expire now ss)"
  proof (cases "selected_station ss")
    case (At k)
    with assms(1) asc remove_loop_spec [of "[]" "stations ss" ss k now] show ?thesis
      by (simp add: remove_old_stations_def expire_def station_inv_def)
  qed (use assms(1) in \<open>simp_all add: remove_old_stations_def expire_def station_inv_def begin_of_def\<close>)
  show "station_inv (expire now ss)"
  proof (cases "selected_station ss")
    case (At k)
    from heir_cases [of now "stations ss" k] asc' At show ?thesis
      by (elim disjE exE conjE) (simp_all add: expire_def station_inv_def image_iff, blast)
  qed (use assms(1) in \<open>simp_all add: expire_def station_inv_def\<close>)
qed

subsection \<open>The operations\<close>

lemma move_down_split:
  assumes "ascending st_name (xs @ x # ys)" "stations ss = xs @ x # ys"
    and "selected_station ss = At (st_name x)"
  shows "move_down ss = Inr (ss\<lparr>selected_station :=
    At (st_name (if xs = [] then last (x # ys) else last xs))\<rparr>)"
proof -
  have "st_name (hd xs) \<noteq> st_name x" if "xs \<noteq> []"
    using that assms(1) by (cases xs) auto
  then show ?thesis
    using lookup_split [OF assms(1)] filter_less_split [OF assms(1)] assms(2,3)
    by (cases xs) (simp_all add: move_down_def iter_eq_def decr_def begin_of_def last_of_def)
qed

text \<open>The position a move leads to, from position \<open>i\<close> of \<open>n\<close> stations.\<close>

definition next_position :: "menu_selection_update \<Rightarrow> nat \<Rightarrow> nat \<Rightarrow> nat" where
  "next_position msu n i = (case msu of UP \<Rightarrow> (i + 1) mod n | DOWN \<Rightarrow> (i + (n - 1)) mod n)"

lemma move_position:
  assumes "ascending st_name (stations ss)" "i < length (stations ss)"
    and "selected_station ss = At (st_name (stations ss ! i))"
  shows "(if msu = UP then move_up ss else move_down ss) =
    Inr (ss\<lparr>selected_station := At (st_name (stations ss ! next_position msu (length (stations ss)) i))\<rparr>)"
proof -
  let ?xs = "take i (stations ss)" and ?ys = "drop (Suc i) (stations ss)"
  have split: "stations ss = ?xs @ stations ss ! i # ?ys"
    by (rule id_take_nth_drop [OF assms(2)])
  then have asc: "ascending st_name (?xs @ stations ss ! i # ?ys)" using assms(1) by simp
  have up: "(if ?ys = [] then hd (?xs @ [stations ss ! i]) else hd ?ys)
      = stations ss ! (Suc i mod length (stations ss))"
    using assms(2) by (cases "Suc i = length (stations ss)")
      (auto simp: hd_drop_conv_nth hd_append hd_conv_nth nth_append)
  have down: "(if ?xs = [] then last (stations ss ! i # ?ys) else last ?xs)
      = stations ss ! ((i + (length (stations ss) - 1)) mod length (stations ss))"
proof (cases i)
    case 0
    with assms(2) show ?thesis
      by (auto simp: last_conv_nth Suc_diff_Suc numeral_2_eq_2)
  next
    case (Suc k)
    with assms(2) have "i + (length (stations ss) - 1) = k + length (stations ss)" by simp
    with Suc assms(2) have "(i + (length (stations ss) - 1)) mod length (stations ss) = k"
      by (simp only: mod_add_self2) simp
    with Suc assms(2) show ?thesis by (auto simp: last_conv_nth min_def)
  qed
  show ?thesis
    using move_up_split [OF asc split assms(3)] move_down_split [OF asc split assms(3)] up down
    by (cases msu) (simp_all add: next_position_def split: if_splits)
qed

lemma selected_position:
  assumes "station_inv ss" "stations ss \<noteq> []"
  shows "\<exists>i < length (stations ss). selected_station ss = At (st_name (stations ss ! i))"
  using assms by (auto simp: station_inv_def in_set_conv_nth image_iff split: iter.splits)

lemma get_selected_station_at:
  assumes "ascending st_name (stations ss)" "x \<in> set (stations ss)" "selected_station ss = At (st_name x)"
  shows "get_selected_station ss = Inr (Some x)"
  using assms lookup_ascending [OF assms(1), of "st_name x" x]
  by (auto simp: get_selected_station_def deref_def)

lemma select_spec:
  assumes "station_inv ss" "stations (expire now ss) \<noteq> []"
  shows "\<exists>i < length (stations (expire now ss)).
    selected_station (expire now ss) = At (st_name (stations (expire now ss) ! i))
    \<and> (\<forall>msu. let j = next_position msu (length (stations (expire now ss))) i;
           st = stations (expire now ss) ! j
       in select_get_selected now msu ss = Inr (Some st, (expire now ss)\<lparr>selected_station := At (st_name st)\<rparr>))"
proof -
  let ?ss = "expire now ss"
  note e = remove_old_spec [OF assms(1), of now]
  have asc: "ascending st_name (stations ?ss)" using e(2) by (simp add: station_inv_def)
  obtain i where i: "i < length (stations ?ss)" "selected_station ?ss = At (st_name (stations ?ss ! i))"
    using selected_position [OF e(2) assms(2)] by blast
  let ?st = "\<lambda>msu. stations ?ss ! next_position msu (length (stations ?ss)) i"
  have "next_position msu (length (stations ?ss)) i < length (stations ?ss)" for msu
    using assms(2) by (simp add: next_position_def split: menu_selection_update.split)
  then have "?st msu \<in> set (stations ?ss)" for msu by simp
  then have "get_selected_station (?ss\<lparr>selected_station := At (st_name (?st msu))\<rparr>) = Inr (Some (?st msu))" for msu
    using asc by (intro get_selected_station_at) simp_all
  then have "select_get_selected now msu ss = Inr (Some (?st msu), ?ss\<lparr>selected_station := At (st_name (?st msu))\<rparr>)" for msu
    using move_position [OF asc i, of msu] e(1) assms(2)
    by (simp add: select_get_selected_def)
  with i show ?thesis by (intro exI [of _ i]) (simp add: Let_def)
qed

text \<open>What a reply does to the stations and to the selection.\<close>

definition heard :: "station \<Rightarrow> station_set \<Rightarrow> station_set" where
  "heard st ss =
     ss\<lparr>stations := emplace st_name st (erase st_name (st_name st) (stations ss)),
        selected_station :=
          (if stations ss = []
              \<or> preferred_station_name ss = Some (st_name st) \<and> lookup st_name (stations ss) (st_name st) = None
           then At (st_name st) else selected_station ss)\<rparr>"

lemma lookup_heard:
  "ascending st_name (stations ss) \<Longrightarrow>
   lookup st_name (stations (heard st ss)) = (lookup st_name (stations ss))(st_name st \<mapsto> st)"
  by (simp add: heard_def fun_eq_iff lookup_emplace ascending_erase lookup_erase)

lemma station_inv_heard:
  assumes "station_inv ss"
  shows "station_inv (heard st ss)"
proof -
  have asc: "ascending st_name (stations ss)" using assms by (simp add: station_inv_def)
  have names: "k \<in> st_name ` set (stations (heard st ss)) \<longleftrightarrow> k = st_name st \<or> k \<in> st_name ` set (stations ss)" for k
    using lookup_heard [OF asc, of st] lookup_None_iff [of st_name _ k]
    by (metis fun_upd_apply option.distinct(1))
  have "ascending st_name (stations (heard st ss))"
    using asc by (simp add: heard_def ascending_emplace ascending_erase)
  with assms names [of "st_name st"] names show ?thesis
    by (auto simp: station_inv_def heard_def split: iter.splits)
qed

lemma update_spec:
  fixes now :: time_point
  assumes "station_inv ss"
  defines "ss1 \<equiv> expire now ss"
  shows "update_get_selected now st ss =
    (if selected_station ss1 = Dangling \<or> selected_station ss1 = At (st_name st)
     then Inl (Undefined Invalid_Iterator)
     else and_then (get_selected_station (heard st ss1)) (\<lambda>sel. Inr (sel, heard st ss1)))"
proof -
  note e = remove_old_spec [OF assms(1), of now, folded ss1_def]
  let ?absent = "lookup st_name (stations ss1) (st_name st) = None"
  have absent: "erase st_name (st_name st) (stations ss1) = stations ss1" if ?absent
    using that by (intro erase_absent) (simp add: lookup_None_iff)
  consider "selected_station ss1 = Dangling" | "selected_station ss1 = End" "stations ss1 = []"
    | "selected_station ss1 = At (st_name st)" "\<not> ?absent"
    | k where "selected_station ss1 = At k" "k \<noteq> st_name st" "stations ss1 \<noteq> []"
  proof (cases "selected_station ss1")
    case (At k)
    then have "k \<in> st_name ` set (stations ss1)" using e(2) by (simp add: station_inv_def)
    then have "lookup st_name (stations ss1) k \<noteq> None" "stations ss1 \<noteq> []"
      by (auto simp: lookup_None_iff)
    with that(3,4) At show thesis by blast
  qed (use e(2) that(1,2) in \<open>auto simp: station_inv_def\<close>)
  then show ?thesis
  proof cases
    case 1
    then show ?thesis
      by (simp add: update_get_selected_def e(1) Let_def erase_station_def iter_eq_def)
  next
    case 2
    then show ?thesis
      by (simp add: update_get_selected_def e(1) Let_def erase_station_def iter_eq_def heard_def)
  next
    case 3
    then show ?thesis
      by (auto simp: update_get_selected_def e(1) Let_def erase_station_def iter_eq_def)
  next
    case 4
    then show ?thesis
      using absent
      by (cases ss1; cases ?absent; cases "preferred_station_name ss1")
        (auto simp: update_get_selected_def e(1) Let_def erase_station_def iter_eq_def heard_def)
  qed
qed

lemma heard_selected:
  assumes "station_inv ss"
  shows "\<exists>sel. get_selected_station (heard st ss) = Inr (Some sel)
    \<and> selected_station (heard st ss) = At (st_name sel) \<and> sel \<in> set (stations (heard st ss))"
proof -
  have "lookup st_name (stations (heard st ss)) (st_name st) = Some st"
    using lookup_heard [of ss st] assms by (simp add: station_inv_def)
  then have "stations (heard st ss) \<noteq> []" by auto
  then obtain i where i: "i < length (stations (heard st ss))"
      "selected_station (heard st ss) = At (st_name (stations (heard st ss) ! i))"
    using selected_position [OF station_inv_heard [OF assms]] by blast
  moreover have "ascending st_name (stations (heard st ss))"
    using station_inv_heard [OF assms] by (simp add: station_inv_def)
  ultimately show ?thesis
    by (intro exI [of _ "stations (heard st ss) ! i"]) (simp add: get_selected_station_at)
qed


subsection \<open>Properties\<close>

text \<open>Removing the stations that have been silent for more than 20 seconds never fails in a
  well-formed state: it leaves exactly the active stations, in order; an active selected station
  stays selected, and of an inactive one the next active station in the circular order takes the
  place. When no station is left, the selection dangles.\<close>
lemma inactive_stations_removed:
  assumes "station_inv ss"
  shows "\<exists>ss'. remove_old_stations now ss = Inr ss' \<and> station_inv ss'
    \<and> stations ss' = filter (\<lambda>x. now - last_reply x \<le> 20000000000) (stations ss)
    \<and> selected_station ss' = (case selected_station ss of At k \<Rightarrow> heir now (stations ss) k | it \<Rightarrow> it)"
  using remove_old_spec [OF assms, of now] by (simp add: expire_def inactive_def max_inactive_def)

text \<open>Three stations, of which the middle one is selected and has been silent for 30 seconds.\<close>

definition station_at :: "string \<Rightarrow> time_point \<Rightarrow> station" where
  "station_at name t =
     \<lparr>st_name = name, ctrl_address = ''10.0.0.1'', ctrl_port = 35830, data_address = ''239.10.11.12'',
      st_data_port = 25830, last_reply = t\<rparr>"

lemma station_at_fields [simp]: "st_name (station_at n t) = n" "last_reply (station_at n t) = t"
  by (simp_all add: station_at_def)

definition sample_stations :: station_set where
  "sample_stations =
     \<lparr>preferred_station_name = None,
      stations = [station_at ''A'' 30000000000, station_at ''B'' 0, station_at ''C'' 30000000000],
      selected_station = At ''B''\<rparr>"

lemma sample_stations_ok: "station_inv sample_stations"
  by (simp add: station_inv_def sample_stations_def)

lemma sample_expire:
  "expire 10 sample_stations = sample_stations"
  "expire 30000000000 sample_stations =
     \<lparr>preferred_station_name = None, stations = [station_at ''A'' 30000000000, station_at ''C'' 30000000000],
      selected_station = At ''C''\<rparr>"
  by (simp_all add: expire_def sample_stations_def inactive_def max_inactive_def heir_def)

lemma inactive_stations_removed_example:
  "\<exists>ss'. remove_old_stations 30000000000 sample_stations = Inr ss' \<and> station_inv ss'
    \<and> map st_name (stations ss') = [''A'', ''C''] \<and> selected_station ss' = At ''C''"
  using inactive_stations_removed [OF sample_stations_ok, of 30000000000]
  by (auto simp: sample_stations_def heir_def inactive_def max_inactive_def)

text \<open>C17: a reply is entered under its name, replacing what was known of that station, and the call
  returns the selected station, which is the new one when it is the only one or when it is the
  preferred one and was not in the set. But the reply of the station that is selected is undefined:
  its element is erased under the iterator that selects it, and the iterator is used at once. The
  same holds for any reply after the last station has fallen silent.\<close>
theorem reply_updates_stations:
  fixes now :: time_point
  assumes "station_inv ss"
  defines "ss1 \<equiv> expire now ss"
  shows "if selected_station ss1 = Dangling \<or> selected_station ss1 = At (st_name st)
    then update_get_selected now st ss = Inl (Undefined Invalid_Iterator)
    else \<exists>sel ss'. update_get_selected now st ss = Inr (Some sel, ss') \<and> station_inv ss'
      \<and> lookup st_name (stations ss') = (lookup st_name (stations ss1))(st_name st \<mapsto> st)
      \<and> selected_station ss' = At (st_name sel) \<and> sel \<in> set (stations ss')
      \<and> selected_station ss' =
          (if stations ss1 = []
              \<or> preferred_station_name ss = Some (st_name st) \<and> lookup st_name (stations ss1) (st_name st) = None
           then At (st_name st) else selected_station ss1)"
proof -
  have inv: "station_inv ss1" unfolding ss1_def by (rule remove_old_spec(2) [OF assms(1)])
  then have asc: "ascending st_name (stations ss1)" by (simp add: station_inv_def)
  obtain sel where sel: "get_selected_station (heard st ss1) = Inr (Some sel)"
      "selected_station (heard st ss1) = At (st_name sel)" "sel \<in> set (stations (heard st ss1))"
    using heard_selected [OF inv] by blast
  have pref: "preferred_station_name ss1 = preferred_station_name ss"
    by (simp add: ss1_def expire_def)
  show ?thesis
  proof (cases "selected_station ss1 = Dangling \<or> selected_station ss1 = At (st_name st)")
    case True
    then show ?thesis using update_spec [OF assms(1), of now st, folded ss1_def] by simp
  next
    case False
    then have "update_get_selected now st ss = Inr (Some sel, heard st ss1)"
      using update_spec [OF assms(1), of now st, folded ss1_def] sel(1) by simp
    moreover have "selected_station (heard st ss1) = (if stations ss1 = []
        \<or> preferred_station_name ss = Some (st_name st) \<and> lookup st_name (stations ss1) (st_name st) = None
        then At (st_name st) else selected_station ss1)"
      by (simp add: heard_def pref)
    ultimately show ?thesis
      using False lookup_heard [OF asc, of st] station_inv_heard [OF inv, of st] sel(2,3) by metis
  qed
qed

theorem reply_updates_stations_witness:
  "update_get_selected 10 (station_at ''B'' 10) sample_stations = Inl (Undefined Invalid_Iterator)
   \<and> (\<exists>sel ss'. update_get_selected 10 (station_at ''D'' 10) sample_stations = Inr (Some sel, ss')
      \<and> st_name sel = ''B'')"
  using reply_updates_stations [OF sample_stations_ok, of 10 "station_at ''B'' 10"]
    reply_updates_stations [OF sample_stations_ok, of 10 "station_at ''D'' 10"]
  unfolding sample_expire(1) by (auto simp: sample_stations_def)

text \<open>C33: with any station left, a key press moves the selection by one position in the circular
  order of the active stations' names: UP to the next one (from the last to the first), DOWN to the
  previous one (from the first to the last), and returns the station it has moved to.\<close>
theorem selection_moves_around:
  fixes now :: time_point
  assumes "station_inv ss" "stations (expire now ss) \<noteq> []"
  shows "let sts = stations (expire now ss); n = length sts in
    \<exists>i < n. selected_station (expire now ss) = At (st_name (sts ! i))
      \<and> select_get_selected now UP ss =
          Inr (Some (sts ! ((i + 1) mod n)), (expire now ss)\<lparr>selected_station := At (st_name (sts ! ((i + 1) mod n)))\<rparr>)
      \<and> select_get_selected now DOWN ss =
          Inr (Some (sts ! ((i + (n - 1)) mod n)),
               (expire now ss)\<lparr>selected_station := At (st_name (sts ! ((i + (n - 1)) mod n)))\<rparr>)"
  using select_spec [OF assms] by (auto simp: Let_def next_position_def)

theorem selection_moves_around_witness:
  "\<exists>ss'. select_get_selected 10 UP sample_stations = Inr (Some (station_at ''C'' 30000000000), ss')
    \<and> (\<exists>ss''. select_get_selected 10 DOWN sample_stations = Inr (Some (station_at ''A'' 30000000000), ss''))"
proof -
  have three: "stations sample_stations \<noteq> []" "length (stations sample_stations) = 3"
    by (simp_all add: sample_stations_def)
  obtain i where i: "i < 3" "selected_station sample_stations = At (st_name (stations sample_stations ! i))"
      "\<exists>ss'. select_get_selected 10 UP sample_stations = Inr (Some (stations sample_stations ! ((i + 1) mod 3)), ss')"
      "\<exists>ss'. select_get_selected 10 DOWN sample_stations = Inr (Some (stations sample_stations ! ((i + 2) mod 3)), ss')"
    using selection_moves_around [OF sample_stations_ok, of 10] three
    unfolding sample_expire(1) Let_def by auto
  from i(1) have "i = 0 \<or> i = 1 \<or> i = 2" by linarith
  then have "i = 1"
    using i(2) by (elim disjE) (simp_all add: sample_stations_def)
  with i(3,4) show ?thesis by (simp add: sample_stations_def)
qed

text \<open>The menu's list of names is in ascending order and without duplicates, and lists exactly
  the active stations; so the receiver's sort of it changes nothing.\<close>
lemma names_sorted_distinct:
  assumes "station_inv ss"
  shows "\<exists>names ss'. get_station_names now ss = Inr (names, ss') \<and> station_inv ss'
    \<and> sorted names \<and> distinct names
    \<and> set names = st_name ` {x \<in> set (stations ss). now - last_reply x \<le> 20000000000}"
proof -
  have "ascending st_name (stations (expire now ss))"
    using remove_old_spec(2) [OF assms] by (simp add: station_inv_def)
  then have "sorted (map st_name (stations (expire now ss)))" "distinct (map st_name (stations (expire now ss)))"
    by (simp_all add: ascending_sorted ascending_distinct_keys)
  moreover have "get_station_names now ss = Inr (map st_name (stations (expire now ss)), expire now ss)"
    by (simp add: get_station_names_def remove_old_spec(1) [OF assms])
  ultimately show ?thesis
    using remove_old_spec(2) [OF assms, of now]
    by (auto simp: expire_def inactive_def max_inactive_def)
qed

lemma names_sorted_distinct_example:
  "\<exists>names ss'. get_station_names 30000000000 sample_stations = Inr (names, ss') \<and> sorted names
    \<and> distinct names \<and> set names = {''A'', ''C''}"
proof -
  have "st_name ` {x \<in> set (stations sample_stations). 30000000000 - last_reply x \<le> 20000000000} = {''A'', ''C''}"
    unfolding set_filter [symmetric] by (simp add: sample_stations_def)
  with names_sorted_distinct [OF sample_stations_ok, of 30000000000] show ?thesis by metis
qed

end
