(* ===== verification/Addresses.thy ===== *)
theory Addresses
  imports Structures
begin

text \<open>
  \<open>src/common/address_helpers.hpp\<close>: making a socket address of a text and a port. \<open>inet_aton\<close> is a
  parameter, a function from the text of an address.
\<close>

definition htons :: "host \<Rightarrow> in_port \<Rightarrow> in_port" where
  "htons h w = (case h of Little_Endian \<Rightarrow> push_bit 8 w OR drop_bit 8 w | Big_Endian \<Rightarrow> w)"

definition make_address :: "host \<Rightarrow> (string \<Rightarrow> u32 option) \<Rightarrow> string \<Rightarrow> in_port \<Rightarrow> sockaddr_in result" where
  "make_address h aton addr port =
     (case aton addr of
        None \<Rightarrow> Inl (Address_Exception addr)
      | Some a \<Rightarrow> Inr \<lparr>sin_port = htons h port, sin_addr = a\<rparr>)"

lemma htons_ntohs: "htons h (ntohs h w) = w"
proof (cases h)
  case Little_Endian
  have "push_bit 8 (push_bit 8 w OR drop_bit 8 w) OR drop_bit 8 (push_bit 8 w OR drop_bit 8 w) = w"
    by (rule bit_eqI) (auto simp: bit_simps dest: bit_imp_le_length)
  then show ?thesis by (simp add: Little_Endian htons_def ntohs_def)
qed (simp add: htons_def ntohs_def)

end
