(* ===== verification/Receiver_Socket.thy ===== *)
theory Receiver_Socket
  imports Addresses
begin

text \<open>
  \<open>src/receiver/data_socket.hpp\<close>: the socket that the receiver reads packets from. The system is a
  parameter: the results of the calls that a connection makes, and what a read returns. The record keeps,
  besides the members, the descriptors that have been opened and not closed, those closed although they
  were not open, and what has been set on the open one: the timeout, the group it has joined, the address
  it is bound to.
\<close>

subsection \<open>The data socket\<close>

text \<open>The results of the calls of \<open>connect\<close>: a descriptor, three return codes, and the text of the
  error if there is one.\<close>

record connect_calls =
  new_fd :: int
  membership_err :: int
  timeout_err :: int
  bind_err :: int
  error_text :: string

record data_socket =
  connected_station :: station
  timeout_in_ms :: int
  sock :: int
  rx_open :: "int list"
  rx_stale :: "int list"
  rx_usec :: int
  rx_group :: "u32 option"
  rx_local :: "sockaddr_in option"

definition data_socket_init :: "station \<Rightarrow> int \<Rightarrow> data_socket" where
  "data_socket_init unset socket_timeout_in_ms =
     \<lparr>connected_station = unset, timeout_in_ms = socket_timeout_in_ms, sock = -1, rx_open = [], rx_stale = [],
      rx_usec = 0, rx_group = None, rx_local = None\<rparr>"

definition close_fd :: "int \<Rightarrow> data_socket \<Rightarrow> data_socket" where
  "close_fd fd ds =
     (if fd \<in> set (rx_open ds) then ds\<lparr>rx_open := remove1 fd (rx_open ds)\<rparr>
      else ds\<lparr>rx_stale := rx_stale ds @ [fd]\<rparr>)"

definition rx_close_and_throw :: "connect_calls \<Rightarrow> data_socket \<Rightarrow> unit result \<times> data_socket" where
  "rx_close_and_throw os ds = (Inl (Socket_Exception (error_text os)), close_fd (sock ds) ds)"

definition data_connect ::
  "host \<Rightarrow> (string \<Rightarrow> u32 option) \<Rightarrow> connect_calls \<Rightarrow> station \<Rightarrow> data_socket \<Rightarrow> unit result \<times> data_socket" where
  "data_connect h aton os new_station ds =
     (if same_station new_station (connected_station ds) then (Inr (), ds)
      else
        let ds1 = (if 0 \<le> sock ds then close_fd (sock ds) ds else ds);
            ds2 = ds1\<lparr>sock := new_fd os\<rparr>
        in if sock ds2 < 0 then (Inl (Socket_Exception (error_text os)), ds2)
           else
             let ds3 = ds2\<lparr>rx_open := sock ds2 # rx_open ds2, rx_usec := 0, rx_group := None, rx_local := None\<rparr>
             in (case make_address h aton (data_address new_station) (st_data_port new_station) of
                   Inl e \<Rightarrow> (Inl e, ds3)
                 | Inr new_addr \<Rightarrow>
                     if membership_err os < 0 then rx_close_and_throw os ds3
                     else
                       let ds4 = ds3\<lparr>rx_group := Some (sin_addr new_addr)\<rparr>
                       in if timeout_err os < 0 then rx_close_and_throw os ds4
                          else
                            let ds5 = ds4\<lparr>rx_usec := 1000 * timeout_in_ms ds4\<rparr>
                            in if bind_err os < 0 then rx_close_and_throw os ds5
                               else (Inr (), ds5\<lparr>rx_local := Some new_addr, connected_station := new_station\<rparr>)))"

text \<open>The destructor.\<close>

definition data_socket_end :: "data_socket \<Rightarrow> data_socket" where
  "data_socket_end ds = (if 0 \<le> sock ds then close_fd (sock ds) ds else ds)"

text \<open>What reading a datagram gives: its bytes, nothing in time, or an error.\<close>

datatype received = Received msg_t | Timed_Out | Failed string

definition data_try_read :: "host \<Rightarrow> received \<Rightarrow> data_socket \<Rightarrow> data_msg option result" where
  "data_try_read h rcv ds =
     (if sock ds = -1 then Inr None
      else
        (case rcv of
           Failed e \<Rightarrow> Inl (Socket_Exception e)
         | Timed_Out \<Rightarrow> Inr None
         | Received raw \<Rightarrow> map_sum id Some (data_msg_raw h raw)))"

subsection \<open>What is open\<close>

text \<open>At most one descriptor is open, the one in \<open>sock\<close>.\<close>

definition rx_inv :: "data_socket \<Rightarrow> bool" where
  "rx_inv ds \<longleftrightarrow> rx_open ds = [] \<or> 0 \<le> sock ds \<and> rx_open ds = [sock ds]"

text \<open>The open socket has joined the group of the connected station and is bound to its address and port.\<close>

definition socket_tuned :: "host \<Rightarrow> (string \<Rightarrow> u32 option) \<Rightarrow> data_socket \<Rightarrow> bool" where
  "socket_tuned h aton ds \<longleftrightarrow>
     0 \<le> sock ds \<and> rx_open ds = [sock ds] \<and> rx_usec ds = 1000 * timeout_in_ms ds
     \<and> (\<exists>a. aton (data_address (connected_station ds)) = Some a \<and> rx_group ds = Some a
          \<and> rx_local ds = Some \<lparr>sin_port = htons h (st_data_port (connected_station ds)), sin_addr = a\<rparr>)"

lemma rx_inv_init: "rx_inv (data_socket_init unset ms)"
  by (simp add: rx_inv_def data_socket_init_def)

lemma close_fd_simps [simp]:
  "sock (close_fd fd ds) = sock ds" "connected_station (close_fd fd ds) = connected_station ds"
  "timeout_in_ms (close_fd fd ds) = timeout_in_ms ds"
  by (simp_all add: close_fd_def)

lemma close_sock:
  "rx_inv ds \<Longrightarrow> rx_open (if 0 \<le> sock ds then close_fd (sock ds) ds else ds) = []"
  by (auto simp: rx_inv_def close_fd_def)

lemma data_connect_inv: "rx_inv ds \<Longrightarrow> rx_inv (snd (data_connect h aton os st ds))"
  using close_sock [of ds]
  by (auto simp: data_connect_def rx_close_and_throw_def Let_def rx_inv_def close_fd_def split: sum.split)

text \<open>So the data socket never leaks a descriptor, also when connections fail.\<close>

lemma data_socket_closes: "rx_inv ds \<Longrightarrow> rx_open (data_socket_end ds) = []"
  by (simp add: data_socket_end_def close_sock)

lemma data_connect_ok:
  assumes "data_connect h aton os st ds = (Inr (), ds')"
  shows "same_station st (connected_station ds')"
    and "ds' = ds \<or> connected_station ds' = st \<and> 0 \<le> sock ds' \<and> (rx_inv ds \<longrightarrow> socket_tuned h aton ds')"
proof -
  define closed where "closed = (if 0 \<le> sock ds then close_fd (sock ds) ds else ds)"
  have "same_station st (connected_station ds')
    \<and> (ds' = ds \<or> connected_station ds' = st \<and> 0 \<le> sock ds' \<and> (rx_inv ds \<longrightarrow> socket_tuned h aton ds'))"
  proof (cases "same_station st (connected_station ds)")
    case True
    with assms show ?thesis by (simp add: data_connect_def)
  next
    case False
    note eq = assms [unfolded data_connect_def if_not_P [OF False] closed_def [symmetric] Let_def]
    then have ok: "0 \<le> new_fd os" "aton (data_address st) \<noteq> None"
      by (simp_all add: make_address_def split: if_splits option.splits)
    then obtain a where a: "aton (data_address st) = Some a" by blast
    have "ds' = closed\<lparr>sock := new_fd os, rx_open := new_fd os # rx_open closed, rx_group := Some a,
        rx_usec := 1000 * timeout_in_ms closed,
        rx_local := Some \<lparr>sin_port = htons h (st_data_port st), sin_addr = a\<rparr>, connected_station := st\<rparr>"
      using eq ok by (simp add: make_address_def a rx_close_and_throw_def split: if_splits)
    moreover have "rx_inv ds \<Longrightarrow> rx_open closed = []" unfolding closed_def by (rule close_sock)
    ultimately show ?thesis using ok(1) a by (simp add: socket_tuned_def same_station_def)
  qed
  then show "same_station st (connected_station ds')"
      "ds' = ds \<or> connected_station ds' = st \<and> 0 \<le> sock ds' \<and> (rx_inv ds \<longrightarrow> socket_tuned h aton ds')"
    by simp_all
qed

lemma data_connect_succeeds:
  assumes "aton (data_address st) \<noteq> None"
    and "0 \<le> new_fd os" "0 \<le> membership_err os" "0 \<le> timeout_err os" "0 \<le> bind_err os"
  obtains ds' where "data_connect h aton os st ds = (Inr (), ds')"
  using assms by (cases "same_station st (connected_station ds)") (auto simp: data_connect_def make_address_def Let_def)

text \<open>But a connection that fails after it has opened a descriptor closes it and keeps its number: it is closed
  once more at the next connection or at the end, when it may be another's. And the station of before is
  still taken for connected: connecting to it again does nothing.\<close>

lemma failed_connection_closed_twice:
  assumes "rx_inv ds" "\<not> same_station st (connected_station ds)" "aton (data_address st) \<noteq> None" "0 \<le> new_fd os"
    and "data_connect h aton os st ds = (Inl e, ds')"
  shows "rx_open ds' = [] \<and> rx_stale (data_socket_end ds') = rx_stale ds' @ [new_fd os]
    \<and> data_connect h aton os' (connected_station ds) ds' = (Inr (), ds')"
proof -
  have closed: "rx_open (if 0 \<le> sock ds then close_fd (sock ds) ds else ds) = []" by (rule close_sock [OF assms(1)])
  have "sock ds' = new_fd os" "rx_open ds' = []" "connected_station ds' = connected_station ds"
    using assms(2-5) closed
    by (auto simp: data_connect_def rx_close_and_throw_def make_address_def close_fd_def Let_def
        split: if_splits option.splits)
  with assms(4) show ?thesis by (simp add: data_socket_end_def close_fd_def data_connect_def same_station_def)
qed

subsection \<open>Properties\<close>

text \<open>Requests go back where the reply came from: if \<open>inet_aton\<close> reads the four decimal numbers
  that \<open>inet_ntoa\<close> writes for the sender's address, the address that the receiver makes of the
  station's entry is the one the reply was received from, on hosts of either byte order.\<close>
lemma station_address_round_trip:
  assumes "aton (inet_ntoa h (sin_addr sender_address)) = Some (sin_addr sender_address)"
    and "as_station h now msg sender_address = Inr st"
  shows "make_address h aton (ctrl_address st) (ctrl_port st) = Inr sender_address"
proof -
  obtain x where "get_reply_data msg = Inr x"
    using assms(2) by (cases "get_reply_data msg") (auto simp: as_station_def)
  then have "ctrl_address st = inet_ntoa h (sin_addr sender_address)"
      "ctrl_port st = ntohs h (sin_port sender_address)"
    using assms(2) by (auto simp: as_station_def split: prod.splits)
  then show ?thesis
    using assms(1) by (simp add: make_address_def htons_ntohs)
qed

lemma station_address_round_trip_example:
  "\<exists>st. as_station Little_Endian 5 (make_reply ''Test radio'' ''239.10.11.12'' 9999)
        \<lparr>sin_port = 63115, sin_addr = 16777226\<rparr> = Inr st
    \<and> make_address Little_Endian (\<lambda>s. if s = ''10.0.0.1'' then Some 16777226 else None)
        (ctrl_address st) (ctrl_port st) = Inr \<lparr>sin_port = 63115, sin_addr = 16777226\<rparr>"
proof -
  let ?addr = "\<lparr>sin_port = 63115, sin_addr = 16777226\<rparr>"
  obtain st where st: "as_station Little_Endian 5 (make_reply ''Test radio'' ''239.10.11.12'' 9999) ?addr = Inr st"
    using as_station_make_reply [OF sample_reply(1,2)] by blast
  show ?thesis
    using station_address_round_trip [OF _ st, of "\<lambda>s. if s = ''10.0.0.1'' then Some 16777226 else None"]
      sample_reply(3) st by simp
qed

end
