(* ===== verification/Retry.thy ===== *)
theory Retry
  imports Prelude
begin

text \<open>
  The loop that both kinds of socket send with: an attempt is made again and again until one does not
  throw a \<open>socket_exception\<close>. The results of the system's calls are an infinite sequence, an element for
  each attempt. \<open>None\<close> is a loop that does not end.
\<close>

partial_function (option) retry ::
  "('r \<Rightarrow> 's \<Rightarrow> unit result \<times> 's) \<Rightarrow> (nat \<Rightarrow> 'r) \<Rightarrow> 's \<Rightarrow> (unit result \<times> 's) option" where
  "retry attempt os s =
     (case attempt (os 0) s of
        (Inl (Socket_Exception e), s1) \<Rightarrow> retry attempt (\<lambda>n. os (Suc n)) s1
      | (r, s1) \<Rightarrow> Some (r, s1))"

definition socket_error :: "unit result \<Rightarrow> bool" where
  "socket_error r \<longleftrightarrow> (\<exists>e. r = Inl (Socket_Exception e))"

text \<open>The state after \<open>n\<close> attempts.\<close>

fun attempts :: "('r \<Rightarrow> 's \<Rightarrow> unit result \<times> 's) \<Rightarrow> (nat \<Rightarrow> 'r) \<Rightarrow> nat \<Rightarrow> 's \<Rightarrow> 's" where
  "attempts attempt os 0 s = s"
| "attempts attempt os (Suc n) s = attempts attempt (\<lambda>n. os (Suc n)) n (snd (attempt (os 0) s))"

definition fails_at :: "('r \<Rightarrow> 's \<Rightarrow> unit result \<times> 's) \<Rightarrow> (nat \<Rightarrow> 'r) \<Rightarrow> 's \<Rightarrow> nat \<Rightarrow> bool" where
  "fails_at attempt os s n \<longleftrightarrow> socket_error (fst (attempt (os n) (attempts attempt os n s)))"

lemma fails_at_simps [simp]:
  "fails_at attempt os s 0 = socket_error (fst (attempt (os 0) s))"
  "fails_at attempt os s (Suc n) = fails_at attempt (\<lambda>n. os (Suc n)) (snd (attempt (os 0) s)) n"
  by (simp_all add: fails_at_def)

lemma attempts_Suc: "attempts attempt os (Suc n) s = snd (attempt (os n) (attempts attempt os n s))"
proof (induction n arbitrary: os s)
  case (Suc n)
  from Suc.IH [of "\<lambda>n. os (Suc n)" "snd (attempt (os 0) s)"] show ?case by simp
qed simp

lemma retry_again:
  "socket_error (fst (attempt (os 0) s)) \<Longrightarrow> retry attempt os s = retry attempt (\<lambda>n. os (Suc n)) (snd (attempt (os 0) s))"
  by (subst retry.simps) (auto simp: socket_error_def split: prod.split)

lemma retry_stop: "\<not> socket_error (fst (attempt (os 0) s)) \<Longrightarrow> retry attempt os s = Some (attempt (os 0) s)"
  by (subst retry.simps) (auto simp: socket_error_def split: prod.split sum.split cpp_error.split)

lemma retry_ends:
  assumes "\<And>i. i < n \<Longrightarrow> fails_at attempt os s i" "\<not> fails_at attempt os s n"
  shows "retry attempt os s = Some (attempt (os n) (attempts attempt os n s))"
  using assms
proof (induction n arbitrary: os s)
  case 0
  then show ?case by (simp add: retry_stop)
next
  case (Suc n)
  have "fails_at attempt (\<lambda>n. os (Suc n)) (snd (attempt (os 0) s)) i" if "i < n" for i
    using Suc.prems(1) [of "Suc i"] that by simp
  with Suc.prems Suc.IH [of "\<lambda>n. os (Suc n)" "snd (attempt (os 0) s)"] Suc.prems(1) [of 0] show ?case
    by (simp add: retry_again)
qed

lemma retry_ended:
  assumes "retry attempt os s = Some x"
  shows "\<exists>n. \<not> fails_at attempt os s n"
proof (rule retry.raw_induct [where P = "\<lambda>attempt os s x. \<exists>n. \<not> fails_at attempt os s n", OF _ assms])
  fix f and attempt :: "'r \<Rightarrow> 's \<Rightarrow> unit result \<times> 's" and os s x
  assume IH: "\<And>attempt os s x. f attempt os s = Some x \<Longrightarrow> \<exists>n. \<not> fails_at attempt os s n"
    and eq: "(case attempt (os 0) s of
        (Inl (Socket_Exception e), s1) \<Rightarrow> f attempt (\<lambda>n. os (Suc n)) s1
      | (r, s1) \<Rightarrow> Some (r, s1)) = Some x"
  show "\<exists>n. \<not> fails_at attempt os s n"
  proof (cases "socket_error (fst (attempt (os 0) s))")
    case True
    then have "f attempt (\<lambda>n. os (Suc n)) (snd (attempt (os 0) s)) = Some x"
      using eq by (auto simp: socket_error_def split: prod.splits)
    from IH [OF this] obtain n where "\<not> fails_at attempt os s (Suc n)" by auto
    then show ?thesis ..
  next
    case False
    then have "\<not> fails_at attempt os s 0" by simp
    then show ?thesis ..
  qed
qed

text \<open>The loop ends exactly when some attempt does not fail, with what the first such attempt gives.\<close>

lemma retry_iff:
  "retry attempt os s = Some x \<longleftrightarrow>
     (\<exists>n. \<not> fails_at attempt os s n \<and> (\<forall>i<n. fails_at attempt os s i)
          \<and> x = attempt (os n) (attempts attempt os n s))"
proof
  assume eq: "retry attempt os s = Some x"
  from retry_ended [OF this] obtain n where "\<not> fails_at attempt os s n" ..
  then have n: "\<not> fails_at attempt os s (LEAST n. \<not> fails_at attempt os s n)"
      "\<And>i. i < (LEAST n. \<not> fails_at attempt os s n) \<Longrightarrow> fails_at attempt os s i"
    using LeastI [of "\<lambda>n. \<not> fails_at attempt os s n"] not_less_Least [of _ "\<lambda>n. \<not> fails_at attempt os s n"] by blast+
  with retry_ends [OF n(2,1)] eq show "\<exists>n. \<not> fails_at attempt os s n \<and> (\<forall>i<n. fails_at attempt os s i)
      \<and> x = attempt (os n) (attempts attempt os n s)"
    by auto
qed (auto dest: retry_ends [rotated])

lemma retry_None_iff: "retry attempt os s = None \<longleftrightarrow> (\<forall>n. fails_at attempt os s n)"
proof
  assume none: "retry attempt os s = None"
  show "\<forall>n. fails_at attempt os s n"
  proof
    fix n
    show "fails_at attempt os s n"
      by (induction n rule: less_induct) (use none retry_ends [of _ attempt os s] in fastforce)
  qed
next
  assume "\<forall>n. fails_at attempt os s n"
  then show "retry attempt os s = None" by (cases "retry attempt os s") (auto simp: retry_iff)
qed

subsection \<open>Sending datagrams\<close>

text \<open>
  What an attempt to send the datagram \<open>d\<close> promises, when the system's results are \<open>valid\<close> and for a
  socket in a state \<open>usable\<close> whose \<open>sent_log\<close> is what it has handed to the system: an attempt that ends
  normally has logged \<open>d\<close>, a failed one nothing or a part of \<open>d\<close>.
\<close>

locale datagram_sender =
  fixes attempt :: "'r \<Rightarrow> 's \<Rightarrow> unit result \<times> 's"
    and valid :: "'r \<Rightarrow> bool"
    and usable :: "'s \<Rightarrow> bool"
    and sent_log :: "'s \<Rightarrow> 'd list"
    and d :: 'd
    and part :: "'d \<Rightarrow> bool"
  assumes stays_usable: "usable s \<Longrightarrow> usable (snd (attempt r s))"
    and sent_ok: "valid r \<Longrightarrow> usable s \<Longrightarrow> attempt r s = (Inr (), s') \<Longrightarrow> sent_log s' = sent_log s @ [d]"
    and sent_error: "valid r \<Longrightarrow> usable s \<Longrightarrow> attempt r s = (Inl e, s') \<Longrightarrow>
      socket_error (Inl e) \<and> (sent_log s' = sent_log s \<or> (\<exists>p. part p \<and> sent_log s' = sent_log s @ [p]))"
begin

lemma attempts_usable: "usable s \<Longrightarrow> usable (attempts attempt os n s)"
  by (induction n) (simp_all add: attempts_Suc stays_usable del: attempts.simps(2))

lemma attempts_log:
  assumes "\<And>i. valid (os i)" "usable s" "\<And>i. i < n \<Longrightarrow> fails_at attempt os s i"
  shows "\<exists>ps. sent_log (attempts attempt os n s) = sent_log s @ ps \<and> list_all part ps"
  using assms(3)
proof (induction n)
  case (Suc n)
  then obtain ps where ps: "sent_log (attempts attempt os n s) = sent_log s @ ps" "list_all part ps" by auto
  obtain e s' where "attempt (os n) (attempts attempt os n s) = (Inl e, s')"
    using Suc.prems [of n] by (cases "attempt (os n) (attempts attempt os n s)") (auto simp: fails_at_def socket_error_def)
  with sent_error [OF assms(1) attempts_usable [OF assms(2)] this] ps show ?case
    by (auto simp: attempts_Suc simp del: attempts.simps)
qed simp

text \<open>If the loop ends, \<open>d\<close> has been sent last and once, and before it at most parts of it.\<close>

lemma retry_sends:
  assumes "\<And>i. valid (os i)" "usable s" "retry attempt os s = Some (r, s')"
  shows "r = Inr ()" "\<exists>ps. sent_log s' = sent_log s @ ps @ [d] \<and> list_all part ps"
proof -
  from assms(3) obtain n where n: "\<not> fails_at attempt os s n" "\<And>i. i < n \<Longrightarrow> fails_at attempt os s i"
      "attempt (os n) (attempts attempt os n s) = (r, s')"
    by (auto simp: retry_iff)
  note use = assms(1) attempts_usable [OF assms(2)]
  show r: "r = Inr ()"
    using n(1,3) sent_error [OF use, of n os n] by (cases r) (auto simp: fails_at_def)
  from attempts_log [OF assms(1,2) n(2)] sent_ok [OF use n(3) [unfolded r]]
  show "\<exists>ps. sent_log s' = sent_log s @ ps @ [d] \<and> list_all part ps"
    by auto
qed

text \<open>It ends as soon as the system lets one attempt succeed.\<close>

lemma retry_returns:
  assumes "\<And>i. valid (os i)" "usable s" "\<And>s. usable s \<Longrightarrow> fst (attempt (os n) s) = Inr ()"
  shows "\<exists>s' ps. retry attempt os s = Some (Inr (), s') \<and> sent_log s' = sent_log s @ ps @ [d] \<and> list_all part ps"
proof -
  have "\<not> fails_at attempt os s n"
    by (simp add: fails_at_def assms(3) [OF attempts_usable [OF assms(2)]] socket_error_def)
  then have "retry attempt os s \<noteq> None" unfolding retry_None_iff by blast
  then obtain x where x: "retry attempt os s = Some x" by blast
  with retry_sends [OF assms(1,2), where r = "fst x" and s' = "snd x"] show ?thesis by (cases x) auto
qed

end

end
