(* ===== verification/Ctrl_Socket.thy ===== *)
theory Ctrl_Socket
  imports Addresses Retry "HOL-Library.Sublist"
begin

text \<open>
  \<open>src/common/ctrl_socket.hpp\<close>: the socket for control messages, which both programs use. The results of
  the system's calls are arguments. The record keeps, besides the descriptor, what has been set on it,
  the descriptors that have been opened and not closed, and the datagrams handed to the system with
  their destinations.
\<close>

record ctrl_socket =
  ctl_sock :: int
  ctl_open :: "int list"
  ctl_usec :: int
  ctl_broadcast :: bool
  ctl_local :: "sockaddr_in option"
  ctl_sent :: "(sockaddr_in \<times> string) list"

text \<open>The results of the constructor's calls, in the order in which it makes them.\<close>

record ctrl_calls =
  ctl_new_fd :: int
  ctl_reuse_err :: int
  ctl_timeout_err :: int
  ctl_broadcast_err :: int
  ctl_ttl_err :: int
  ctl_bind_err :: int
  ctl_error :: string

definition close_and_throw :: "ctrl_calls \<Rightarrow> ctrl_socket \<Rightarrow> unit result \<times> ctrl_socket" where
  "close_and_throw os s =
     (Inl (Socket_Exception (ctl_error os)), s\<lparr>ctl_open := remove1 (ctl_sock s) (ctl_open s)\<rparr>)"

text \<open>The constructor, with the members it leaves behind also when it throws.\<close>

definition ctrl_socket_init ::
  "host \<Rightarrow> in_port \<Rightarrow> int \<Rightarrow> bool \<Rightarrow> bool \<Rightarrow> ctrl_calls \<Rightarrow> unit result \<times> ctrl_socket" where
  "ctrl_socket_init h local_port socket_timeout_in_ms enable_broadcast bind_local os =
     (let s = \<lparr>ctl_sock = ctl_new_fd os, ctl_open = [], ctl_usec = 0, ctl_broadcast = False,
               ctl_local = None, ctl_sent = []\<rparr>
      in if ctl_sock s < 0 then (Inl (Socket_Exception (ctl_error os)), s)
         else
           let s1 = s\<lparr>ctl_open := [ctl_sock s]\<rparr>
           in if ctl_reuse_err os < 0 then close_and_throw os s1
              else if ctl_timeout_err os < 0 then close_and_throw os s1
              else
                let s2 = s1\<lparr>ctl_usec := 1000 * socket_timeout_in_ms\<rparr>
                in if enable_broadcast \<and> ctl_broadcast_err os < 0 then close_and_throw os s2
                   else if enable_broadcast \<and> ctl_ttl_err os < 0 then close_and_throw os s2
                   else
                     let s3 = s2\<lparr>ctl_broadcast := enable_broadcast\<rparr>
                     in if bind_local then
                          if ctl_bind_err os < 0 then close_and_throw os s3
                          else (Inr (), s3\<lparr>ctl_local := Some \<lparr>sin_port = htons h local_port, sin_addr = 0\<rparr>\<rparr>)
                        else (Inr (), s3))"

datatype ctrl_received = Ctrl_Received string sockaddr_in | Ctrl_Timed_Out | Ctrl_Failed string

definition ctrl_try_read :: "ctrl_received \<Rightarrow> (ctrl_msg \<times> sockaddr_in) option result" where
  "ctrl_try_read rcv =
     (case rcv of
        Ctrl_Failed e \<Rightarrow> Inl (Socket_Exception e)
      | Ctrl_Timed_Out \<Rightarrow> Inr None
      | Ctrl_Received text sender_address \<Rightarrow> Inr (Some (\<lparr>msg_data = text\<rparr>, sender_address)))"

text \<open>What \<open>sendto\<close> returns: the length it has taken, and the text of an error.\<close>

type_synonym sendto_result = "int \<times> string"

definition send_to :: "sockaddr_in \<Rightarrow> ctrl_msg \<Rightarrow> sendto_result \<Rightarrow> ctrl_socket \<Rightarrow> unit result \<times> ctrl_socket" where
  "send_to destination msg os s =
     (let data_len = length (ctrl_sendable msg);
          snd_len = fst os
      in if snd_len < 0 then (Inl (Socket_Exception (snd os)), s)
         else
           let s1 = s\<lparr>ctl_sent := ctl_sent s @ [(destination, take (nat snd_len) (ctrl_sendable msg))]\<rparr>
           in if snd_len \<noteq> int data_len then (Inl (Socket_Exception ''Failed to send entire response''), s1)
              else (Inr (), s1))"

definition force_send_to ::
  "sockaddr_in \<Rightarrow> ctrl_msg \<Rightarrow> (nat \<Rightarrow> sendto_result) \<Rightarrow> ctrl_socket \<Rightarrow> (unit result \<times> ctrl_socket) option" where
  "force_send_to destination msg os s = retry (send_to destination msg) os s"

text \<open>The destructor.\<close>

definition ctrl_socket_end :: "ctrl_socket \<Rightarrow> ctrl_socket" where
  "ctrl_socket_end s = (if 0 \<le> ctl_sock s then s\<lparr>ctl_open := remove1 (ctl_sock s) (ctl_open s)\<rparr> else s)"

subsection \<open>Sending\<close>

interpretation ctrl_sender: datagram_sender
    "send_to destination msg" "\<lambda>os. fst os \<le> int (length (ctrl_sendable msg))" "\<lambda>_. True" ctl_sent
    "(destination, ctrl_sendable msg)" "\<lambda>(a, p). a = destination \<and> strict_prefix p (ctrl_sendable msg)"
  for destination msg
proof unfold_locales
  fix s s' and os :: sendto_result and e
  show "send_to destination msg os s = (Inr (), s') \<Longrightarrow>
      ctl_sent s' = ctl_sent s @ [(destination, ctrl_sendable msg)]"
    by (auto simp: send_to_def Let_def split: if_splits)
  assume len: "fst os \<le> int (length (ctrl_sendable msg))" and eq: "send_to destination msg os s = (Inl e, s')"
  have "strict_prefix (take (nat (fst os)) (ctrl_sendable msg)) (ctrl_sendable msg)"
    if "fst os \<noteq> int (length (ctrl_sendable msg))" "\<not> fst os < 0"
  proof -
    have "length (take (nat (fst os)) (ctrl_sendable msg)) \<noteq> length (ctrl_sendable msg)"
      using len that by auto
    then show ?thesis by (metis strict_prefix_def take_is_prefix)
  qed
  with eq show "socket_error (Inl e) \<and> (ctl_sent s' = ctl_sent s
      \<or> (\<exists>p. (case p of (a, p) \<Rightarrow> a = destination \<and> strict_prefix p (ctrl_sendable msg))
             \<and> ctl_sent s' = ctl_sent s @ [p]))"
    by (auto simp: send_to_def socket_error_def Let_def split: if_splits)
qed simp

subsection \<open>Properties\<close>

lemma ctrl_socket_init_open:
  "ctrl_socket_init h local_port ms enable_broadcast bind_local os = (r, s) \<Longrightarrow>
     ctl_open s = (if r = Inr () then [ctl_sock s] else [])
     \<and> (r = Inr () \<longrightarrow> 0 \<le> ctl_sock s \<and> ctl_broadcast s = enable_broadcast \<and> ctl_usec s = 1000 * ms
          \<and> ctl_local s = (if bind_local then Some \<lparr>sin_port = htons h local_port, sin_addr = 0\<rparr> else None))
     \<and> ctl_sent s = []"
  by (auto simp: ctrl_socket_init_def close_and_throw_def Let_def split: if_splits)

text \<open>So a control socket never leaks its descriptor: neither when its constructor throws nor at its end.\<close>

lemma ctrl_socket_closes:
  "ctrl_socket_init h local_port ms enable_broadcast bind_local os = (r, s) \<Longrightarrow>
     ctl_open (if r = Inr () then ctrl_socket_end s else s) = []"
  using ctrl_socket_init_open [of h local_port ms enable_broadcast bind_local os r s]
  by (simp add: ctrl_socket_end_def)

text \<open>C30: sending a control message by force ends exactly when the system accepts some attempt; then
  the message has been sent whole to its destination, once and last, and an attempt before can at
  most have sent a part of it.\<close>
theorem force_send_to_ends_iff:
  assumes "\<And>i. fst (os i) \<le> int (length (ctrl_sendable msg))"
  shows "case force_send_to destination msg os s of
      None \<Rightarrow> \<nexists>n. fst (os n) = int (length (ctrl_sendable msg))
    | Some (r, s') \<Rightarrow> (\<exists>n. fst (os n) = int (length (ctrl_sendable msg))) \<and> r = Inr ()
        \<and> (\<exists>ps. ctl_sent s' = ctl_sent s @ ps @ [(destination, ctrl_sendable msg)]
               \<and> list_all (\<lambda>(a, p). a = destination \<and> strict_prefix p (ctrl_sendable msg)) ps)"
proof -
  have "fails_at (send_to destination msg) os s n \<longleftrightarrow> fst (os n) \<noteq> int (length (ctrl_sendable msg))" for n
    by (auto simp: fails_at_def send_to_def socket_error_def Let_def)
  then have none: "force_send_to destination msg os s = None \<longleftrightarrow> (\<forall>n. fst (os n) \<noteq> int (length (ctrl_sendable msg)))"
    by (simp add: force_send_to_def retry_None_iff)
  show ?thesis
  proof (cases "force_send_to destination msg os s")
    case None
    with none show ?thesis by simp
  next
    case (Some x)
    then have "\<exists>n. fst (os n) = int (length (ctrl_sendable msg))" using none by auto
    moreover from Some have "retry (send_to destination msg) os s = Some (fst x, snd x)"
      by (simp add: force_send_to_def)
    note ctrl_sender.retry_sends [OF assms _ this]
    ultimately show ?thesis using Some by (cases x) simp
  qed
qed

text \<open>Two attempts fail, the second after five bytes.\<close>

definition sample_ctrl :: ctrl_socket where
  "sample_ctrl = \<lparr>ctl_sock = 3, ctl_open = [3], ctl_usec = 500000, ctl_broadcast = True, ctl_local = None, ctl_sent = []\<rparr>"

definition sample_results :: "nat \<Rightarrow> sendto_result" where
  "sample_results i = (if i = 0 then -1 else if i = 1 then 5 else 19, ''Network is unreachable'')"

theorem force_send_to_ends_iff_witness:
  "\<exists>s' ps. force_send_to \<lparr>sin_port = 1, sin_addr = 2\<rparr> make_lookup sample_results sample_ctrl = Some (Inr (), s')
    \<and> ctl_sent s' = ps @ [(\<lparr>sin_port = 1, sin_addr = 2\<rparr>, ctrl_sendable make_lookup)]"
proof -
  have len: "length (ctrl_sendable make_lookup) = 19"
    by (simp add: ctrl_sendable_def make_lookup_def lookup_msg_key_def)
  have "fst (sample_results i) \<le> int (length (ctrl_sendable make_lookup))" for i
    unfolding len by (simp add: sample_results_def)
  moreover have "fst (sample_results 2) = int (length (ctrl_sendable make_lookup))"
    unfolding len by (simp add: sample_results_def)
  ultimately show ?thesis
    using force_send_to_ends_iff [where os = sample_results and msg = make_lookup and s = sample_ctrl
        and destination = "\<lparr>sin_port = 1, sin_addr = 2\<rparr>"]
    by (fastforce simp: sample_ctrl_def split: option.splits)
qed

end
