(* ===== verification/Ui_Manager.thy ===== *)
theory Ui_Manager
  imports Structures
begin

text \<open>
  \<open>src/receiver/ui_manager.hpp\<close>: the menu's text, the keys, and the table of connected telnet clients.
  What the system returns (of \<open>poll\<close>, \<open>accept\<close>, \<open>write\<close> and \<open>read\<close>) is a parameter of each call; the
  record keeps, besides the members, the descriptors that have been opened and not closed, and a log of
  the texts written to clients. The table has \<open>MAX_UI_CLIENT_CONNECTIONS\<close> entries, of
  which the first is the listening socket.
\<close>

subsection \<open>Texts and keys\<close>

definition telnet_mode :: string where
  "telnet_mode = [CHR 0xFF, CHR 0xFD, CHR 0x22, CHR 0xFF, CHR 0xFB, CHR 0x01]"

definition clear_terminal :: string where
  "clear_terminal = CHR 0x1B # ''[2J'' @ CHR 0x1B # ''[0;0H''"

definition title :: string where
  "title = ''  SIK Radio''"

definition hr :: string where
  "hr = replicate 72 CHR ''-''"

definition station_prefix :: string where
  "station_prefix = ''    ''"

definition active_station_prefix :: string where
  "active_station_prefix = ''  > ''"

definition telnet_endl :: string where
  "telnet_endl = [CHR 0x0D, CHR 0x0A]"

fun station_lines :: "string list \<Rightarrow> string option \<Rightarrow> string" where
  "station_lines [] selected = []"
| "station_lines (name # names) selected =
     (if selected \<noteq> None \<and> name = the selected then active_station_prefix else station_prefix)
     @ name @ telnet_endl @ station_lines names selected"

definition parse_stations :: "string list \<Rightarrow> string option \<Rightarrow> string" where
  "parse_stations sts selected =
     hr @ telnet_endl @ title @ telnet_endl @ hr @ telnet_endl @ station_lines sts selected @ hr @ telnet_endl"

definition parse_selection_update :: "string \<Rightarrow> menu_selection_update option" where
  "parse_selection_update buf =
     (if length buf \<noteq> 3 then None
      else if buf ! 0 \<noteq> CHR 0x1B \<or> buf ! 1 \<noteq> CHR 0x5B then None
      else if buf ! 2 = CHR ''B'' then Some UP
      else if buf ! 2 = CHR ''A'' then Some DOWN
      else None)"

subsection \<open>The table of clients\<close>

record ui_manager =
  ui_port :: in_port
  poll_timeout_in_ms :: int
  fds :: "int list"
  revents :: "bool list"
  active_menu :: string
  ui_open :: "int list"
  written :: "(int \<times> string) list"

record ui_calls =
  poll_err :: int
  ready :: "bool list"
  accepted :: int
  write_count :: "int \<Rightarrow> string \<Rightarrow> int"
  read_result :: "int \<Rightarrow> string option"
  ui_error :: string

text \<open>The members once the constructor has stored the listening socket.\<close>

definition ui_table :: "nat \<Rightarrow> in_port \<Rightarrow> int \<Rightarrow> int \<Rightarrow> ui_manager" where
  "ui_table max_clients port poll_timeout sock_fd =
     \<lparr>ui_port = port, poll_timeout_in_ms = poll_timeout,
      fds = (replicate max_clients (-1))[0 := sock_fd], revents = replicate max_clients False,
      active_menu = parse_stations [] None, ui_open = [sock_fd], written = []\<rparr>"

text \<open>The results of the constructor's calls, in the order in which it makes them.\<close>

record ui_setup =
  ui_new_fd :: int
  ui_reuse_err :: int
  ui_bind_err :: int
  ui_listen_err :: int
  ui_setup_error :: string

definition ui_init :: "nat \<Rightarrow> in_port \<Rightarrow> int \<Rightarrow> ui_setup \<Rightarrow> ui_manager result" where
  "ui_init max_clients port poll_timeout os =
     (if ui_new_fd os < 0 \<or> ui_reuse_err os < 0 \<or> ui_bind_err os < 0 \<or> ui_listen_err os < 0
      then Inl (Socket_Exception (ui_setup_error os))
      else Inr (ui_table max_clients port poll_timeout (ui_new_fd os)))"

definition throw_safely :: "ui_calls \<Rightarrow> int \<Rightarrow> ui_manager \<Rightarrow> 'a result \<times> ui_manager" where
  "throw_safely os sock_to_close u =
     (Inl (Socket_Exception (ui_error os)),
      if 0 \<le> sock_to_close then u\<lparr>ui_open := remove1 sock_to_close (ui_open u)\<rparr> else u)"

text \<open>\<open>write_count\<close>: how much of the text \<open>write\<close> takes, or an error. What it takes has been written, also
  when it is not all.\<close>

definition send_string :: "ui_calls \<Rightarrow> int \<Rightarrow> string \<Rightarrow> ui_manager \<Rightarrow> unit result \<times> ui_manager" where
  "send_string os fd command u =
     (let err = write_count os fd command;
          u1 = (if err < 0 then u else u\<lparr>written := written u @ [(fd, take (nat err) command)]\<rparr>)
      in if err \<noteq> int (length command) then throw_safely os fd u1 else (Inr (), u1))"

text \<open>\<open>read_result\<close>: the bytes read (none at the end of the stream), or an error.\<close>

definition read_string :: "ui_calls \<Rightarrow> int \<Rightarrow> ui_manager \<Rightarrow> string option result \<times> ui_manager" where
  "read_string os fd u =
     (case read_result os fd of
        None \<Rightarrow> throw_safely os fd u
      | Some text \<Rightarrow> (Inr (if text = [] then None else Some text), u))"

text \<open>Several texts in turn; a client for which one fails is taken from the table.\<close>

fun send_strings :: "ui_calls \<Rightarrow> int \<Rightarrow> string list \<Rightarrow> ui_manager \<Rightarrow> unit result \<times> ui_manager" where
  "send_strings os fd [] u = (Inr (), u)"
| "send_strings os fd (t # ts) u =
     (case send_string os fd t u of
        (Inl e, u1) \<Rightarrow> (Inl e, u1)
      | (Inr _, u1) \<Rightarrow> send_strings os fd ts u1)"

definition send_to_client :: "ui_calls \<Rightarrow> nat \<Rightarrow> string list \<Rightarrow> ui_manager \<Rightarrow> ui_manager" where
  "send_to_client os i ts u =
     (case send_strings os (fds u ! i) ts u of
        (Inl _, u1) \<Rightarrow> u1\<lparr>fds := (fds u1)[i := -1]\<rparr>
      | (Inr _, u1) \<Rightarrow> u1)"

definition clear_revents :: "ui_manager \<Rightarrow> ui_manager" where
  "clear_revents u = u\<lparr>revents := replicate (length (fds u)) False\<rparr>"

text \<open>An exception of this one leaves the thread, whose state is dropped then.\<close>

definition check_new_clients :: "ui_calls \<Rightarrow> ui_manager \<Rightarrow> ui_manager result" where
  "check_new_clients os u =
     (if poll_err os < 0 then fst (throw_safely os (fds u ! 0) u)
      else
        let u1 = u\<lparr>revents := ready os\<rparr>
        in if \<not> revents u1 ! 0 then Inr u1
           else if accepted os < 0 then fst (throw_safely os (fds u1 ! 0) u1)
           else
             let u2 = u1\<lparr>ui_open := accepted os # ui_open u1\<rparr>
             in (case find (\<lambda>i. fds u2 ! i < 0) [1..<length (fds u2)] of
                   None \<Rightarrow> Inr u2
                 | Some i \<Rightarrow>
                     Inr (send_to_client os i [telnet_mode, clear_terminal, active_menu u2]
                            (u2\<lparr>fds := (fds u2)[i := accepted os]\<rparr>))))"

fun send_to_all :: "ui_calls \<Rightarrow> string \<Rightarrow> nat list \<Rightarrow> ui_manager \<Rightarrow> ui_manager" where
  "send_to_all os menu [] u = u"
| "send_to_all os menu (i # is) u =
     send_to_all os menu is (if fds u ! i < 0 then u else send_to_client os i [clear_terminal, menu] u)"

definition send_menu :: "ui_calls \<Rightarrow> string list \<Rightarrow> string option \<Rightarrow> ui_manager \<Rightarrow> ui_manager result" where
  "send_menu os sts selected u =
     and_then (check_new_clients os (clear_revents u)) (\<lambda>u1.
     let new_menu = parse_stations sts selected
     in if new_menu = active_menu u1 then Inr u1
        else Inr ((send_to_all os new_menu [1..<length (fds u1)] u1)\<lparr>active_menu := new_menu\<rparr>))"

fun read_clients :: "ui_calls \<Rightarrow> nat list \<Rightarrow> ui_manager \<Rightarrow> menu_selection_update option \<times> ui_manager" where
  "read_clients os [] u = (None, u)"
| "read_clients os (i # is) u =
     (if fds u ! i < 0 then read_clients os is u
      else if \<not> revents u ! i then read_clients os is u
      else
        (case read_string os (fds u ! i) u of
           (Inl e, u1) \<Rightarrow> read_clients os is (u1\<lparr>fds := (fds u1)[i := -1]\<rparr>)
         | (Inr None, u1) \<Rightarrow> read_clients os is u1
         | (Inr (Some text), u1) \<Rightarrow> (parse_selection_update text, u1)))"

definition get_update :: "ui_calls \<Rightarrow> ui_manager \<Rightarrow> (menu_selection_update option \<times> ui_manager) result" where
  "get_update os u =
     and_then (check_new_clients os (clear_revents u)) (\<lambda>u1.
     Inr (read_clients os [1..<length (fds u1)] u1))"

subsection \<open>What clients see\<close>

definition last_text :: "int \<Rightarrow> ui_manager \<Rightarrow> string option" where
  "last_text fd u = map_option snd (find (\<lambda>w. fst w = fd) (rev (written u)))"

text \<open>The table's descriptors are distinct, and every client has last been sent the active menu.\<close>

definition own_fds :: "ui_manager \<Rightarrow> bool" where
  "own_fds u \<longleftrightarrow>
     (\<forall>i < length (fds u). \<forall>j < length (fds u). i \<noteq> j \<longrightarrow> 0 \<le> fds u ! i \<longrightarrow> fds u ! i \<noteq> fds u ! j)"

definition shows_text :: "string \<Rightarrow> ui_manager \<Rightarrow> nat \<Rightarrow> bool" where
  "shows_text t u i \<longleftrightarrow> (0 \<le> fds u ! i \<longrightarrow> last_text (fds u ! i) u = Some t)"

text \<open>All connections in the table are open; others that are open are lost.\<close>

definition own_open :: "ui_manager \<Rightarrow> bool" where
  "own_open u \<longleftrightarrow> distinct (ui_open u) \<and> (\<forall>fd \<in> set (ui_open u). 0 \<le> fd)
     \<and> (\<forall>fd \<in> set (fds u). 0 \<le> fd \<longrightarrow> fd \<in> set (ui_open u))"

definition lost :: "ui_manager \<Rightarrow> int set" where
  "lost u = set (ui_open u) - set (fds u)"

definition ui_inv :: "ui_manager \<Rightarrow> bool" where [inv_defs]:
  "ui_inv u \<longleftrightarrow> own_fds u \<and> own_open u \<and> (\<forall>i < length (fds u). 0 < i \<longrightarrow> shows_text (active_menu u) u i)"

lemma own_fdsD:
  "own_fds u \<Longrightarrow> 0 \<le> fds u ! i \<Longrightarrow> i < length (fds u) \<Longrightarrow> j < length (fds u) \<Longrightarrow> j \<noteq> i \<Longrightarrow> fds u ! j \<noteq> fds u ! i"
  unfolding own_fds_def by metis

lemma own_fds_update:
  assumes "own_fds u" "0 \<le> fd \<Longrightarrow> fd \<notin> set (fds u)"
  shows "own_fds (u\<lparr>fds := (fds u)[i := fd]\<rparr>)"
  unfolding own_fds_def
proof (intro allI impI)
  let ?fds = "fds (u\<lparr>fds := (fds u)[i := fd]\<rparr>)"
  fix j k assume jk: "j < length ?fds" "k < length ?fds" "j \<noteq> k" "0 \<le> ?fds ! j"
  have "fds u ! m \<noteq> fd" if "0 \<le> fd" "m < length (fds u)" for m
    using assms(2) that nth_mem [OF that(2)] by auto
  with jk own_fdsD [OF assms(1), of j k] show "?fds ! j \<noteq> ?fds ! k"
    by (cases "i = j"; cases "i = k") (auto simp: nth_list_update)
qed

lemma last_text_snoc:
  "last_text fd (u\<lparr>written := written u @ [(fd', t)]\<rparr>) = (if fd = fd' then Some t else last_text fd u)"
  by (simp add: last_text_def)

lemma last_text_simps [simp]:
  "last_text fd (u\<lparr>fds := x\<rparr>) = last_text fd u" "last_text fd (u\<lparr>ui_open := y\<rparr>) = last_text fd u"
  by (simp_all add: last_text_def)

text \<open>A text that is sent, to a client that stays or is closed.\<close>

lemma send_string_cases:
  assumes "send_string os fd t u = (res, u')" "0 \<le> fd"
  obtains (sent) "res = Inr ()" "u' = u\<lparr>written := written u @ [(fd, t)]\<rparr>"
    | (closed) e w where "res = Inl e" "u' = u\<lparr>written := written u @ w, ui_open := remove1 fd (ui_open u)\<rparr>"
        "fst ` set w \<subseteq> {fd}"
proof (cases "write_count os fd t = int (length t)")
  case True
  with assms(1) sent show thesis by (auto simp: send_string_def Let_def)
next
  case False
  show thesis
  proof (rule closed)
    show "res = Inl (Socket_Exception (ui_error os))"
      using assms(1) False by (auto simp: send_string_def throw_safely_def Let_def)
    let ?w = "if write_count os fd t < 0 then [] else [(fd, take (nat (write_count os fd t)) t)]"
    show "u' = u\<lparr>written := written u @ ?w, ui_open := remove1 fd (ui_open u)\<rparr>"
      using assms False by (auto simp: send_string_def throw_safely_def Let_def)
    show "fst ` set ?w \<subseteq> {fd}" by simp
  qed
qed

lemma last_text_others:
  "written v = written u @ w \<Longrightarrow> fst ` set w \<subseteq> {fd} \<Longrightarrow> fd' \<noteq> fd \<Longrightarrow> last_text fd' v = last_text fd' u"
proof (induction w arbitrary: v rule: rev_induct)
  case (snoc x w)
  then show ?case using snoc.IH [of "v\<lparr>written := written u @ w\<rparr>"] by (auto simp: last_text_def)
qed (simp add: last_text_def)

lemma send_strings_spec:
  assumes "send_strings os fd ts u = (res, u')" "0 \<le> fd"
  shows "fds u' = fds u \<and> active_menu u' = active_menu u \<and> revents u' = revents u
    \<and> (fd' \<noteq> fd \<longrightarrow> last_text fd' u' = last_text fd' u)
    \<and> (res = Inr () \<longrightarrow> ts \<noteq> [] \<longrightarrow> last_text fd u' = Some (last ts))
    \<and> ui_open u' = (if res = Inr () then ui_open u else remove1 fd (ui_open u))"
  using assms(1)
proof (induction ts arbitrary: u)
  case (Cons t ts)
  obtain res1 u1 where first: "send_string os fd t u = (res1, u1)" by fastforce
  from first assms(2) show ?case
  proof (cases rule: send_string_cases)
    case sent
    with Cons.prems first have "send_strings os fd ts u1 = (res, u')" by simp
    from Cons.IH [OF this] this show ?thesis by (cases "ts = []") (auto simp: sent last_text_snoc)
  next
    case (closed e w)
    with Cons.prems first have "res = Inl e" "u' = u1" by simp_all
    with last_text_others [OF _ closed(3), of u1 u fd'] show ?thesis
      by (auto simp: closed(2))
  qed
qed simp

text \<open>A client stays in the table and has been sent the last text, or is closed and taken from it.\<close>

lemma send_to_client_spec:
  fixes os :: ui_calls
  assumes "0 \<le> fds u ! i" "ts \<noteq> []"
  defines "u' \<equiv> send_to_client os i ts u"
  shows "active_menu u' = active_menu u" "revents u' = revents u" "fd \<noteq> fds u ! i \<Longrightarrow> last_text fd u' = last_text fd u"
    "fds u' = fds u \<and> ui_open u' = ui_open u \<and> last_text (fds u ! i) u' = Some (last ts)
     \<or> fds u' = (fds u)[i := -1] \<and> ui_open u' = remove1 (fds u ! i) (ui_open u)"
proof -
  obtain res v where v: "send_strings os (fds u ! i) ts u = (res, v)" by fastforce
  have u': "u' = (case res of Inl _ \<Rightarrow> v\<lparr>fds := (fds v)[i := -1]\<rparr> | Inr _ \<Rightarrow> v)"
    by (simp add: u'_def send_to_client_def v split: sum.split)
  show "active_menu u' = active_menu u" "revents u' = revents u" "fd \<noteq> fds u ! i \<Longrightarrow> last_text fd u' = last_text fd u"
    "fds u' = fds u \<and> ui_open u' = ui_open u \<and> last_text (fds u ! i) u' = Some (last ts)
     \<or> fds u' = (fds u)[i := -1] \<and> ui_open u' = remove1 (fds u ! i) (ui_open u)"
    using send_strings_spec [OF v assms(1), of fd] assms(2) by (cases res; simp add: u')+
qed

lemma own_fds_cong: "fds u = fds v \<Longrightarrow> own_fds u \<longleftrightarrow> own_fds v"
  by (simp add: own_fds_def)

lemma own_open_cong: "fds u = fds v \<Longrightarrow> ui_open u = ui_open v \<Longrightarrow> own_open u \<longleftrightarrow> own_open v"
  by (simp add: own_open_def)

lemma set_update_image: "i < length xs \<Longrightarrow> set (xs[i := x]) = insert x ((!) xs ` ({..<length xs} - {i}))"
proof -
  assume i: "i < length xs"
  have "set ys = (!) ys ` {..<length ys}" for ys :: "'a list" by (auto simp: set_conv_nth)
  then have "set (xs[i := x]) = (!) (xs[i := x]) ` {..<length (xs[i := x])}" .
  also have "{..<length (xs[i := x])} = insert i ({..<length xs} - {i})" using i by auto
  also have "(!) (xs[i := x]) ` \<dots> = insert x ((!) (xs[i := x]) ` ({..<length xs} - {i}))"
    using i by (simp only: image_insert nth_list_update_eq)
  also have "\<dots> = insert x ((!) xs ` ({..<length xs} - {i}))"
    by (intro arg_cong [where f = "insert x"] image_cong) auto
  finally show ?thesis .
qed

lemma set_given_up:
  assumes "own_fds u" "i < length (fds u)" "0 \<le> fds u ! i"
  shows "set ((fds u)[i := -1]) = insert (-1) (set (fds u) - {fds u ! i})"
proof -
  have "fds u ! j \<noteq> fds u ! i" if "j < length (fds u)" "j \<noteq> i" for j
    using own_fdsD [OF assms(1,3,2)] that .
  then have "set (fds u) - {fds u ! i} = (!) (fds u) ` ({..<length (fds u)} - {i})"
    by (auto simp: set_conv_nth)
  then show ?thesis by (simp add: set_update_image [OF assms(2)])
qed

lemma closed_open:
  assumes "own_fds u" "own_open u" "i < length (fds u)" "0 \<le> fds u ! i"
    and "fds v = (fds u)[i := -1]" "ui_open v = remove1 (fds u ! i) (ui_open u)"
  shows "own_open v" "lost v = lost u"
proof -
  have u: "distinct (ui_open u)" "fd \<in> set (ui_open u) \<Longrightarrow> 0 \<le> fd"
      "fd \<in> set (fds u) \<Longrightarrow> 0 \<le> fd \<Longrightarrow> fd \<in> set (ui_open u)" for fd
    using assms(2) by (auto simp: own_open_def)
  have open': "set (ui_open v) = set (ui_open u) - {fds u ! i}"
    using u(1) by (simp add: assms(6) set_remove1_eq)
  have fds': "set (fds v) = insert (-1) (set (fds u) - {fds u ! i})"
    using set_given_up [OF assms(1,3,4)] by (simp add: assms(5))
  show "own_open v" using u unfolding own_open_def open' fds' by (auto simp: assms(6))
  have "-1 \<notin> set (ui_open u)" using u(2) [of "-1"] by auto
  then show "lost v = lost u" unfolding lost_def open' fds' using assms(3) by auto
qed

lemma ui_inv_table: "0 < n \<Longrightarrow> 0 \<le> fd \<Longrightarrow> ui_inv (ui_table n port timeout fd)"
proof -
  assume "0 < n" "0 \<le> fd"
  moreover have "own_open (ui_table n port timeout fd)"
  proof -
    have "set (fds (ui_table n port timeout fd)) \<subseteq> {fd, -1}"
      using set_update_subset_insert [of "replicate n (-1)" 0 fd] by (auto simp: ui_table_def)
    moreover have "ui_open (ui_table n port timeout fd) = [fd]" by (simp add: ui_table_def)
    ultimately show ?thesis using \<open>0 \<le> fd\<close> by (auto simp: own_open_def)
  qed
  moreover have "own_fds (ui_table n port timeout fd)"
    using \<open>0 \<le> fd\<close> by (auto simp: own_fds_def ui_table_def nth_list_update)
  moreover have "shows_text t (ui_table n port timeout fd) i" if "0 < i" "i < n" for t i
    using that by (simp add: shows_text_def ui_table_def)
  moreover have "length (fds (ui_table n port timeout fd)) = n" by (simp add: ui_table_def)
  ultimately show ?thesis by (simp only: ui_inv_def) blast
qed

text \<open>A client in the table is sent texts, the last of which it then shows, or is given up; the others
  show what they have shown.\<close>

lemma send_to_client_shows:
  fixes os :: ui_calls
  assumes "own_fds u" "own_open u" "i < length (fds u)" "0 \<le> fds u ! i" "ts \<noteq> []"
  defines "u' \<equiv> send_to_client os i ts u"
  shows "own_fds u'" "own_open u'" "lost u' = lost u" "length (fds u') = length (fds u)" "active_menu u' = active_menu u"
    "shows_text (last ts) u' i" "j < length (fds u) \<Longrightarrow> j \<noteq> i \<Longrightarrow> shows_text t u j \<Longrightarrow> shows_text t u' j"
proof -
  note sp = send_to_client_spec [OF assms(4,5), where os = os, folded u'_def]
  have own: "fds u ! j \<noteq> fds u ! i" if "j < length (fds u)" "j \<noteq> i" for j
    using own_fdsD [OF assms(1,4,3)] that .
  show "active_menu u' = active_menu u" by (rule sp(1))
  from sp(4) show "own_fds u'"
    using assms(1) own_fds_update [OF assms(1), of "-1" i] own_fds_cong [of u' u]
      own_fds_cong [of u' "u\<lparr>fds := (fds u)[i := -1]\<rparr>"] by auto
  from sp(4) show "own_open u'"
    using assms(2) closed_open(1) [OF assms(1-4)] own_open_cong [of u' u] by auto
  from sp(4) show "lost u' = lost u"
    by (elim disjE conjE) (simp add: lost_def, rule closed_open(2) [OF assms(1-4)])
  from sp(4) show "length (fds u') = length (fds u)" "shows_text (last ts) u' i"
    using assms(3) by (auto simp: shows_text_def)
  show "j < length (fds u) \<Longrightarrow> j \<noteq> i \<Longrightarrow> shows_text t u j \<Longrightarrow> shows_text t u' j"
    using sp(4) sp(3) [of "fds u ! j"] own [of j] by (auto simp: shows_text_def)
qed

lemma send_if_client:
  fixes os :: ui_calls and menu :: string
  assumes "own_fds u" "own_open u" "i < length (fds u)"
  defines "w \<equiv> (if fds u ! i < 0 then u else send_to_client os i [clear_terminal, menu] u)"
  shows "own_fds w" "own_open w" "lost w = lost u" "length (fds w) = length (fds u)" "active_menu w = active_menu u"
    "j < length (fds u) \<Longrightarrow> j = i \<or> shows_text menu u j \<Longrightarrow> shows_text menu w j"
proof -
  have skip: "shows_text menu u i" if "fds u ! i < 0" using that by (simp add: shows_text_def)
  note sp = send_to_client_shows [OF assms(1-3), where ts = "[clear_terminal, menu]" and os = os]
  show "own_fds w" "own_open w" "lost w = lost u" "length (fds w) = length (fds u)" "active_menu w = active_menu u"
    using sp(1-5) assms(1,2) by (simp_all add: w_def)
  show "j < length (fds u) \<Longrightarrow> j = i \<or> shows_text menu u j \<Longrightarrow> shows_text menu w j"
    using sp(6,7) skip by (cases "j = i") (auto simp: w_def)
qed

lemma send_to_all_shows:
  fixes os :: ui_calls and menu :: string
  assumes "own_fds u" "own_open u" "set is \<subseteq> {..<length (fds u)}"
  defines "w \<equiv> send_to_all os menu is u"
  shows "own_fds w \<and> own_open w \<and> lost w = lost u \<and> length (fds w) = length (fds u) \<and> active_menu w = active_menu u
    \<and> (\<forall>j < length (fds u). j \<in> set is \<or> shows_text menu u j \<longrightarrow> shows_text menu w j)"
  using assms(1-3) unfolding w_def
proof (induction "is" arbitrary: u)
  case (Cons i "is")
  define v where "v = (if fds u ! i < 0 then u else send_to_client os i [clear_terminal, menu] u)"
  have "i < length (fds u)" using Cons.prems(3) by simp
  note step = send_if_client [OF Cons.prems(1,2) this, where os = os and menu = menu, folded v_def]
  have "send_to_all os menu (i # is) u = send_to_all os menu is v" by (simp add: v_def)
  moreover have "set is \<subseteq> {..<length (fds v)}" using Cons.prems(3) step(4) by simp
  ultimately show ?case
    using Cons.IH [of v] step by auto
qed simp

lemma give_up_inv:
  assumes "ui_inv u" "i < length (fds u)" "0 \<le> fds u ! i"
  defines "v \<equiv> u\<lparr>ui_open := remove1 (fds u ! i) (ui_open u), fds := (fds u)[i := -1]\<rparr>"
  shows "ui_inv v" "lost v = lost u"
proof -
  have u: "own_fds u" "own_open u" using assms(1) by (simp_all add: inv_defs)
  have "own_fds v" using own_fds_update [OF u(1), of "-1" i] own_fds_cong [of v "u\<lparr>fds := (fds u)[i := -1]\<rparr>"] by (simp add: v_def)
  moreover note closed_open [OF u assms(2,3), of v]
  moreover have "shows_text (active_menu v) v j" if "j < length (fds v)" "0 < j" for j
    using assms(1) that by (cases "j = i") (auto simp: inv_defs shows_text_def v_def)
  ultimately show "ui_inv v" "lost v = lost u" by (simp_all add: inv_defs v_def)
qed

lemma revents_inv [simp]: "ui_inv (u\<lparr>revents := r\<rparr>) = ui_inv u" "lost (u\<lparr>revents := r\<rparr>) = lost u"
  by (simp_all add: inv_defs own_fds_def own_open_def lost_def shows_text_def last_text_def)

lemma read_clients_inv:
  fixes os :: ui_calls
  assumes "ui_inv u" "set is \<subseteq> {..<length (fds u)}"
  defines "w \<equiv> snd (read_clients os is u)"
  shows "ui_inv w \<and> lost w = lost u \<and> length (fds w) = length (fds u)"
  using assms(1,2) unfolding w_def
proof (induction os "is" u rule: read_clients.induct)
  case (2 os i "is" u)
  show ?case
  proof (cases "fds u ! i < 0 \<or> \<not> revents u ! i \<or> read_result os (fds u ! i) \<noteq> None")
    case True
    with 2 show ?thesis by (auto simp: read_string_def split: option.split)
  next
    case False
    let ?v = "u\<lparr>ui_open := remove1 (fds u ! i) (ui_open u), fds := (fds u)[i := -1]\<rparr>"
    have "read_clients os (i # is) u = read_clients os is ?v"
      using False by (simp add: read_string_def throw_safely_def)
    moreover have "ui_inv ?v" "lost ?v = lost u" using give_up_inv [of u i] 2(5,6) False by simp_all
    ultimately show ?thesis
      using 2(3) 2(6) False
      by (simp add: read_string_def throw_safely_def)
  qed
qed simp

subsection \<open>Calls of the interface\<close>

text \<open>What the system promises of a call: \<open>poll\<close> reports on every entry, and \<open>accept\<close> does not return a
  descriptor that is open.\<close>

definition system_ok :: "ui_calls \<Rightarrow> ui_manager \<Rightarrow> bool" where
  "system_ok os u \<longleftrightarrow> length (ready os) = length (fds u) \<and> accepted os \<notin> set (ui_open u)"

inductive ui_step :: "ui_manager \<Rightarrow> ui_manager \<Rightarrow> bool" where
  step_menu: "system_ok os u \<Longrightarrow> send_menu os sts selected u = Inr u' \<Longrightarrow> ui_step u u'"
| step_update: "system_ok os u \<Longrightarrow> get_update os u = Inr (upd, u') \<Longrightarrow> ui_step u u'"

definition ui_start :: "ui_manager \<Rightarrow> bool" where
  "ui_start u \<longleftrightarrow> (\<exists>n port timeout os. 0 < n \<and> ui_init n port timeout os = Inr u)"

lemma ui_inv_init: "ui_init n port timeout os = Inr u \<Longrightarrow> 0 < n \<Longrightarrow> ui_inv u"
  by (auto simp: ui_init_def intro: ui_inv_table split: if_splits)

lemma check_new_clients_inv:
  assumes "ui_inv u" "accepted os \<notin> set (ui_open u)" "check_new_clients os u = Inr u'"
  shows "ui_inv u' \<and> active_menu u' = active_menu u \<and> length (fds u') = length (fds u) \<and> lost u \<subseteq> lost u'"
proof (cases "u' = u\<lparr>revents := ready os\<rparr>")
  case True
  with assms(1) show ?thesis by simp
next
  case False
  let ?u = "u\<lparr>revents := ready os, ui_open := accepted os # ui_open u\<rparr>"
  have u: "own_fds u" "own_open u" using assms(1) by (simp_all add: inv_defs)
  have acc: "0 \<le> accepted os" "accepted os \<notin> set (fds u)"
    using assms(3) False u(2) assms(2)
    by (auto simp: check_new_clients_def throw_safely_def own_open_def Let_def split: if_splits option.splits)
  have opened: "own_open (?u\<lparr>fds := (fds u)[i := accepted os]\<rparr>)" "own_open ?u" for i
    using u(2) acc(1) assms(2) set_update_subset_insert [of "fds u" i "accepted os"]
    by (auto simp: own_open_def)
  from assms(3) False acc consider "u' = ?u" "find (\<lambda>i. fds u ! i < 0) [1..<length (fds u)] = None"
    | i where "find (\<lambda>i. fds u ! i < 0) [1..<length (fds u)] = Some i"
        "u' = send_to_client os i [telnet_mode, clear_terminal, active_menu u] (?u\<lparr>fds := (fds u)[i := accepted os]\<rparr>)"
    by (auto simp: check_new_clients_def throw_safely_def Let_def split: if_splits option.splits)
  then show ?thesis
  proof cases
    case 1
    with assms(1) opened(2) show ?thesis by (auto simp: inv_defs own_fds_def shows_text_def last_text_def lost_def)
  next
    case (2 i)
    let ?v = "?u\<lparr>fds := (fds u)[i := accepted os]\<rparr>"
    have i: "0 < i" "i < length (fds u)" "fds u ! i < 0" using 2(1) by (auto simp: find_Some_iff)
    have own: "own_fds ?v" using own_fds_update [of ?u "accepted os" i] u(1) acc(2) own_fds_cong [of ?u u] by simp
    note sp = send_to_client_shows [OF own opened(1) [of i], where i = i and ts = "[telnet_mode, clear_terminal, active_menu u]" and os = os,
        folded 2(2)]
    have "set (fds ?v) \<subseteq> insert (accepted os) (set (fds u))" by (simp add: set_update_subset_insert)
    with assms(2) have "lost u \<subseteq> lost ?v" by (auto simp: lost_def)
    moreover have "shows_text (active_menu u) u' j" if "j < length (fds u)" "0 < j" for j
    proof (cases "j = i")
      case False
      moreover have "shows_text (active_menu u) ?v j"
        using assms(1) that False by (simp add: inv_defs shows_text_def last_text_def)
      ultimately show ?thesis using sp(7) that i acc(1) by simp
    qed (use sp(6) i acc(1) in simp)
    ultimately show ?thesis using sp(1-5) i acc(1) by (simp add: inv_defs)
  qed
qed

lemma send_menu_inv:
  assumes "ui_inv u" "system_ok os u" "send_menu os sts selected u = Inr u'"
  shows "ui_inv u'" "active_menu u' = parse_stations sts selected" "length (fds u') = length (fds u)" "lost u \<subseteq> lost u'"
    "check_new_clients os (clear_revents u) = Inr v \<Longrightarrow> lost v \<subseteq> lost u'"
proof -
  let ?menu = "parse_stations sts selected"
  obtain v where v: "check_new_clients os (clear_revents u) = Inr v"
      and u': "u' = (if ?menu = active_menu v then v
        else (send_to_all os ?menu [1..<length (fds v)] v)\<lparr>active_menu := ?menu\<rparr>)"
    using assms(3) unfolding send_menu_def and_then_ok_iff Let_def by (metis sum.inject(2))
  have inv: "ui_inv v" "length (fds v) = length (fds u)" "lost u \<subseteq> lost v"
    using check_new_clients_inv [OF _ _ v] assms(1,2) by (simp_all add: clear_revents_def system_ok_def)
  define w where "w = send_to_all os ?menu [1..<length (fds v)] v"
  have range: "set [1..<length (fds v)] \<subseteq> {..<length (fds v)}" by auto
  have all: "own_fds w" "own_open w" "lost w = lost v" "length (fds w) = length (fds v)"
      "0 < j \<Longrightarrow> j < length (fds v) \<Longrightarrow> shows_text ?menu w j" for j
    using inv(1) send_to_all_shows [OF _ _ range, of os ?menu] by (simp_all add: inv_defs w_def)
  have "ui_inv (w\<lparr>active_menu := ?menu\<rparr>)"
    using all by (simp add: inv_defs own_fds_def own_open_def shows_text_def last_text_def)
  then show "ui_inv u'" "active_menu u' = ?menu" "length (fds u') = length (fds u)" "lost u \<subseteq> lost u'"
    "check_new_clients os (clear_revents u) = Inr v \<Longrightarrow> lost v \<subseteq> lost u'" for v
    using inv all(3,4) v by (simp_all add: u' w_def lost_def)
qed

lemma active_menu_read_clients [simp]: "active_menu (snd (read_clients os is u)) = active_menu u"
  by (induction os "is" u rule: read_clients.induct) (auto simp: read_string_def throw_safely_def split: option.split)

lemma get_update_inv:
  assumes "ui_inv u" "system_ok os u" "get_update os u = Inr (upd, u')"
  shows "ui_inv u'" "active_menu u' = active_menu u" "lost u \<subseteq> lost u'"
    "check_new_clients os (clear_revents u) = Inr v \<Longrightarrow> lost v \<subseteq> lost u'"
proof -
  obtain v where v: "check_new_clients os (clear_revents u) = Inr v"
      and u': "u' = snd (read_clients os [1..<length (fds v)] v)"
    using assms(3) by (auto simp: get_update_def and_then_ok_iff)
  have inv: "ui_inv v" "active_menu v = active_menu u" "lost u \<subseteq> lost v"
    using check_new_clients_inv [OF _ _ v] assms(1,2) by (simp_all add: clear_revents_def system_ok_def)
  have "set [1..<length (fds v)] \<subseteq> {..<length (fds v)}" by auto
  from read_clients_inv [OF inv(1) this, of os] inv(2,3) show "ui_inv u'" "active_menu u' = active_menu u" "lost u \<subseteq> lost u'"
    "check_new_clients os (clear_revents u) = Inr v \<Longrightarrow> lost v \<subseteq> lost u'" for v
    using v by (simp_all add: u')
qed

text \<open>A connection that finds the table full is accepted and forgotten, and what is lost stays so.\<close>

lemma full_table:
  assumes "check_new_clients os u = Inr v" "ready os ! 0" "accepted os \<notin> set (fds u)" "\<forall>fd \<in> set (fds u). 0 \<le> fd"
  shows "accepted os \<in> lost v"
proof -
  have "find (\<lambda>i. fds u ! i < 0) [1..<length (fds u)] = None"
    using assms(4) nth_mem by (fastforce simp: find_None_iff not_less)
  with assms(1-3) show ?thesis
    by (auto simp: check_new_clients_def throw_safely_def lost_def Let_def split: if_splits)
qed

lemma lost_later: "ui_step\<^sup>*\<^sup>* u w \<Longrightarrow> ui_inv u \<Longrightarrow> ui_inv w \<and> lost u \<subseteq> lost w"
proof (induction rule: rtranclp_induct)
  case (step v w)
  from step.hyps(2) step.IH [OF step.prems] show ?case
    by cases (blast dest: send_menu_inv(1,4) get_update_inv(1,3))+
qed simp

interpretation ui_runs: inductive_invariant ui_start ui_step ui_inv
  by unfold_locales (auto simp: ui_start_def ui_inv_init elim!: ui_step.cases
      intro: send_menu_inv(1) get_update_inv(1))

subsection \<open>Properties\<close>

text \<open>Whatever calls came before, and whatever clients connected, left or failed in between, after
  a menu has been sent every connected client has last been sent exactly this menu (also the client
  that connected in this very call, and also when the menu is the one before, which is not sent
  again), the listening socket apart; and no two entries of the table are the same connection.\<close>
lemma clients_see_the_menu:
  assumes "reach ui_start ui_step u" "system_ok os u" "send_menu os sts selected u = Inr u'"
  shows "\<forall>i < length (fds u'). 0 < i \<longrightarrow> 0 \<le> fds u' ! i \<longrightarrow>
    last_text (fds u' ! i) u' = Some (parse_stations sts selected)
    \<and> (\<forall>j < length (fds u'). j \<noteq> i \<longrightarrow> fds u' ! j \<noteq> fds u' ! i)"
  using send_menu_inv [OF ui_runs.reach_good [OF assms(1)] assms(2,3)] own_fdsD [of u']
  by (auto simp: inv_defs shows_text_def)

text \<open>One client connects in the first call.\<close>

definition sample_ui :: ui_calls where
  "sample_ui =
     \<lparr>poll_err = 1, ready = [True, False, False], accepted = 5, write_count = (\<lambda>fd t. if fd = 5 then int (length t) else -1),
      read_result = (\<lambda>fd. None), ui_error = []\<rparr>"

lemma clients_see_the_menu_example:
  "\<exists>u'. send_menu sample_ui [''Radio''] (Some ''Radio'') (ui_table 3 15830 500 3) = Inr u' \<and> fds u' = [3, 5, -1]
    \<and> last_text 5 u' = Some (parse_stations [''Radio''] (Some ''Radio''))"
proof -
  have start: "reach ui_start ui_step (ui_table 3 15830 500 3)"
    by (intro reach_start) (auto simp: ui_start_def ui_init_def intro!: exI [of _ "3 :: nat"] exI [of _ "15830 :: in_port"] exI [of _ "500 :: int"]
        exI [of _ "\<lparr>ui_new_fd = 3, ui_reuse_err = 0, ui_bind_err = 0, ui_listen_err = 0, ui_setup_error = []\<rparr>"])
  have ok: "system_ok sample_ui (ui_table 3 15830 500 3)"
    by (simp add: system_ok_def sample_ui_def ui_table_def numeral_3_eq_3)
  have "\<exists>u'. send_menu sample_ui [''Radio''] (Some ''Radio'') (ui_table 3 15830 500 3) = Inr u' \<and> fds u' = [3, 5, -1]"
    by (cases "parse_stations [''Radio''] (Some ''Radio'') = parse_stations [] None")
      (simp_all add: send_menu_def check_new_clients_def clear_revents_def sample_ui_def ui_table_def
        send_to_client_def send_string_def throw_safely_def Let_def upt_rec numeral_3_eq_3)
  then obtain u' where u': "send_menu sample_ui [''Radio''] (Some ''Radio'') (ui_table 3 15830 500 3) = Inr u'"
      "fds u' = [3, 5, -1]"
    by blast
  then show ?thesis
    using clients_see_the_menu [OF start ok u'(1)] by (auto dest: spec [of _ 1])
qed

text \<open>C23: a connection that is accepted while every entry of the table is in use is lost: its descriptor is
  open but in no entry of the table, so that nothing is sent to it or read from it, and this stays so after
  any further calls of the interface, also when clients leave and entries become free.\<close>
theorem connection_lost_when_full:
  assumes "reach ui_start ui_step u" "system_ok os u"
    and "send_menu os sts selected u = Inr u' \<or> get_update os u = Inr (upd, u')"
    and "ready os ! 0" "\<forall>fd \<in> set (fds u). 0 \<le> fd" "ui_step\<^sup>*\<^sup>* u' w"
  shows "accepted os \<in> set (ui_open w) \<and> accepted os \<notin> set (fds w)"
proof -
  have u: "ui_inv u" by (rule ui_runs.reach_good [OF assms(1)])
  then have fds: "set (fds u) \<subseteq> set (ui_open u)" using assms(5) by (auto simp: inv_defs own_open_def)
  obtain v where v: "check_new_clients os (clear_revents u) = Inr v"
    using assms(3) by (auto simp: send_menu_def get_update_def and_then_ok_iff)
  have "accepted os \<in> lost v"
    using full_table [OF v assms(4)] assms(2,5) fds by (auto simp: clear_revents_def system_ok_def)
  moreover have "ui_inv u' \<and> lost v \<subseteq> lost u'"
    using assms(3) send_menu_inv(1,5) [OF u assms(2)] get_update_inv(1,4) [OF u assms(2)] v by blast
  moreover note lost_later [OF assms(6)]
  ultimately show ?thesis by (auto simp: lost_def)
qed

text \<open>A table of which the only entry is the listening socket.\<close>
theorem connection_lost_when_full_witness:
  "\<exists>u'. get_update (sample_ui\<lparr>ready := [True]\<rparr>) (ui_table 1 15830 500 3) = Inr (None, u')
    \<and> 5 \<in> set (ui_open u') \<and> 5 \<notin> set (fds u')"
proof -
  let ?os = "sample_ui\<lparr>ready := [True]\<rparr>" and ?u = "ui_table 1 15830 500 3"
  have start: "reach ui_start ui_step ?u"
    by (intro reach_start) (auto simp: ui_start_def ui_init_def intro!: exI [of _ "1 :: nat"] exI [of _ "15830 :: in_port"] exI [of _ "500 :: int"]
        exI [of _ "\<lparr>ui_new_fd = 3, ui_reuse_err = 0, ui_bind_err = 0, ui_listen_err = 0, ui_setup_error = []\<rparr>"])
  have ok: "system_ok ?os ?u" by (simp add: system_ok_def sample_ui_def ui_table_def)
  have "\<exists>u'. get_update ?os ?u = Inr (None, u')"
    by (simp add: get_update_def check_new_clients_def clear_revents_def sample_ui_def ui_table_def Let_def)
  then obtain u' where u': "get_update ?os ?u = Inr (None, u')" by blast
  have "accepted ?os \<in> set (ui_open u') \<and> accepted ?os \<notin> set (fds u')"
    using u' by (intro connection_lost_when_full [OF start ok disjI2 _ _ rtranclp.rtrancl_refl])
      (auto simp: sample_ui_def ui_table_def)
  with u' show ?thesis by (auto simp: sample_ui_def)
qed

end
