(* ===== verification/Receiver.thy ===== *)
theory Receiver
  imports Buffer_Run State_Manager Station_Set Receiver_Socket Ctrl_Socket Ui_Manager
begin

text \<open>
  \<open>src/receiver/receiver.hpp\<close>: the receiver, which is its components and seven threads around them. Each
  thread repeats one turn; a turn is a definition from the state to the next one. What the system
  returns in a turn (a received datagram, the clock, the results of the calls of a connection) is
  an argument. An exception that a turn does not catch ends the program, and is the turn's result.
\<close>

record receiver =
  discover_addr :: string
  rc_ctrl_port :: in_port
  rc_buffer :: buffer
  rc_socket :: data_socket
  rc_stations :: station_set
  rc_rexmits :: rexmit_manager
  rc_state :: state_manager
  ids_to_forget :: "msg_id_t list"
  rc_ctrl :: ctrl_socket
  rc_ui :: ui_manager
  enqueued_msu :: "menu_selection_update option"
  played :: "byte list"

definition socket_timeout_in_ms :: int where
  "socket_timeout_in_ms = 500"

text \<open>The members when all constructors have succeeded. \<open>unset_elements\<close>, \<open>unset_size\<close> and
  \<open>unset_station\<close> stand for members that no constructor sets.\<close>

definition receiver_members ::
  "string \<Rightarrow> in_port \<Rightarrow> u64 \<Rightarrow> nat \<Rightarrow> string option \<Rightarrow> time_point \<Rightarrow> u64 \<Rightarrow> u64 \<Rightarrow> station \<Rightarrow>
   ctrl_socket \<Rightarrow> ui_manager \<Rightarrow> receiver" where
  "receiver_members addr port bsize rtime_seconds preferred now unset_elements unset_size unset_station ctl ui =
     \<lparr>discover_addr = addr, rc_ctrl_port = port, rc_buffer = buffer_init bsize unset_elements unset_size,
      rc_socket = data_socket_init unset_station socket_timeout_in_ms, rc_stations = station_set_init preferred,
      rc_rexmits = rexmit_init rtime_seconds now, rc_state = state_init, ids_to_forget = [], rc_ctrl = ctl,
      rc_ui = ui, enqueued_msu = None, played = []\<rparr>"

definition receiver_init ::
  "host \<Rightarrow> ctrl_calls \<Rightarrow> nat \<Rightarrow> ui_setup \<Rightarrow> string \<Rightarrow> in_port \<Rightarrow> in_port \<Rightarrow> u64 \<Rightarrow> nat \<Rightarrow> string option \<Rightarrow>
   time_point \<Rightarrow> u64 \<Rightarrow> u64 \<Rightarrow> station \<Rightarrow> receiver result" where
  "receiver_init h ctrl_os max_clients ui_os addr port ui_port_no bsize rtime_seconds preferred now
       unset_elements unset_size unset_station =
     (case ctrl_socket_init h port socket_timeout_in_ms True False ctrl_os of
        (Inl e, _) \<Rightarrow> Inl e
      | (Inr _, ctl) \<Rightarrow>
          and_then (ui_init max_clients ui_port_no socket_timeout_in_ms ui_os) (\<lambda>ui.
          Inr (receiver_members addr port bsize rtime_seconds preferred now unset_elements unset_size
                 unset_station ctl ui)))"

subsection \<open>The turns of the threads\<close>

definition playback_resetter_turn ::
  "host \<Rightarrow> (string \<Rightarrow> u32 option) \<Rightarrow> connect_calls \<Rightarrow> time_point \<Rightarrow> receiver \<Rightarrow> receiver result" where
  "playback_resetter_turn h aton os now r =
     (let ((st, was_dirty), sm) = check_state (rc_state r);
          r1 = r\<lparr>rc_state := sm\<rparr>
      in if was_dirty \<noteq> 0 then
           let r2 = r1\<lparr>rc_buffer := buffer_reset (rc_buffer r1), rc_rexmits := rexmit_reset now (rc_rexmits r1)\<rparr>
           in (case st of
                 None \<Rightarrow> Inr r2
               | Some s \<Rightarrow>
                   (case data_connect h aton os s (rc_socket r2) of
                      (Inl e, _) \<Rightarrow> Inl e
                    | (Inr _, ds) \<Rightarrow> Inr (r2\<lparr>rc_socket := ds\<rparr>)))
         else Inr r1)"

definition ctrl_receiver_turn :: "host \<Rightarrow> time_point \<Rightarrow> ctrl_received \<Rightarrow> receiver \<Rightarrow> receiver result" where
  "ctrl_receiver_turn h now os r =
     and_then (ctrl_try_read os) (\<lambda>rcv.
     case rcv of
        None \<Rightarrow> Inr r
      | Some (msg, sender_addr) \<Rightarrow>
          if \<not> is_reply msg then Inr r
          else
            and_then (as_station h now msg sender_addr) (\<lambda>st.
            and_then (update_get_selected now st (rc_stations r)) (\<lambda>(new_selected, ss).
              let r1 = r\<lparr>rc_stations := ss\<rparr>
              in (case new_selected of
                    None \<Rightarrow> Inr r1
                  | Some sel \<Rightarrow>
                      Inr (r1\<lparr>rc_state := snd (register_address_check_change sel (rc_state r1))\<rparr>)))))"

text \<open>\<open>None\<close> is a lookup that is never sent.\<close>

definition lookup_sender_turn ::
  "host \<Rightarrow> (string \<Rightarrow> u32 option) \<Rightarrow> (nat \<Rightarrow> sendto_result) \<Rightarrow> receiver \<Rightarrow> receiver result option" where
  "lookup_sender_turn h aton os r =
     (case make_address h aton (discover_addr r) (rc_ctrl_port r) of
        Inl e \<Rightarrow> Some (Inl e)
      | Inr da \<Rightarrow>
          map_option (\<lambda>(res, ctl). map_sum id (\<lambda>_. r\<lparr>rc_ctrl := ctl\<rparr>) res)
            (force_send_to da make_lookup os (rc_ctrl r)))"

text \<open>The loop that sorts the identifiers out, with those it keeps, to ask for, and those to forget.\<close>

fun space_loop ::
  "buffer \<Rightarrow> msg_id_t list \<Rightarrow> msg_id_t list \<Rightarrow> msg_id_t list \<Rightarrow> (msg_id_t list \<times> msg_id_t list) result" where
  "space_loop b [] ids_to_rexmit forget = Inr (ids_to_rexmit, forget)"
| "space_loop b (i # is) ids_to_rexmit forget =
     and_then (has_space_for i b) (\<lambda>has_space.
       if \<not> has_space then space_loop b is ids_to_rexmit (emplace id i forget)
       else space_loop b is (ids_to_rexmit @ [i]) forget)"

definition rexmit_sender_turn ::
  "host \<Rightarrow> (string \<Rightarrow> u32 option) \<Rightarrow> sendto_result \<Rightarrow> time_point \<Rightarrow> receiver \<Rightarrow> receiver result" where
  "rexmit_sender_turn h aton os now r =
     and_then (filter_get_ids now (ids_to_forget r) (rc_rexmits r)) (\<lambda>(ids, rm).
     let r1 = r\<lparr>rc_rexmits := rm\<rparr>
     in and_then (space_loop (rc_buffer r1) ids [] []) (\<lambda>(ids_to_rexmit, forget).
        let r2 = r1\<lparr>ids_to_forget := forget\<rparr>
        in if ids_to_rexmit = [] then Inr r2
           else
             and_then (get_selected now (rc_stations r2)) (\<lambda>(current_station, ss).
             let r3 = r2\<lparr>rc_stations := ss\<rparr>
             in (case current_station of
                   None \<Rightarrow> Inr r3
                 | Some st \<Rightarrow>
                     and_then (make_address h aton (ctrl_address st) (ctrl_port st)) (\<lambda>addr.
                     (case send_to addr (make_rexmit ids_to_rexmit) os (rc_ctrl r3) of
                        (Inl e, _) \<Rightarrow> Inl e
                      | (Inr _, ctl) \<Rightarrow> Inr (r3\<lparr>rc_ctrl := ctl\<rparr>)))))))"

text \<open>\<open>None\<close> would be a write that does not end.\<close>

definition data_receiver_turn :: "host \<Rightarrow> time_point \<Rightarrow> received \<Rightarrow> receiver \<Rightarrow> receiver result option" where
  "data_receiver_turn h now rcv r =
     (case data_try_read h rcv (rc_socket r) of
        Inl e \<Rightarrow> Some (Inl e)
      | Inr None \<Rightarrow> Some (Inr r)
      | Inr (Some msg) \<Rightarrow>
          (case get_session_id msg of
             Inl e \<Rightarrow> Some (Inl e)
           | Inr msg_session_id \<Rightarrow>
               let (ignore_msg, sm) = register_session_check_ignore msg_session_id (rc_state r);
                   r1 = r\<lparr>rc_state := sm\<rparr>
               in if ignore_msg then Some (Inr r1)
                  else
                    map_option
                      (\<lambda>(res, b).
                         let r2 = r1\<lparr>rc_buffer := b\<rparr>
                         in (case res of
                               Inr missed_ids \<Rightarrow>
                                 Inr (if missed_ids \<noteq> []
                                      then r2\<lparr>rc_rexmits := append_ids now missed_ids (rc_rexmits r2)\<rparr>
                                      else r2)
                             | Inl (Buffer_Access_Exception e) \<Rightarrow> Inr (r2\<lparr>rc_state := mark_dirty (rc_state r2)\<rparr>)
                             | Inl e \<Rightarrow> Inl e))
                      (write_get_missed msg (rc_buffer r1))))"

definition data_streamer_turn :: "receiver \<Rightarrow> receiver result" where
  "data_streamer_turn r =
     (case buffer_try_read (rc_buffer r) of
        (Inr None, b) \<Rightarrow> Inr (r\<lparr>rc_buffer := b\<rparr>)
      | (Inr (Some d), b) \<Rightarrow> Inr (r\<lparr>rc_buffer := b, played := played r @ d\<rparr>)
      | (Inl (Buffer_Access_Exception e), b) \<Rightarrow> Inr (r\<lparr>rc_buffer := b, rc_state := mark_dirty (rc_state r)\<rparr>)
      | (Inl e, b) \<Rightarrow> Inl e)"

text \<open>The turn of the user interface's thread: first the selection and what the menu is to show (the
  names and the selected name), then the menu is sent and the next update fetched. The clock is
  read by both calls on the stations.\<close>

definition select_for_menu ::
  "time_point \<Rightarrow> time_point \<Rightarrow> receiver \<Rightarrow> ((string list \<times> string option) \<times> receiver) result" where
  "select_for_menu now later r =
     and_then (case enqueued_msu r of
                 Some msu \<Rightarrow> select_get_selected now msu (rc_stations r)
               | None \<Rightarrow> get_selected now (rc_stations r)) (\<lambda>(new_selected, ss).
     let r1 = r\<lparr>rc_stations := ss\<rparr>
     in (case new_selected of
           Some sel \<Rightarrow>
             let r2 = r1\<lparr>rc_state := snd (register_address_check_change sel (rc_state r1))\<rparr>
             in and_then (get_station_names later (rc_stations r2)) (\<lambda>(names, ss2).
                Inr ((sort names, Some (st_name sel)), r2\<lparr>rc_stations := ss2\<rparr>))
         | None \<Rightarrow> Inr (([], None), r1\<lparr>rc_state := mark_dirty (rc_state r1)\<rparr>)))"

definition ui_handler_turn ::
  "time_point \<Rightarrow> time_point \<Rightarrow> ui_calls \<Rightarrow> ui_calls \<Rightarrow> receiver \<Rightarrow> receiver result" where
  "ui_handler_turn now later menu_os update_os r =
     and_then (select_for_menu now later r) (\<lambda>((station_names, selected), r1).
     and_then (send_menu menu_os station_names selected (rc_ui r1)) (\<lambda>ui.
     and_then (get_update update_os ui) (\<lambda>(msu, ui2).
     Inr (r1\<lparr>rc_ui := ui2, enqueued_msu := msu\<rparr>))))"

subsection \<open>A session from the socket to the output\<close>

text \<open>Datagrams received one after the other, and turns of the streaming thread.\<close>

fun receive_all :: "host \<Rightarrow> time_point \<Rightarrow> msg_t list \<Rightarrow> receiver \<Rightarrow> receiver option" where
  "receive_all h now [] r = Some r"
| "receive_all h now (raw # raws) r =
     (case data_receiver_turn h now (Received raw) r of
        Some (Inr r1) \<Rightarrow> receive_all h now raws r1
      | _ \<Rightarrow> None)"

fun stream_all :: "nat \<Rightarrow> receiver \<Rightarrow> receiver option" where
  "stream_all 0 r = Some r"
| "stream_all (Suc n) r = (case data_streamer_turn r of Inr r1 \<Rightarrow> stream_all n r1 | Inl e \<Rightarrow> None)"

lemma receive_accepted:
  assumes "sock (rc_socket r) \<noteq> -1" "data_msg_raw h raw = Inr m" "dm_session_id m = Some s"
    and "session_id (rc_state r) = s" "write_get_missed m (rc_buffer r) = Some (Inr [], b)"
  shows "data_receiver_turn h now (Received raw) r = Some (Inr (r\<lparr>rc_buffer := b\<rparr>))"
  using assms
  by (simp add: data_receiver_turn_def data_try_read_def get_session_id_def register_session_check_ignore_def)

lemma receive_new_session:
  assumes "sock (rc_socket r) \<noteq> -1" "data_msg_raw h raw = Inr m" "dm_session_id m = Some s"
    and "session_id (rc_state r) < s"
  shows "data_receiver_turn h now (Received raw) r =
    Some (Inr (r\<lparr>rc_state := (rc_state r)\<lparr>session_id := s, dirty := True\<rparr>\<rparr>))"
  using assms
  by (auto simp: data_receiver_turn_def data_try_read_def get_session_id_def register_session_check_ignore_def)

lemma receive_all_accepted:
  assumes "sock (rc_socket r) \<noteq> -1" "session_id (rc_state r) = s"
    and "map (data_msg_raw h) raws = map Inr ms" "list_all (\<lambda>m. dm_session_id m = Some s) ms"
    and "write_each ms (rc_buffer r) = Some b"
  shows "receive_all h now raws r = Some (r\<lparr>rc_buffer := b\<rparr>)"
  using assms
proof (induction raws arbitrary: r ms)
  case Nil
  then show ?case by simp
next
  case (Cons raw raws)
  then obtain m ms' where ms: "ms = m # ms'" by (cases ms) auto
  with Cons.prems(5) obtain b1 where b1: "write_get_missed m (rc_buffer r) = Some (Inr [], b1)"
      "write_each ms' b1 = Some b"
    by (auto split: option.splits sum.splits list.splits)
  have "data_receiver_turn h now (Received raw) r = Some (Inr (r\<lparr>rc_buffer := b1\<rparr>))"
    using Cons.prems ms b1 by (intro receive_accepted) auto
  with Cons.IH [of "r\<lparr>rc_buffer := b1\<rparr>" ms'] Cons.prems ms b1 show ?case by simp
qed

lemma stream_all_reads:
  assumes "buf_state (rc_buffer r) = READABLE" "msg_vals (rc_buffer r) = map Some vs"
  shows "\<exists>b. stream_all (length vs) r = Some (r\<lparr>rc_buffer := b, played := played r @ concat vs\<rparr>)"
  using assms
proof (induction vs arbitrary: r)
  case Nil
  have "r = r\<lparr>rc_buffer := rc_buffer r\<rparr>" by simp
  then show ?case by (intro exI [of _ "rc_buffer r"]) simp
next
  case (Cons v vs)
  let ?r = "r\<lparr>rc_buffer := pop_front (rc_buffer r), played := played r @ v\<rparr>"
  have "data_streamer_turn r = Inr ?r"
    using Cons.prems by (simp add: data_streamer_turn_def buffer_try_read_def optional_read_def)
  moreover obtain b where "stream_all (length vs) ?r = Some (?r\<lparr>rc_buffer := b, played := played ?r @ concat vs\<rparr>)"
    using Cons.IH [of ?r] Cons.prems by (auto simp: pop_front_def)
  ultimately show ?case by (intro exI [of _ b]) simp
qed

subsection \<open>Properties\<close>

lemma space_loop_spec:
  assumes "\<And>i. i \<in> set ids \<Longrightarrow> has_space_for i b = Inr (P i)"
  shows "\<exists>forget'. space_loop b ids keep_ids forget = Inr (keep_ids @ filter P ids, forget')
    \<and> set forget' = set forget \<union> {i \<in> set ids. \<not> P i}"
  using assms
proof (induction ids arbitrary: keep_ids forget)
  case (Cons i ids)
  then have IH: "\<exists>forget'. space_loop b ids keep_ids forget = Inr (keep_ids @ filter P ids, forget')
      \<and> set forget' = set forget \<union> {i \<in> set ids. \<not> P i}" for keep_ids forget
    by simp
  from IH [of "keep_ids @ [i]" forget] IH [of keep_ids "emplace id i forget"] Cons.prems [of i] show ?case
    by (auto simp: set_emplace_id)
qed simp

lemma space_loop_empty_buffer:
  "msg_ids b = [] \<Longrightarrow> ids \<noteq> [] \<Longrightarrow> space_loop b ids keep_ids forget = Inl (Undefined Empty_Container)"
  by (cases ids) (simp_all add: has_space_for_def)

lemma ascending_sorted_list:
  assumes "ascending id ids"
  shows "sorted_list_of_set (set ids) = ids"
  using ascending_sorted [OF assms] ascending_distinct_keys [OF assms] by (simp add: sorted_list_of_set.idem_if_sorted_distinct)

lemma rexmit_turn_asks:
  assumes "rexmit_inv (rc_rexmits r)" "buf_inv (rc_buffer r)"
    and "\<And>i. due_at (rc_rexmits r) i \<noteq> None \<Longrightarrow> unat (package_size (rc_buffer r)) dvd unat i"
    and "get_selected now (rc_stations r) = Inr (Some st, ss)"
    and "make_address h aton (ctrl_address st) (ctrl_port st) = Inr addr"
  shows "let due = {i. i \<notin> set (ids_to_forget r) \<and> (\<exists>t. due_at (rc_rexmits r) i = Some t \<and> t \<le> now)};
      asked = due \<inter> set (msg_ids (rc_buffer r));
      text = ctrl_sendable (make_rexmit (sorted_list_of_set asked));
      turn = rexmit_sender_turn h aton os now r in
    if msg_ids (rc_buffer r) = [] \<and> due \<noteq> {} then turn = Inl (Undefined Empty_Container)
    else if asked \<noteq> {} \<and> fst os \<noteq> int (length text) then \<exists>e. turn = Inl (Socket_Exception e)
    else \<exists>r'. turn = Inr r'
      \<and> ctl_sent (rc_ctrl r') = ctl_sent (rc_ctrl r) @ (if asked = {} then [] else [(addr, text)])
      \<and> set (ids_to_forget r') = due - asked"
proof -
  let ?b = "rc_buffer r"
  let ?due = "{i. i \<notin> set (ids_to_forget r) \<and> (\<exists>t. due_at (rc_rexmits r) i = Some t \<and> t \<le> now)}"
  obtain ids rm where f: "filter_get_ids now (ids_to_forget r) (rc_rexmits r) = Inr (ids, rm)"
      "ascending id ids" "set ids = ?due"
    using filter_get_ids_due [OF assms(1), of now "ids_to_forget r"] by auto
  show ?thesis
  proof (cases "msg_ids ?b = [] \<and> ?due \<noteq> {}")
    case True
    then have "ids \<noteq> []" using f(3) by auto
    with True f(1) space_loop_empty_buffer [of ?b ids]
    have "rexmit_sender_turn h aton os now r = Inl (Undefined Empty_Container)"
      by (simp add: rexmit_sender_turn_def)
    with True show ?thesis by simp
  next
    case False
    have "has_space_for i ?b = Inr (i \<in> set (msg_ids ?b))" if "i \<in> set ids" for i
      using that False f(3) assms(3) [of i] has_space_slot [OF assms(2), of i] by auto
    from space_loop_spec [of ids ?b "\<lambda>i. i \<in> set (msg_ids ?b)", OF this, of "[]" "[]"] obtain forget where
      loop: "space_loop ?b ids [] [] = Inr (filter (\<lambda>i. i \<in> set (msg_ids ?b)) ids, forget)"
        "set forget = {i \<in> set ids. i \<notin> set (msg_ids ?b)}" by auto
    let ?asked = "filter (\<lambda>i. i \<in> set (msg_ids ?b)) ids"
    have asked: "set ?asked = ?due \<inter> set (msg_ids ?b)" using f(3) by auto
    have "ascending id ?asked" using f(2) unfolding ascending_def by (rule sorted_wrt_filter)
    then have sorted: "sorted_list_of_set (?due \<inter> set (msg_ids ?b)) = ?asked"
      unfolding asked [symmetric] by (rule ascending_sorted_list)
    have empty: "?asked = [] \<longleftrightarrow> ?due \<inter> set (msg_ids ?b) = {}"
      unfolding asked [symmetric] by (simp only: set_empty)
    have forget: "set forget = ?due - ?due \<inter> set (msg_ids ?b)" using loop(2) f(3) by auto
    let ?text = "ctrl_sendable (make_rexmit ?asked)" and ?turn = "rexmit_sender_turn h aton os now r"
    have "if ?asked \<noteq> [] \<and> fst os \<noteq> int (length ?text) then \<exists>e. ?turn = Inl (Socket_Exception e)
      else \<exists>r'. ?turn = Inr r'
        \<and> ctl_sent (rc_ctrl r') = ctl_sent (rc_ctrl r) @ (if ?asked = [] then [] else [(addr, ?text)])
        \<and> set (ids_to_forget r') = ?due - ?due \<inter> set (msg_ids ?b)"
      unfolding rexmit_sender_turn_def using f(1) loop(1) forget assms(4,5)
      by (simp add: send_to_def Let_def)
    then show ?thesis unfolding Let_def if_not_P [OF False] sorted empty .
  qed
qed

text \<open>C21: a turn of the retransmission thread asks the selected station's control address for exactly
  the identifiers that are due, were not forgotten and still have a slot in the buffer, in ascending
  order in one message, and sends nothing when there are none; the due ones without a slot are
  forgotten in the next turn. But when anything is due while the buffer is empty (all has been
  played, or the resetter has just emptied it) the turn reads an empty deque, and a message that the
  system does not take whole ends the program.\<close>
theorem requests_are_for_free_slots:
  assumes "rexmit_inv (rc_rexmits r)" "buf_inv (rc_buffer r)"
    and "\<And>i. due_at (rc_rexmits r) i \<noteq> None \<Longrightarrow> unat (package_size (rc_buffer r)) dvd unat i"
    and "get_selected now (rc_stations r) = Inr (Some st, ss)"
    and "make_address h aton (ctrl_address st) (ctrl_port st) = Inr addr"
  shows "let due = {i. i \<notin> set (ids_to_forget r) \<and> (\<exists>t. due_at (rc_rexmits r) i = Some t \<and> t \<le> now)};
      asked = due \<inter> set (msg_ids (rc_buffer r));
      text = ctrl_sendable (make_rexmit (sorted_list_of_set asked));
      turn = rexmit_sender_turn h aton os now r in
    if msg_ids (rc_buffer r) = [] \<and> due \<noteq> {} then turn = Inl (Undefined Empty_Container)
    else if asked \<noteq> {} \<and> fst os \<noteq> int (length text) then \<exists>e. turn = Inl (Socket_Exception e)
    else \<exists>r'. turn = Inr r'
      \<and> ctl_sent (rc_ctrl r') = ctl_sent (rc_ctrl r) @ (if asked = {} then [] else [(addr, text)])
      \<and> set (ids_to_forget r') = due - asked"
  by (rule rexmit_turn_asks [OF assms])

text \<open>A packet of the playing session whose number is not a multiple of the packet size is not
  stored; it makes the resetter's next turn empty the buffer and the pending requests and forget
  the playing station, while packets of the same session stay acceptable.\<close>
lemma misaligned_packet_restarts:
  assumes "buf_inv (rc_buffer r)" "buf_state (rc_buffer r) \<noteq> NO_SESSION" "sock (rc_socket r) \<noteq> -1"
    and "data_msg_raw h raw = Inr m" "dm_session_id m = Some (session_id (rc_state r))"
    and "dm_id m mod package_size (rc_buffer r) \<noteq> 0"
  shows "\<exists>r1 r2. data_receiver_turn h now (Received raw) r = Some (Inr r1)
    \<and> slots (rc_buffer r1) = slots (rc_buffer r)
    \<and> playback_resetter_turn h aton os now r1 = Inr r2
    \<and> buf_state (rc_buffer r2) = NO_SESSION \<and> slots (rc_buffer r2) = []
    \<and> rexmit_ids (rc_rexmits r2) = [] \<and> active_station (rc_state r2) = None
    \<and> session_id (rc_state r2) = session_id (rc_state r)"
proof -
  let ?b = "check_readable m (rc_buffer r)"
  have "package_size (rc_buffer r) \<noteq> 0" using assms(1,2) by (auto simp: inv_defs)
  then have "write_get_missed m (rc_buffer r) = Some (Inl (not_divisible (dm_id m) (package_size (rc_buffer r))), ?b)"
    using assms(2,6) by (simp add: write_get_missed_def start_session_def save_message_def get_id_def)
  then have "data_receiver_turn h now (Received raw) r =
      Some (Inr (r\<lparr>rc_buffer := ?b, rc_state := mark_dirty (rc_state r)\<rparr>))"
    using assms(3-5)
    by (simp add: data_receiver_turn_def data_try_read_def get_session_id_def register_session_check_ignore_def
        not_divisible_def)
  then show ?thesis
    by (simp add: playback_resetter_turn_def check_state_def mark_dirty_def buffer_reset_def rexmit_reset_def
        slots_def)
qed

text \<open>C15: the first packet of a new session only marks the state. Until the resetter's next turn, which may
  come 20 ms later, packets of the new session are written between those of the old one: one whose number
  is that of a slot replaces what the slot holds, and is then played among the old session's packets.\<close>
theorem sessions_can_mix:
  assumes "buf_inv (rc_buffer r)" "buf_state (rc_buffer r) = READABLE" "sock (rc_socket r) \<noteq> -1"
    and "max_msg_id (rc_buffer r) = last (msg_ids (rc_buffer r))"
    and "last (msg_ids (rc_buffer r)) \<le> last (msg_ids (rc_buffer r)) + package_size (rc_buffer r)"
    and "data_msg_raw h raw1 = Inr m1" "dm_session_id m1 = Some s" "session_id (rc_state r) < s"
    and "data_msg_raw h raw2 = Inr m2" "dm_session_id m2 = Some s" "dm_data m2 = Some d"
    and "slots (rc_buffer r) = (dm_id m2, old) # rest" "dm_id m2 mod package_size (rc_buffer r) = 0"
  shows "\<exists>r1 r2 r3. data_receiver_turn h now (Received raw1) r = Some (Inr r1)
    \<and> data_receiver_turn h later (Received raw2) r1 = Some (Inr r2)
    \<and> slots (rc_buffer r2) = (dm_id m2, Some d) # rest \<and> dirty (rc_state r2)
    \<and> data_streamer_turn r2 = Inr r3 \<and> played r3 = played r @ d \<and> slots (rc_buffer r3) = rest"
proof -
  let ?b = "rc_buffer r" and ?r1 = "r\<lparr>rc_state := (rc_state r)\<lparr>session_id := s, dirty := True\<rparr>\<rparr>"
  have len: "length (msg_vals ?b) = length (msg_ids ?b)" using assms(1) by (simp add: buf_inv_def)
  with assms(12) map_fst_slots [of ?b] have ids: "msg_ids ?b = dm_id m2 # map fst rest" by simp
  have "sorted_wrt (<) (msg_ids ?b)" using assms(1,2) by (intro contiguous_ascending) (auto simp: inv_defs)
  with ids have ids: "msg_ids ?b = dm_id m2 # map fst rest" "distinct (msg_ids ?b)" "dm_id m2 \<le> last (msg_ids ?b)"
    by (auto simp: strict_sorted_iff last_map intro: less_imp_le)
  have late: "dm_id m2 \<le> max_msg_id ?b + package_size ?b" using ids(3) assms(4,5) by simp
  obtain k b where b: "write_get_missed m2 ?b = Some (Inr [], b)" "k < length (msg_ids ?b)" "msg_ids ?b ! k = dm_id m2"
      "slots b = (slots ?b)[k := (dm_id m2, Some d)]" "buf_state b = READABLE" "length (msg_vals b) = length (msg_ids b)"
    using write_late_ok [OF assms(1) _ _ _ ids(3) assms(13,11) late] assms(2) ids(1) by (auto simp: check_readable_def)
  have "k = 0" using b(2,3) ids(1,2) by (metis length_greater_0_conv list.distinct(1) nth_Cons_0 nth_eq_iff_index_eq)
  then have slots: "slots b = (dm_id m2, Some d) # rest" using b(4) assms(12) by simp
  with b(6) obtain vs where vals: "msg_vals b = Some d # vs" "slots (pop_front b) = rest"
    by (cases "msg_vals b"; cases "msg_ids b") (auto simp: slots_def pop_front_def)
  let ?r2 = "?r1\<lparr>rc_buffer := b\<rparr>"
  have "data_receiver_turn h now (Received raw1) r = Some (Inr ?r1)"
    by (rule receive_new_session [OF assms(3,6-8)])
  moreover have "data_receiver_turn h later (Received raw2) ?r1 = Some (Inr ?r2)"
    using assms(3) b(1) by (intro receive_accepted [OF _ assms(9,10)]) simp_all
  moreover have "data_streamer_turn ?r2 = Inr (?r2\<lparr>rc_buffer := pop_front b, played := played r @ d\<rparr>)"
    using b(5) vals(1) by (simp add: data_streamer_turn_def buffer_try_read_def optional_read_def)
  ultimately show ?thesis using slots vals(2) by (intro exI conjI) (assumption | simp)+
qed

text \<open>A receiver with the three-slot buffer and two pending requests, one of them without a slot.\<close>

definition sample_pending :: receiver where
  "sample_pending =
     (receiver_members ''255.255.255.255'' 35830 6 1 None 0 0 0 sample_station sample_ctrl (ui_table 3 15830 500 4))
       \<lparr>rc_buffer := sample_buffer,
        rc_socket := (data_socket_init sample_station 500)\<lparr>sock := 3, rx_open := [3]\<rparr>,
        rc_stations := \<lparr>preferred_station_name = None, stations = [sample_station], selected_station = At ''A''\<rparr>,
        rc_rexmits := \<lparr>rexmit_ids = [mk_rexmit_id 2 5, mk_rexmit_id 6 7, mk_rexmit_id 8 90],
                       last_update = 0, rtime = 1000000000\<rparr>\<rparr>"

lemma sample_pending_fields:
  "rc_buffer sample_pending = sample_buffer" "ids_to_forget sample_pending = []" "ctl_sent (rc_ctrl sample_pending) = []"
  "sock (rc_socket sample_pending) \<noteq> -1" "session_id (rc_state sample_pending) = 0"
  "rc_rexmits sample_pending = \<lparr>rexmit_ids = [mk_rexmit_id 2 5, mk_rexmit_id 6 7, mk_rexmit_id 8 90],
     last_update = 0, rtime = 1000000000\<rparr>"
  "rc_stations sample_pending =
     \<lparr>preferred_station_name = None, stations = [sample_station], selected_station = At ''A''\<rparr>"
  by (simp_all add: sample_pending_def receiver_members_def state_init_def sample_ctrl_def)

lemma sample_pending_ok:
  "rexmit_inv (rc_rexmits sample_pending)"
  "due_at (rc_rexmits sample_pending) i =
     (if i = 2 then Some 5 else if i = 6 then Some 7 else if i = 8 then Some 90 else None)"
  "get_selected 10 (rc_stations sample_pending) = Inr (Some sample_station, rc_stations sample_pending)"
proof -
  show "rexmit_inv (rc_rexmits sample_pending)"
    "due_at (rc_rexmits sample_pending) i =
     (if i = 2 then Some 5 else if i = 6 then Some 7 else if i = 8 then Some 90 else None)"
    by (auto simp: sample_pending_fields(6) rexmit_inv_def due_at_def)
  show "get_selected 10 (rc_stations sample_pending) = Inr (Some sample_station, rc_stations sample_pending)"
    by (simp add: sample_pending_fields(7) get_selected_def remove_old_stations_def begin_of_def
        inactive_def max_inactive_def sample_station_def behind_def get_selected_station_def deref_def)
qed

theorem requests_are_for_free_slots_witness:
  "\<exists>r'. rexmit_sender_turn Little_Endian (\<lambda>_. Some 16777226)
        (int (length (ctrl_sendable (make_rexmit [6]))), []) 10 sample_pending = Inr r'
    \<and> ctl_sent (rc_ctrl r') = [(\<lparr>sin_port = 63115, sin_addr = 16777226\<rparr>, ctrl_sendable (make_rexmit [6]))]
    \<and> set (ids_to_forget r') = {2}"
proof -
  let ?due = "{i. i \<notin> set (ids_to_forget sample_pending)
    \<and> (\<exists>t. due_at (rc_rexmits sample_pending) i = Some t \<and> t \<le> 10)}"
  have due: "?due = {2, 6}" by (auto simp: sample_pending_ok(2) sample_pending_fields(2))
  have ids: "msg_ids (rc_buffer sample_pending) = [4, 6, 8]" "package_size (rc_buffer sample_pending) = 2"
    by (simp_all add: sample_pending_fields(1) sample_buffer_fields)
  have asked: "{2, 6} \<inter> set (msg_ids (rc_buffer sample_pending)) = {6}" by (auto simp: ids)
  have addr: "make_address Little_Endian (\<lambda>_. Some 16777226) (ctrl_address sample_station) (ctrl_port sample_station)
      = Inr \<lparr>sin_port = 63115, sin_addr = 16777226\<rparr>"
    by (simp add: make_address_def htons_def sample_station_def)
  have aligned: "unat (package_size (rc_buffer sample_pending)) dvd unat i"
    if "due_at (rc_rexmits sample_pending) i \<noteq> None" for i
    using that by (auto simp: sample_pending_ok(2) ids(2) split: if_splits)
  have inv: "buf_inv (rc_buffer sample_pending)"
    by (simp add: sample_pending_fields(1) sample_buffer_ok)
  show ?thesis
    using requests_are_for_free_slots [OF sample_pending_ok(1) inv aligned sample_pending_ok(3) addr,
        of "(int (length (ctrl_sendable (make_rexmit [6]))), [])"]
    unfolding due Let_def asked by (auto simp: ids sample_pending_fields(3))
qed

lemma misaligned_packet_restarts_example:
  "\<exists>r1 r2. data_receiver_turn Little_Endian 0
        (Received [0, 0, 0, 0, 0, 0, 0, 0, 5, 0, 0, 0, 0, 0, 0, 0, 9]) sample_pending = Some (Inr r1)
    \<and> playback_resetter_turn Little_Endian (\<lambda>_. None)
        \<lparr>new_fd = 3, membership_err = 0, timeout_err = 0, bind_err = 0, error_text = []\<rparr> 0 r1 = Inr r2
    \<and> slots (rc_buffer r2) = []"
proof -
  have wire_5: "data_msg_raw Little_Endian [0, 0, 0, 0, 0, 0, 0, 0, 5, 0, 0, 0, 0, 0, 0, 0, 9]
      = Inr (data_msg_full 5 0 [9])"
    by (simp add: data_msg_raw_def value_at_def data_msg_full_def)
  show ?thesis
    using misaligned_packet_restarts [OF _ _ sample_pending_fields(4) wire_5, where now = 0 and aton = "\<lambda>_. None"
        and os = "\<lparr>new_fd = 3, membership_err = 0, timeout_err = 0, bind_err = 0, error_text = []\<rparr>"]
    by (auto simp: sample_pending_fields sample_buffer_ok sample_buffer_fields data_msg_full_def)
qed

text \<open>Session 9 begins while the packets 4, 6 (missing) and 8 of session 0 are played: its packet 4 is played
  in the place of theirs.\<close>

theorem sessions_can_mix_witness:
  "let r = sample_pending\<lparr>rc_buffer := sample_buffer\<lparr>buf_state := READABLE\<rparr>\<rparr> in
   \<exists>r1 r2 r3. data_receiver_turn Little_Endian 0
        (Received [9, 0, 0, 0, 0, 0, 0, 0, 2, 0, 0, 0, 0, 0, 0, 0, 7, 7]) r = Some (Inr r1)
    \<and> data_receiver_turn Little_Endian 1
        (Received [9, 0, 0, 0, 0, 0, 0, 0, 4, 0, 0, 0, 0, 0, 0, 0, 8, 8]) r1 = Some (Inr r2)
    \<and> data_streamer_turn r2 = Inr r3 \<and> played r3 = [8, 8]
    \<and> slots (rc_buffer r3) = [(6, None), (8, Some [5, 6])]"
proof -
  let ?r = "sample_pending\<lparr>rc_buffer := sample_buffer\<lparr>buf_state := READABLE\<rparr>\<rparr>"
  have wire: "data_msg_raw Little_Endian [9, 0, 0, 0, 0, 0, 0, 0, 2, 0, 0, 0, 0, 0, 0, 0, 7, 7] = Inr (data_msg_full 2 9 [7, 7])"
    "data_msg_raw Little_Endian [9, 0, 0, 0, 0, 0, 0, 0, 4, 0, 0, 0, 0, 0, 0, 0, 8, 8] = Inr (data_msg_full 4 9 [8, 8])"
    by (simp_all add: data_msg_raw_def value_at_def data_msg_full_def)
  have b: "buf_inv (rc_buffer ?r)" "buf_state (rc_buffer ?r) = READABLE" "sock (rc_socket ?r) \<noteq> -1"
      "max_msg_id (rc_buffer ?r) = last (msg_ids (rc_buffer ?r))"
      "last (msg_ids (rc_buffer ?r)) \<le> last (msg_ids (rc_buffer ?r)) + package_size (rc_buffer ?r)"
    using sample_pending_fields(4) by (simp_all add: sample_buffer_def inv_defs contiguous_def)
  have slots: "slots (rc_buffer ?r) = (4, Some [1, 2]) # [(6, None), (8, Some [5, 6])]"
    by (simp add: sample_buffer_def slots_def)
  have "played ?r = []" by (simp add: sample_pending_def receiver_members_def)
  moreover have "\<exists>r1 r2 r3. data_receiver_turn Little_Endian 0
        (Received [9, 0, 0, 0, 0, 0, 0, 0, 2, 0, 0, 0, 0, 0, 0, 0, 7, 7]) ?r = Some (Inr r1)
    \<and> data_receiver_turn Little_Endian 1
        (Received [9, 0, 0, 0, 0, 0, 0, 0, 4, 0, 0, 0, 0, 0, 0, 0, 8, 8]) r1 = Some (Inr r2)
    \<and> slots (rc_buffer r2) = (dm_id (data_msg_full 4 9 [8, 8]), Some [8, 8]) # [(6, None), (8, Some [5, 6])]
    \<and> dirty (rc_state r2) \<and> data_streamer_turn r2 = Inr r3 \<and> played r3 = played ?r @ [8, 8]
    \<and> slots (rc_buffer r3) = [(6, None), (8, Some [5, 6])]"
    by (rule sessions_can_mix [where s = 9 and old = "Some [1, 2]", OF b wire(1) _ _ wire(2)])
      (use slots sample_pending_fields(5) in \<open>simp_all add: data_msg_full_def sample_buffer_def\<close>)
  ultimately show ?thesis unfolding Let_def by auto
qed

end
