(* ===== verification/Lockable_Queue.thy ===== *)
theory Lockable_Queue
  imports Data_Msg Std_Set
begin

text \<open>
  \<open>src/sender/lockable_queue.hpp\<close>: a queue of data messages, emptied one by one (the sender) or all
  at once into a set (the retransmitter). The contract of a queue is a locale; its client is any
  sequence of pushes and pops.
\<close>

type_synonym lockable_queue = "data_msg list"

definition queue_push :: "data_msg \<Rightarrow> lockable_queue \<Rightarrow> lockable_queue" where
  "queue_push m q = q @ [m]"

definition atomic_get_and_pop :: "lockable_queue \<Rightarrow> data_msg option \<times> lockable_queue" where
  "atomic_get_and_pop q = (case q of [] \<Rightarrow> (None, []) | m # rest \<Rightarrow> (Some m, rest))"

text \<open>The set is ordered by \<open>operator<\<close> of \<open>data_msg\<close>, that is by identifier.\<close>

fun unique_loop :: "data_msg list \<Rightarrow> lockable_queue \<Rightarrow> data_msg list \<times> lockable_queue" where
  "unique_loop ret [] = (ret, [])"
| "unique_loop ret (m # q) = unique_loop (emplace dm_id m ret) q"

definition atomic_get_unique :: "lockable_queue \<Rightarrow> data_msg list \<times> lockable_queue" where
  "atomic_get_unique q = unique_loop [] q"

subsection \<open>The contract of a queue\<close>

datatype 'a queue_call = Push 'a | Pop

text \<open>A sequence of calls: what the pops return, and the state in the end.\<close>

fun queue_run ::
  "('a \<Rightarrow> 's \<Rightarrow> 's) \<Rightarrow> ('s \<Rightarrow> 'a option \<times> 's) \<Rightarrow> 'a queue_call list \<Rightarrow> 's \<Rightarrow> 'a list \<times> 's" where
  "queue_run enq deq [] s = ([], s)"
| "queue_run enq deq (Push x # cs) s = queue_run enq deq cs (enq x s)"
| "queue_run enq deq (Pop # cs) s =
     (let (r, s1) = deq s; (xs, s2) = queue_run enq deq cs s1
      in (case r of None \<Rightarrow> xs | Some x \<Rightarrow> x # xs, s2))"

fun pushed :: "'a queue_call list \<Rightarrow> 'a list" where
  "pushed [] = []"
| "pushed (Push x # cs) = x # pushed cs"
| "pushed (Pop # cs) = pushed cs"

locale fifo_queue =
  fixes enq :: "'a \<Rightarrow> 's \<Rightarrow> 's"
    and deq :: "'s \<Rightarrow> 'a option \<times> 's"
    and held :: "'s \<Rightarrow> 'a list"
  assumes held_enq: "held (enq x s) = held s @ [x]"
    and deq_empty: "held s = [] \<Longrightarrow> fst (deq s) = None \<and> held (snd (deq s)) = []"
    and deq_front: "held s = x # xs \<Longrightarrow> fst (deq s) = Some x \<and> held (snd (deq s)) = xs"
begin

lemma run_fifo: "queue_run enq deq cs s = (outs, s') \<Longrightarrow> held s @ pushed cs = outs @ held s'"
proof (induction cs arbitrary: s outs)
  case Nil
  then show ?case by simp
next
  case (Cons c cs)
  show ?case
  proof (cases c)
    case (Push x)
    with Cons show ?thesis by (fastforce simp: held_enq)
  next
    case Pop
    obtain r s1 where d: "deq s = (r, s1)" by fastforce
    obtain xs s2 where "queue_run enq deq cs s1 = (xs, s2)" by fastforce
    with Cons Pop d deq_empty [of s] deq_front [of s] show ?thesis
      by (cases "held s") fastforce+
  qed
qed

lemma run_outputs_prefix:
  "held s = [] \<Longrightarrow> queue_run enq deq cs s = (outs, s') \<Longrightarrow> outs = take (length outs) (pushed cs)"
  using run_fifo [of cs s outs s'] by simp

end

interpretation send_queue: fifo_queue queue_push atomic_get_and_pop "\<lambda>q. q"
  by unfold_locales (auto simp: queue_push_def atomic_get_and_pop_def split: list.split)

subsection \<open>Emptying the queue into a set\<close>

lemma unique_loop_fold: "unique_loop ret q = (fold (emplace dm_id) q ret, [])"
  by (induction ret q rule: unique_loop.induct) simp_all

subsection \<open>Properties\<close>

text \<open>Whatever order the reader's pushes and the sender's pops come in, the messages popped so far
  followed by those still in the queue are the messages pushed, in the order they were pushed: none
  is lost, repeated or overtaken.\<close>
lemma queue_is_fifo:
  "let (outs, q) = queue_run queue_push atomic_get_and_pop cs [] in pushed cs = outs @ q"
  using send_queue.run_fifo [of cs "[]"] by (cases "queue_run queue_push atomic_get_and_pop cs []") simp

text \<open>\<open>atomic_get_unique\<close> empties the queue into a set that has, in ascending order of
  identifiers, one message for each identifier in the queue: of several requests for one packet the
  first.\<close>
lemma unique_is_first_of_each_id:
  "\<exists>us. atomic_get_unique q = (us, []) \<and> ascending dm_id us
    \<and> (\<forall>i. lookup dm_id us i = find (\<lambda>m. dm_id m = i) q)"
  by (simp add: atomic_get_unique_def unique_loop_fold std_set.shape_puts std_set.find_puts)

end
