(* ===== verification/Lockable_Cache.thy ===== *)
theory Lockable_Cache
  imports Data_Msg
begin

text \<open>
  \<open>src/sender/lockable_cache.hpp\<close>: the sender's cache of packets for retransmission, a vector that
  a packet's identifier modulo the size of the cache indexes. A write outside the vector and the
  remainder by a size of 0 are undefined.
\<close>

record lockable_cache =
  container :: "data_msg list"
  container_size :: u64

definition cache_init :: "u64 \<Rightarrow> lockable_cache" where
  "cache_init n = \<lparr>container = [], container_size = n\<rparr>"

definition internal_id :: "msg_id_t \<Rightarrow> lockable_cache \<Rightarrow> u64 result" where
  "internal_id i c =
     (if container_size c = 0 then Inl (Undefined Division_By_Zero) else Inr (i mod container_size c))"

definition atomic_get :: "msg_id_t \<Rightarrow> lockable_cache \<Rightarrow> data_msg option result" where
  "atomic_get i c =
     (if length (container c) \<le> unat i then Inr None
      else and_then (internal_id i c) (\<lambda>k.
        if unat k < length (container c) then Inr (Some (container c ! unat k))
        else Inl (Undefined Out_Of_Bounds)))"

definition cache_push :: "data_msg \<Rightarrow> lockable_cache \<Rightarrow> lockable_cache result" where
  "cache_push m c =
     and_then (internal_id (get_id m) c) (\<lambda>k.
       let c1 = (if unat k = length (container c) then c\<lparr>container := container c @ [m]\<rparr> else c)
       in if unat k < length (container c1)
          then Inr (c1\<lparr>container := (container c1)[unat k := m]\<rparr>)
          else Inl (Undefined Out_Of_Bounds))"

text \<open>A sequence of pushes, stopping at the first undefined one.\<close>

fun cache_run :: "data_msg list \<Rightarrow> lockable_cache \<Rightarrow> lockable_cache result" where
  "cache_run [] c = Inr c"
| "cache_run (m # ms) c = and_then (cache_push m c) (cache_run ms)"

lemma cache_run_snoc: "cache_run (ms @ [m]) c = and_then (cache_run ms c) (cache_push m)"
  by (induction ms arbitrary: c) (auto simp: and_then_def split: sum.split)

text \<open>The identifiers of the packets that the sender numbers from 0 in steps of \<open>p\<close>.\<close>

definition numbered :: "u64 \<Rightarrow> data_msg list \<Rightarrow> bool" where
  "numbered p ms \<longleftrightarrow> (\<forall>i < length ms. unat (dm_id (ms ! i)) = i * unat p)"

lemma numbered_snoc:
  "numbered p (ms @ [m]) \<longleftrightarrow> numbered p ms \<and> unat (dm_id m) = length ms * unat p"
  by (auto simp: numbered_def nth_append less_Suc_eq)

lemma numbered_append: "numbered p (xs @ ys) \<Longrightarrow> numbered p xs"
  unfolding numbered_def by (metis length_append nth_append trans_less_add1)

lemma cache_push_index:
  fixes m :: data_msg
  assumes "container_size c \<noteq> 0"
  defines "k \<equiv> unat (dm_id m) mod unat (container_size c)"
  shows "cache_push m c =
    (if k < length (container c) then Inr (c\<lparr>container := (container c)[k := m]\<rparr>)
     else if k = length (container c) then Inr (c\<lparr>container := container c @ [m]\<rparr>)
     else Inl (Undefined Out_Of_Bounds))"
  using assms by (simp add: cache_push_def internal_id_def get_id_def unat_mod_distrib Let_def)

text \<open>When the packet size is a multiple of the cache's, every packet goes to the first slot.\<close>

lemma cache_run_single:
  assumes "numbered p ms" "ms \<noteq> []" "n \<noteq> 0" "unat p mod unat n = 0"
  shows "cache_run ms (cache_init n) = Inr \<lparr>container = [last ms], container_size = n\<rparr>"
  using assms(1,2)
proof (induction ms rule: rev_induct)
  case (snoc m ms)
  have "unat (dm_id m) mod unat n = 0"
    using snoc.prems assms(4) by (auto simp: numbered_snoc)
  with snoc assms(3) show ?case
    by (cases "ms = []") (simp_all add: cache_run_snoc cache_push_index numbered_snoc cache_init_def)
qed simp

text \<open>When it leaves remainder 1, the cache is a ring of the newest packets.\<close>

definition ring :: "nat \<Rightarrow> data_msg list \<Rightarrow> data_msg list \<Rightarrow> bool" where
  "ring n ms cs \<longleftrightarrow>
     length cs = min n (length ms) \<and> (\<forall>i < length ms. length ms \<le> i + n \<longrightarrow> cs ! (i mod n) = ms ! i)"

lemma mod_mult_remainder_1: "(p :: nat) mod n = 1 \<Longrightarrow> (k * p) mod n = k mod n"
  by (metis mod_mult_right_eq mult.right_neutral)

lemma ring_mod_neq:
  fixes i k n :: nat
  assumes "i < k" "k < i + n"
  shows "i mod n \<noteq> k mod n"
proof
  assume "i mod n = k mod n"
  then have "n dvd k - i" using assms(1) mod_eq_dvd_iff_nat [of i k n] by simp
  then show False using assms by (auto dest: dvd_imp_le)
qed

lemma ring_push:
  assumes "ring n ms cs" "0 < n"
  shows "if length ms < n then ring n (ms @ [m]) (cs @ [m])
    else ring n (ms @ [m]) (cs[length ms mod n := m])"
proof (cases "length ms < n")
  case True
  with assms(1) show ?thesis by (auto simp: ring_def nth_append less_Suc_eq)
next
  case False
  have "(cs[length ms mod n := m]) ! (i mod n) = (ms @ [m]) ! i"
    if i: "i < Suc (length ms)" "Suc (length ms) \<le> i + n" for i
  proof (cases "i = length ms")
    case True
    with False assms show ?thesis by (simp add: ring_def)
  next
    case older: False
    with i ring_mod_neq [of i "length ms" n] assms(1) show ?thesis
      by (auto simp: ring_def nth_append nth_list_update)
  qed
  with False assms(1) show ?thesis by (simp add: ring_def)
qed

lemma cache_run_ring:
  assumes "numbered p ms" "1 < unat n" "unat p mod unat n = 1"
  shows "\<exists>cs. cache_run ms (cache_init n) = Inr \<lparr>container = cs, container_size = n\<rparr> \<and> ring (unat n) ms cs"
  using assms(1)
proof (induction ms rule: rev_induct)
  case Nil
  then show ?case by (simp add: ring_def cache_init_def)
next
  case (snoc m ms)
  then obtain cs where cs: "cache_run ms (cache_init n) = Inr \<lparr>container = cs, container_size = n\<rparr>"
      "ring (unat n) ms cs"
    by (auto simp: numbered_snoc)
  have k: "unat (dm_id m) mod unat n = length ms mod unat n"
    using snoc.prems mod_mult_remainder_1 [OF assms(3)] by (simp add: numbered_snoc)
  have n: "n \<noteq> 0" "length ms mod unat n < unat n" using assms(2) by auto
  show ?case
  proof (cases "length ms < unat n")
    case True
    then show ?thesis
      using cs ring_push [OF cs(2), of m] k n
      by (simp add: cache_run_snoc cache_push_index ring_def)
  next
    case False
    then have "length cs = unat n" using cs(2) by (simp add: ring_def)
    then show ?thesis
      using cs ring_push [OF cs(2), of m] k n False
      by (simp add: cache_run_snoc cache_push_index)
  qed
qed

lemma cache_run_out_of_bounds:
  assumes "numbered p ms" "2 \<le> length ms" "n \<noteq> 0" "1 < unat p mod unat n"
  shows "cache_run ms (cache_init n) = Inl (Undefined Out_Of_Bounds)"
proof -
  obtain m0 m1 rest where ms: "ms = m0 # m1 # rest"
    using assms(2) by (metis Suc_le_length_iff numeral_2_eq_2)
  have ids: "unat (dm_id m0) = 0" "unat (dm_id m1) = unat p"
    using assms(1) ms by (auto simp: numbered_def dest: spec [of _ 0] spec [of _ "1 :: nat"])
  show ?thesis
    using ids assms(3,4) by (simp add: ms cache_push_index cache_init_def)
qed

lemma cache_get_found:
  "atomic_get i c = Inr (Some m) \<Longrightarrow>
   unat i < length (container c) \<and> m \<in> set (container c)"
  by (auto simp: atomic_get_def and_then_ok_iff split: if_splits)

text \<open>Every packet held was pushed, and there are at most as many as the cache is for.\<close>

lemma cache_push_held:
  assumes "cache_push m c = Inr c'"
  shows "container_size c' = container_size c" "set (container c') \<subseteq> insert m (set (container c))"
    "length (container c) \<le> unat (container_size c) \<Longrightarrow> length (container c') \<le> unat (container_size c)"
proof -
  let ?k = "unat (dm_id m) mod unat (container_size c)"
  have n: "container_size c \<noteq> 0"
    using assms by (auto simp: cache_push_def internal_id_def split: if_splits)
  then have "?k < unat (container_size c)" by (simp add: unat_gt_0)
  with assms set_update_subset_insert [of "container c" ?k m]
  show "container_size c' = container_size c" "set (container c') \<subseteq> insert m (set (container c))"
    "length (container c) \<le> unat (container_size c) \<Longrightarrow> length (container c') \<le> unat (container_size c)"
    by (auto simp: cache_push_index [OF n] split: if_splits)
qed

lemma cache_run_held:
  assumes "cache_run ms (cache_init n) = Inr c"
  shows "container_size c = n \<and> set (container c) \<subseteq> set ms \<and> length (container c) \<le> unat n"
  using assms
proof (induction ms arbitrary: c rule: rev_induct)
  case Nil
  then show ?case by (auto simp: cache_init_def)
next
  case (snoc m ms)
  then obtain c1 where c1: "cache_run ms (cache_init n) = Inr c1" "cache_push m c1 = Inr c"
    by (auto simp: cache_run_snoc and_then_ok_iff)
  from snoc.IH [OF c1(1)] cache_push_held [OF c1(2)] show ?case by auto
qed

text \<open>Of the packets that the sender numbers in steps of a packet size of at least two bytes, only the first
  can be found in the cache again: the lookup compares the byte number that is asked for with the number
  of packets held.\<close>

lemma found_is_first:
  assumes "numbered p ms" "2 \<le> unat p" "n \<noteq> 0"
    and "cache_run ms (cache_init n) = Inr c" "atomic_get i c = Inr (Some m)" "get_id m = i"
  shows "i = 0"
proof -
  have held: "unat i < unat n" "m \<in> set ms"
    using cache_run_held [OF assms(4)] cache_get_found [OF assms(5)] by auto
  then obtain j where j: "j < length ms" "unat i = j * unat p"
    using assms(1,6) by (auto simp: numbered_def in_set_conv_nth get_id_def)
  have "j = 0"
  proof (cases "unat n \<le> unat p")
    case True
    with held(1) j(2) show ?thesis by (cases j) auto
  next
    case False
    with assms(2) have "1 < unat p mod unat n" by simp
    with cache_run_out_of_bounds [OF assms(1) _ assms(3)] assms(4) have "\<not> 2 \<le> length ms" by auto
    with j(1) show ?thesis by simp
  qed
  with j(2) show "i = 0" by (simp add: word_unat_eq_iff)
qed

subsection \<open>Properties\<close>

text \<open>C28: what the cache holds after the sender has pushed packets numbered from 0 in steps of the
  packet size \<open>p\<close> depends on \<open>p\<close> modulo the cache's size \<open>n\<close>, because the byte number of a packet,
  not its position, chooses the slot: with remainder 0 every packet overwrites the first slot and one
  packet is held; with remainder 1 the newest \<open>n\<close> packets are held in a ring; with any other
  remainder the second push writes outside the vector.\<close>
theorem cache_after_pushes:
  assumes "numbered p ms" "2 \<le> length ms" "n \<noteq> 0"
  shows "if unat p mod unat n = 0
      then cache_run ms (cache_init n) = Inr \<lparr>container = [last ms], container_size = n\<rparr>
    else if unat p mod unat n = 1
      then \<exists>cs. cache_run ms (cache_init n) = Inr \<lparr>container = cs, container_size = n\<rparr>
        \<and> ring (unat n) ms cs
    else cache_run ms (cache_init n) = Inl (Undefined Out_Of_Bounds)"
proof -
  have "1 < unat n" if "unat p mod unat n \<noteq> 0"
    using that assms(3) by (cases "unat n = 1") (auto simp: word_unat_eq_iff)
  then show ?thesis
    using cache_run_single [of p ms n] cache_run_ring [of p ms n] cache_run_out_of_bounds [of p ms n] assms
    by force
qed

text \<open>The default sender: packets of 512 bytes, a cache for 256 packets.\<close>

theorem cache_after_pushes_witness:
  "cache_run [data_msg_id_data 0 [1], data_msg_id_data 512 [2], data_msg_id_data 1024 [3]] (cache_init 256)
     = Inr \<lparr>container = [data_msg_id_data 1024 [3]], container_size = 256\<rparr>
   \<and> cache_run [data_msg_id_data 0 [1], data_msg_id_data 512 [2]] (cache_init 196)
     = Inl (Undefined Out_Of_Bounds)"
proof -
  have "numbered 512 [data_msg_id_data 0 [1], data_msg_id_data 512 [2], data_msg_id_data 1024 [3]]"
      "numbered 512 [data_msg_id_data 0 [1], data_msg_id_data 512 [2]]"
    by (simp_all add: numbered_def less_Suc_eq data_msg_id_data_def)
  from cache_after_pushes [OF this(1), of 256] cache_after_pushes [OF this(2), of 196]
  show ?thesis by simp
qed

end
