(* ===== verification/Transmitter.thy ===== *)
theory Transmitter
  imports Lockable_Queue Lockable_Cache Ctrl_Msg
begin

text \<open>
  \<open>src/sender/transmitter.hpp\<close>: the sender. Its constructor, the four threads' operations (reading
  the input, sending, listening for requests, retransmitting), and the transition system in which
  the threads interleave: one step for each call on a shared object, since each of them is
  meant to be atomic. A socket is the list of packets handed to it.
\<close>

record transmitter =
  PSIZE :: u64
  FSIZE :: u64
  RTIME :: u64
  MCAST_ADDR :: string
  DATA_PORT :: in_port
  CTRL_PORT :: in_port
  NAME :: string
  sent_msgs_cache_size :: u64
  send_q :: lockable_queue
  resend_q :: lockable_queue
  sent_msgs :: lockable_cache
  tx_session_id :: msg_id_t

text \<open>The size of the cache divides by the packet size. The session number is the time of the start.\<close>

definition transmitter_init ::
  "u64 \<Rightarrow> u64 \<Rightarrow> u64 \<Rightarrow> string \<Rightarrow> in_port \<Rightarrow> in_port \<Rightarrow> string \<Rightarrow> u64 \<Rightarrow> transmitter result" where
  "transmitter_init psize fsize rtime addr data_port ctrl_port name now =
     (if psize = 0 then Inl (Undefined Division_By_Zero)
      else
        let cache_size = 1 + ((fsize - 1) div psize)
        in Inr \<lparr>PSIZE = psize, FSIZE = fsize, RTIME = rtime, MCAST_ADDR = addr, DATA_PORT = data_port,
                CTRL_PORT = ctrl_port, NAME = name, sent_msgs_cache_size = cache_size, send_q = [],
                resend_q = [], sent_msgs = cache_init cache_size, tx_session_id = now\<rparr>)"

subsection \<open>Reading the input\<close>

text \<open>The reader's variables: what is left of the input, the stream's end-of-file bit, the buffer,
  which is made once and filled again by every read, and the next identifier.\<close>

record reader =
  rd_input :: "byte list"
  at_eof :: bool
  rd_buf :: msg_t
  current_msg_id :: msg_id_t

definition reader_init :: "transmitter \<Rightarrow> byte list \<Rightarrow> reader" where
  "reader_init t inp =
     \<lparr>rd_input = inp, at_eof = False, rd_buf = replicate (unat (PSIZE t)) 0, current_msg_id = 0\<rparr>"

text \<open>\<open>std::cin.read\<close> takes as many bytes as are wanted and left; it sets the end-of-file bit when it
  wants more than are left, and then the rest of the buffer keeps its contents.\<close>

definition read_chunk :: "transmitter \<Rightarrow> reader \<Rightarrow> data_msg \<times> reader" where
  "read_chunk t r =
     (let n = length (rd_buf r);
          chunk = take n (rd_input r);
          buf = chunk @ drop (length chunk) (rd_buf r)
      in (data_msg_id_data (current_msg_id r) buf,
          \<lparr>rd_input = drop n (rd_input r), at_eof = length (rd_input r) < n, rd_buf = buf,
           current_msg_id = current_msg_id r + PSIZE t\<rparr>))"

text \<open>The loop, with the messages it pushes.\<close>

partial_function (option) read_input :: "transmitter \<Rightarrow> reader \<Rightarrow> data_msg list option" where
  "read_input t r =
     (if at_eof r then Some []
      else Option.bind (read_input t (snd (read_chunk t r))) (\<lambda>ms. Some (fst (read_chunk t r) # ms)))"

text \<open>What it comes to: the payload of the \<open>k\<close>-th message, and all messages.\<close>

definition payload :: "nat \<Rightarrow> msg_t \<Rightarrow> byte list \<Rightarrow> nat \<Rightarrow> msg_t" where
  "payload p buf inp k =
     (let chunk = take p (drop (k * p) inp)
      in chunk @ drop (length chunk) (if k = 0 then buf else take p (drop ((k - 1) * p) inp)))"

definition packets :: "u64 \<Rightarrow> byte list \<Rightarrow> data_msg list" where
  "packets p inp =
     map (\<lambda>k. data_msg_id_data (of_nat k * p) (payload (unat p) (replicate (unat p) 0) inp k))
       [0..<length inp div unat p + 1]"

lemma read_input_done: "at_eof r \<Longrightarrow> read_input t r = Some []"
  by (subst read_input.simps) simp

lemma read_input_next:
  "\<not> at_eof r \<Longrightarrow> read_chunk t r = (m, r') \<Longrightarrow>
   read_input t r = Option.bind (read_input t r') (\<lambda>ms. Some (m # ms))"
  by (subst read_input.simps) simp

lemma read_input_spec:
  assumes "0 < length buf"
  shows "read_input t \<lparr>rd_input = inp, at_eof = False, rd_buf = buf, current_msg_id = i\<rparr> =
    Some (map (\<lambda>k. data_msg_id_data (i + of_nat k * PSIZE t) (payload (length buf) buf inp k))
      [0..<length inp div length buf + 1])"
  using assms
proof (induction "length inp" arbitrary: inp buf i rule: less_induct)
  case less
  let ?p = "length buf" and ?m = "\<lambda>i buf inp k. data_msg_id_data (i + of_nat k * PSIZE t) (payload (length buf) buf inp k)"
  let ?r = "\<lparr>rd_input = inp, at_eof = False, rd_buf = buf, current_msg_id = i\<rparr>"
  show ?case
  proof (cases "length inp < ?p")
    case True
    then have "read_chunk t ?r = (?m i buf inp 0,
        \<lparr>rd_input = [], at_eof = True, rd_buf = inp @ drop (length inp) buf, current_msg_id = i + PSIZE t\<rparr>)"
      by (simp add: read_chunk_def payload_def Let_def)
    from read_input_next [OF _ this] True show ?thesis by (simp add: read_input_done)
  next
    case False
    let ?inp = "drop ?p inp" and ?buf = "take ?p inp"
    have buf: "length ?buf = ?p" using False by simp
    have "0 < length inp" using less.prems False by linarith
    then have "length ?inp < length inp" "0 < length ?buf" using less.prems by simp_all
    from less.hyps [OF this] have ih: "read_input t \<lparr>rd_input = ?inp, at_eof = False, rd_buf = ?buf,
        current_msg_id = i + PSIZE t\<rparr> = Some (map (?m (i + PSIZE t) ?buf ?inp) [0..<length ?inp div ?p + 1])"
      unfolding buf .
    have shift: "?m (i + PSIZE t) ?buf ?inp k = ?m i buf inp (Suc k)" for k
      using False by (cases k) (simp_all add: payload_def Let_def algebra_simps)
    have "length inp div ?p = Suc (length ?inp div ?p)"
      using False less.prems by (simp add: le_div_geq)
    then have "map (?m i buf inp) [0..<length inp div ?p + 1]
        = ?m i buf inp 0 # map (?m (i + PSIZE t) ?buf ?inp) [0..<length ?inp div ?p + 1]"
      unfolding shift by (simp add: upt_conv_Cons map_Suc_upt [symmetric] del: upt_Suc)
    moreover have "read_chunk t ?r = (?m i buf inp 0,
        \<lparr>rd_input = ?inp, at_eof = False, rd_buf = ?buf, current_msg_id = i + PSIZE t\<rparr>)"
      using False by (simp add: read_chunk_def payload_def Let_def)
    ultimately show ?thesis using read_input_next [of ?r t] ih by simp
  qed
qed

lemma read_all_input:
  assumes "PSIZE t \<noteq> 0"
  shows "read_input t (reader_init t inp) = Some (packets (PSIZE t) inp)"
  using read_input_spec [of "replicate (unat (PSIZE t)) 0" t inp 0] assms
  by (simp add: reader_init_def packets_def unat_gt_0)

lemma length_packets [simp]: "length (packets p inp) = length inp div unat p + 1"
  by (simp add: packets_def)

lemma packets_numbered:
  assumes "length inp < 2 ^ 64"
  shows "numbered p (packets p inp)"
proof -
  have "unat (of_nat k * p) = k * unat p" if "k \<le> length inp div unat p" for k
  proof -
    have "k * unat p \<le> length inp"
      using that by (meson div_times_less_eq_dividend le_trans mult_le_mono1)
    with assms have "k * unat p < 2 ^ 64" by simp
    then show ?thesis
      by (simp add: unat_word_ariths unat_of_nat take_bit_eq_mod mod_mult_left_eq)
  qed
  then show ?thesis
    by (auto simp: numbered_def packets_def data_msg_id_data_def less_Suc_eq_le simp del: upt_Suc)
qed

lemma length_payload:
  assumes "k \<le> length inp div p" "length buf = p" "0 < p"
  shows "length (payload p buf inp k) = p"
proof (cases k)
  case (Suc j)
  have "Suc j * p \<le> length inp div p * p" using assms(1) Suc by (intro mult_le_mono1) simp
  then have "p + j * p \<le> length inp" using div_times_less_eq_dividend [of "length inp" p] by (simp only: mult_Suc)
  then have "p \<le> length inp - j * p" by linarith
  then show ?thesis by (simp add: Suc payload_def Let_def min_def)
qed (use assms in \<open>simp add: payload_def Let_def min_def\<close>)

lemma full_payloads:
  assumes "k \<le> length inp div p" "length buf \<le> p"
  shows "concat (map (payload p buf inp) [0..<k]) = take (k * p) inp"
  using assms(1)
proof (induction k)
  case (Suc k)
  have "Suc k * p \<le> length inp div p * p" using Suc.prems by (rule mult_le_mono1)
  then have "Suc k * p \<le> length inp" using div_times_less_eq_dividend le_trans by blast
  then have "payload p buf inp k = take p (drop (k * p) inp)"
    using assms(2) by (simp add: payload_def)
  moreover have "take (Suc k * p) inp = take (k * p) inp @ take p (drop (k * p) inp)"
    using take_add [of "k * p" p inp] by (simp add: add.commute)
  ultimately show ?case using Suc by simp
qed simp

subsection \<open>The other threads\<close>

text \<open>Sending one message: an exception of \<open>sendable\<close> is ignored, \<open>transmit_force\<close> hands the packet
  to the socket until it is accepted.\<close>

definition transmit_msg :: "host \<Rightarrow> transmitter \<Rightarrow> data_msg \<Rightarrow> msg_t list result" where
  "transmit_msg h t m =
     (case sendable h (set_session_id (tx_session_id t) m) of
        Inr raw \<Rightarrow> Inr [raw]
      | Inl (Data_Msg_Exception e) \<Rightarrow> Inr []
      | Inl e \<Rightarrow> Inl e)"

definition run_sender_once :: "host \<Rightarrow> transmitter \<Rightarrow> (msg_t list \<times> transmitter) result" where
  "run_sender_once h t =
     (case atomic_get_and_pop (send_q t) of
        (None, q) \<Rightarrow> Inr ([], t\<lparr>send_q := q\<rparr>)
      | (Some m, q) \<Rightarrow> map_sum id (\<lambda>out. (out, t\<lparr>send_q := q\<rparr>)) (transmit_msg h t m))"

definition run_retransmitter_once :: "host \<Rightarrow> transmitter \<Rightarrow> (msg_t list \<times> transmitter) result" where
  "run_retransmitter_once h t =
     (let (unique_msgs, q) = atomic_get_unique (resend_q t)
      in map_sum id (\<lambda>outs. (concat outs, t\<lparr>resend_q := q\<rparr>)) (map_result (transmit_msg h t) unique_msgs))"

text \<open>The body of the loop of \<open>retransmit_ids\<close>, and the loop.\<close>

definition retransmit_id :: "msg_id_t \<Rightarrow> transmitter \<Rightarrow> transmitter result" where
  "retransmit_id i t =
     and_then (atomic_get i (sent_msgs t)) (\<lambda>r.
       case r of
         None \<Rightarrow> Inr t
       | Some m \<Rightarrow> if get_id m = i then Inr (t\<lparr>resend_q := queue_push m (resend_q t)\<rparr>) else Inr t)"

fun retransmit_ids :: "msg_id_t list \<Rightarrow> transmitter \<Rightarrow> transmitter result" where
  "retransmit_ids [] t = Inr t"
| "retransmit_ids (i # is) t = and_then (retransmit_id i t) (retransmit_ids is)"

text \<open>What the listener does with a control message: the replies it sends back, and the identifiers
  it goes on to retransmit.\<close>

definition run_listener_once :: "transmitter \<Rightarrow> ctrl_msg \<Rightarrow> (ctrl_msg list \<times> msg_id_t list) result" where
  "run_listener_once t msg =
     (let replies = (if is_lookup msg then [make_reply (NAME t) (MCAST_ADDR t) (DATA_PORT t)] else [])
      in if is_rexmit msg then map_sum id (Pair replies) (get_rexmit_ids msg) else Inr (replies, []))"

subsection \<open>The threads together\<close>

record sender_run =
  tx :: transmitter
  rd :: reader
  to_cache :: "data_msg option"
  reading_complete :: bool
  listening :: "msg_id_t list"
  replied :: "ctrl_msg list"
  sent :: "msg_t list"
  resent :: "msg_t list"

text \<open>
  The reader pushes each message on the queue and then into the cache; the listener works off the
  identifiers of a request one by one. The other threads look at \<open>reading_complete\<close> before each
  turn. A turn that is undefined or ends with an exception (which ends the program) has no step.
\<close>

inductive sender_step :: "host \<Rightarrow> sender_run \<Rightarrow> sender_run \<Rightarrow> bool" for h where
  read_step: "\<not> at_eof (rd s) \<Longrightarrow> to_cache s = None \<Longrightarrow> read_chunk (tx s) (rd s) = (m, r) \<Longrightarrow>
    sender_step h s (s\<lparr>rd := r, tx := (tx s)\<lparr>send_q := queue_push m (send_q (tx s))\<rparr>, to_cache := Some m\<rparr>)"
| cache_step: "to_cache s = Some m \<Longrightarrow> cache_push m (sent_msgs (tx s)) = Inr c \<Longrightarrow>
    sender_step h s (s\<lparr>tx := (tx s)\<lparr>sent_msgs := c\<rparr>, to_cache := None\<rparr>)"
| complete_step: "at_eof (rd s) \<Longrightarrow> to_cache s = None \<Longrightarrow>
    sender_step h s (s\<lparr>reading_complete := True\<rparr>)"
| send_step: "\<not> reading_complete s \<Longrightarrow> run_sender_once h (tx s) = Inr (out, t) \<Longrightarrow>
    sender_step h s (s\<lparr>tx := t, sent := sent s @ out\<rparr>)"
| retransmit_step: "\<not> reading_complete s \<Longrightarrow> run_retransmitter_once h (tx s) = Inr (out, t) \<Longrightarrow>
    sender_step h s (s\<lparr>tx := t, resent := resent s @ out\<rparr>)"
| request_step: "\<not> reading_complete s \<Longrightarrow> listening s = [] \<Longrightarrow>
    run_listener_once (tx s) msg = Inr (rs, is) \<Longrightarrow>
    sender_step h s (s\<lparr>replied := replied s @ rs, listening := is\<rparr>)"
| listen_step: "listening s = i # is \<Longrightarrow> retransmit_id i (tx s) = Inr t \<Longrightarrow>
    sender_step h s (s\<lparr>tx := t, listening := is\<rparr>)"

text \<open>The start, with the transmitter that the constructor has made.\<close>

definition sender_start :: "transmitter \<Rightarrow> byte list \<Rightarrow> sender_run \<Rightarrow> bool" where
  "sender_start t inp s \<longleftrightarrow>
     s = \<lparr>tx = t, rd = reader_init t inp, to_cache = None, reading_complete = False, listening = [],
          replied = [], sent = [], resent = []\<rparr>"

subsection \<open>Invariant\<close>

text \<open>The packet of a message on the wire.\<close>

definition wire :: "host \<Rightarrow> u64 \<Rightarrow> data_msg \<Rightarrow> msg_t" where
  "wire h sid m = (case sendable h (set_session_id sid m) of Inl e \<Rightarrow> [] | Inr raw \<Rightarrow> raw)"

definition has_data :: "data_msg \<Rightarrow> bool" where
  "has_data m \<longleftrightarrow> dm_data m \<noteq> None"

lemma transmit_msg_wire: "has_data m \<Longrightarrow> transmit_msg h t m = Inr [wire h (tx_session_id t) m]"
  by (auto simp: has_data_def transmit_msg_def wire_def sendable_def set_session_id_def Let_def)

text \<open>The same transmitter up to its queues and cache.\<close>

definition same_parameters :: "transmitter \<Rightarrow> transmitter \<Rightarrow> bool" where
  "same_parameters t t' \<longleftrightarrow> (\<exists>q q' c. t' = t\<lparr>send_q := q, resend_q := q', sent_msgs := c\<rparr>)"

text \<open>
  What has been read is \<open>done\<close>: first the messages sent, then those in the queue; what the reader
  still reads is \<open>todo\<close>. The cache holds what pushing \<open>done\<close> gives, but for the message the reader has
  still to push. What is queued for retransmission, and what was retransmitted, was found in the
  cache.
\<close>

definition progress ::
  "host \<Rightarrow> transmitter \<Rightarrow> byte list \<Rightarrow> sender_run \<Rightarrow> data_msg list \<Rightarrow> data_msg list \<Rightarrow> data_msg list \<Rightarrow> bool" where
  "progress h t inp s out todo cached \<longleftrightarrow>
     same_parameters t (tx s) \<and> 0 < length (rd_buf (rd s))
     \<and> packets (PSIZE t) inp = out @ send_q (tx s) @ todo
     \<and> read_input (tx s) (rd s) = Some todo
     \<and> sent s = map (wire h (tx_session_id t)) out
     \<and> out @ send_q (tx s) = cached @ (case to_cache s of None \<Rightarrow> [] | Some m \<Rightarrow> [m])
     \<and> cache_run cached (sent_msgs t) = Inr (sent_msgs (tx s))"

definition resendable :: "transmitter \<Rightarrow> byte list \<Rightarrow> data_msg \<Rightarrow> bool" where
  "resendable t inp m \<longleftrightarrow> m \<in> set (packets (PSIZE t) inp) \<and> (2 \<le> unat (PSIZE t) \<longrightarrow> get_id m = 0)"

definition run_good :: "host \<Rightarrow> transmitter \<Rightarrow> byte list \<Rightarrow> sender_run \<Rightarrow> bool" where
  "run_good h t inp s \<longleftrightarrow>
     (\<exists>out todo cached. progress h t inp s out todo cached)
     \<and> list_all (resendable t inp) (resend_q (tx s))
     \<and> list_all (\<lambda>raw. \<exists>m. resendable t inp m \<and> raw = wire h (tx_session_id t) m) (resent s)"

definition fresh :: "transmitter \<Rightarrow> byte list \<Rightarrow> bool" where
  "fresh t inp \<longleftrightarrow> PSIZE t \<noteq> 0 \<and> length inp < 2 ^ 64 \<and> send_q t = [] \<and> resend_q t = []
     \<and> (\<exists>n. n \<noteq> 0 \<and> sent_msgs t = cache_init n)"

lemma packets_have_data: "m \<in> set (packets p inp) \<Longrightarrow> has_data m"
  by (auto simp: packets_def has_data_def data_msg_id_data_def)

lemma read_input_cong:
  assumes "same_parameters t t'" "0 < length (rd_buf r)"
  shows "read_input t' r = read_input t r"
proof (cases "at_eof r")
  case True
  then show ?thesis by (simp add: read_input_done)
next
  case False
  with assms show ?thesis
    using read_input_spec [of "rd_buf r" _ "rd_input r" "current_msg_id r"]
    by (cases r) (auto simp: same_parameters_def)
qed

lemma read_chunk_facts:
  "read_chunk t r = (m, r') \<Longrightarrow> length (rd_buf r') = length (rd_buf r) \<and> has_data m"
  by (auto simp: read_chunk_def Let_def has_data_def data_msg_id_data_def)

lemma same_parameters_simps:
  assumes "same_parameters t t'"
  shows "PSIZE t' = PSIZE t" "tx_session_id t' = tx_session_id t"
    "same_parameters t (t'\<lparr>send_q := q\<rparr>)" "same_parameters t (t'\<lparr>resend_q := q\<rparr>)"
    "same_parameters t (t'\<lparr>sent_msgs := c\<rparr>)"
proof -
  obtain a b d where t': "t' = t\<lparr>send_q := a, resend_q := b, sent_msgs := d\<rparr>"
    using assms by (auto simp: same_parameters_def)
  show "PSIZE t' = PSIZE t" "tx_session_id t' = tx_session_id t" by (simp_all add: t')
  have "t'\<lparr>send_q := q\<rparr> = t\<lparr>send_q := q, resend_q := b, sent_msgs := d\<rparr>"
    "t'\<lparr>resend_q := q\<rparr> = t\<lparr>send_q := a, resend_q := q, sent_msgs := d\<rparr>"
    "t'\<lparr>sent_msgs := c\<rparr> = t\<lparr>send_q := a, resend_q := b, sent_msgs := c\<rparr>" for q c
    by (simp_all add: t')
  then show "same_parameters t (t'\<lparr>send_q := q\<rparr>)" "same_parameters t (t'\<lparr>resend_q := q\<rparr>)"
    "same_parameters t (t'\<lparr>sent_msgs := c\<rparr>)"
    by (metis same_parameters_def)+
qed

lemma start_good:
  assumes "fresh t inp" "sender_start t inp s"
  shows "run_good h t inp s"
proof -
  have "same_parameters t t" unfolding same_parameters_def by (intro exI [of _ "send_q t"] exI [of _ "resend_q t"] exI [of _ "sent_msgs t"]) simp
  moreover have "0 < length (rd_buf (reader_init t inp))"
    using assms(1) by (simp add: reader_init_def fresh_def unat_gt_0)
  moreover have "read_input t (reader_init t inp) = Some (packets (PSIZE t) inp)"
    using assms(1) by (intro read_all_input) (simp add: fresh_def)
  ultimately have "progress h t inp s [] (packets (PSIZE t) inp) []"
    using assms by (simp add: progress_def sender_start_def fresh_def)
  then show ?thesis
    using assms by (auto simp: run_good_def sender_start_def fresh_def)
qed

lemma same_parameters_refl [simp]:
  "same_parameters t (t\<lparr>send_q := q\<rparr>)" "same_parameters t (t\<lparr>resend_q := q\<rparr>)"
  "same_parameters t (t\<lparr>sent_msgs := c\<rparr>)"
proof -
  have "t\<lparr>send_q := q\<rparr> = t\<lparr>send_q := q, resend_q := resend_q t, sent_msgs := sent_msgs t\<rparr>"
    "t\<lparr>resend_q := q\<rparr> = t\<lparr>send_q := send_q t, resend_q := q, sent_msgs := sent_msgs t\<rparr>"
    "t\<lparr>sent_msgs := c\<rparr> = t\<lparr>send_q := send_q t, resend_q := resend_q t, sent_msgs := c\<rparr>"
    by simp_all
  then show "same_parameters t (t\<lparr>send_q := q\<rparr>)" "same_parameters t (t\<lparr>resend_q := q\<rparr>)"
    "same_parameters t (t\<lparr>sent_msgs := c\<rparr>)"
    unfolding same_parameters_def by blast+
qed

lemma progress_has_data:
  "progress h t inp s out todo cached \<Longrightarrow> m \<in> set (out @ send_q (tx s)) \<Longrightarrow> has_data m"
  unfolding progress_def by (metis Un_iff packets_have_data set_append)

lemma read_keeps_progress:
  assumes "progress h t inp s out todo cached" "\<not> at_eof (rd s)" "to_cache s = None"
    and "read_chunk (tx s) (rd s) = (m, r)"
  shows "\<exists>todo'. progress h t inp
    (s\<lparr>rd := r, tx := (tx s)\<lparr>send_q := queue_push m (send_q (tx s))\<rparr>, to_cache := Some m\<rparr>) out todo' cached"
proof -
  let ?t = "(tx s)\<lparr>send_q := queue_push m (send_q (tx s))\<rparr>"
  obtain todo' where todo: "read_input (tx s) r = Some todo'" "todo = m # todo'"
    using assms(1) read_input_next [OF assms(2,4)] by (auto simp: progress_def bind_eq_Some_conv)
  have buf: "0 < length (rd_buf r)"
    using assms(1) read_chunk_facts [OF assms(4)] by (simp add: progress_def)
  have "read_input ?t r = Some todo'"
    using read_input_cong [of "tx s" ?t r] todo(1) buf by simp
  moreover have "same_parameters t ?t"
    using assms(1) by (simp add: progress_def same_parameters_simps)
  ultimately show ?thesis
    using assms(1,3) todo(2) buf by (auto simp: progress_def queue_push_def)
qed

lemma cache_keeps_progress:
  assumes "progress h t inp s out todo cached" "to_cache s = Some m" "cache_push m (sent_msgs (tx s)) = Inr c"
  shows "progress h t inp (s\<lparr>tx := (tx s)\<lparr>sent_msgs := c\<rparr>, to_cache := None\<rparr>) out todo (cached @ [m])"
  using assms read_input_cong [of "tx s" "(tx s)\<lparr>sent_msgs := c\<rparr>" "rd s"]
  by (simp add: progress_def same_parameters_simps cache_run_snoc)

lemma send_keeps_progress:
  assumes "progress h t inp s out todo cached" "run_sender_once h (tx s) = Inr (raws, u)"
  shows "\<exists>out'. progress h t inp (s\<lparr>tx := u, sent := sent s @ raws\<rparr>) out' todo cached
    \<and> resend_q u = resend_q (tx s)"
proof (cases "send_q (tx s)")
  case Nil
  then have "u = (tx s)\<lparr>send_q := []\<rparr>" "raws = []"
    using assms(2) by (simp_all add: run_sender_once_def atomic_get_and_pop_def)
  moreover have "(tx s)\<lparr>send_q := []\<rparr> = tx s" using Nil by simp
  ultimately show ?thesis using assms(1) by (intro exI [of _ out]) simp
next
  case (Cons m q)
  have "tx_session_id (tx s) = tx_session_id t"
    using assms(1) by (auto simp: progress_def same_parameters_def)
  then have "transmit_msg h (tx s) m = Inr [wire h (tx_session_id t) m]"
    using progress_has_data [OF assms(1), of m] Cons by (simp add: transmit_msg_wire)
  then have u: "u = (tx s)\<lparr>send_q := q\<rparr>" "raws = [wire h (tx_session_id t) m]"
    using assms(2) Cons by (simp_all add: run_sender_once_def atomic_get_and_pop_def)
  then show ?thesis
    using assms(1) Cons read_input_cong [of "tx s" u "rd s"]
    by (intro exI [of _ "out @ [m]"]) (auto simp: progress_def same_parameters_simps)
qed

lemma progress_other:
  assumes "progress h t inp s out todo cached" "tx s' = (tx s)\<lparr>resend_q := q\<rparr>"
    and "rd s' = rd s" "sent s' = sent s" "to_cache s' = to_cache s"
  shows "progress h t inp s' out todo cached"
  using assms read_input_cong [of "tx s" "tx s'" "rd s"]
  by (simp add: progress_def same_parameters_simps)

lemma unique_subset: "set (fst (atomic_get_unique q)) \<subseteq> set q"
proof -
  have "set (fold (emplace dm_id) q us) \<subseteq> set q \<union> set us" for us
  proof (induction q arbitrary: us)
    case (Cons m q)
    from Cons [of "emplace dm_id m us"] set_emplace [of dm_id m us] show ?case by auto
  qed simp
  then show ?thesis by (fastforce simp: atomic_get_unique_def unique_loop_fold)
qed

lemma retransmit_keeps_good:
  assumes "run_good h t inp s" "run_retransmitter_once h (tx s) = Inr (raws, u)"
  shows "run_good h t inp (s\<lparr>tx := u, resent := resent s @ raws\<rparr>)"
proof -
  obtain out todo cached where g: "progress h t inp s out todo cached"
    using assms(1) by (auto simp: run_good_def)
  have sid: "tx_session_id (tx s) = tx_session_id t"
    using g by (auto simp: progress_def same_parameters_def)
  let ?us = "fst (atomic_get_unique (resend_q (tx s)))"
  have us: "list_all (resendable t inp) ?us"
    using assms(1) unique_subset [of "resend_q (tx s)"] by (auto simp: run_good_def list_all_iff)
  then have "\<forall>m \<in> set ?us. has_data m" using packets_have_data by (auto simp: list_all_iff resendable_def)
  then have "map_result (transmit_msg h (tx s)) ?us = Inr (map (\<lambda>m. [wire h (tx_session_id t) m]) ?us)"
    using sid by (intro map_result_all_ok) (simp add: transmit_msg_wire)
  then have u: "raws = map (wire h (tx_session_id t)) ?us" "u = (tx s)\<lparr>resend_q := []\<rparr>"
    using assms(2) by (auto simp: run_retransmitter_once_def atomic_get_unique_def unique_loop_fold)
  have "list_all (\<lambda>raw. \<exists>m. resendable t inp m \<and> raw = wire h (tx_session_id t) m) raws"
    using us by (auto simp: u(1) list_all_iff)
  moreover have "progress h t inp (s\<lparr>tx := u, resent := resent s @ raws\<rparr>) out todo cached"
    using g u(2) by (intro progress_other [OF g]) simp_all
  ultimately show ?thesis
    using assms(1) u(2) by (auto simp: run_good_def)
qed

lemma retransmit_id_good:
  assumes fresh: "fresh t inp" and good: "run_good h t inp s" and i: "retransmit_id i (tx s) = Inr u"
  shows "run_good h t inp (s\<lparr>tx := u, listening := is\<rparr>)"
proof -
  obtain out todo cached where g: "progress h t inp s out todo cached"
    using good by (auto simp: run_good_def)
  obtain n where n: "n \<noteq> 0" "sent_msgs t = cache_init n" using fresh by (auto simp: fresh_def)
  consider "u = tx s"
    | m where "u = (tx s)\<lparr>resend_q := queue_push m (resend_q (tx s))\<rparr>"
        "atomic_get i (sent_msgs (tx s)) = Inr (Some m)" "get_id m = i"
  proof -
    obtain r where r: "atomic_get i (sent_msgs (tx s)) = Inr r"
      using i by (auto simp: retransmit_id_def and_then_ok_iff)
    show thesis
    proof (cases r)
      case None
      with i r that(1) show thesis by (simp add: retransmit_id_def)
    next
      case (Some m)
      with i r that(1) that(2) [of m] show thesis
        by (auto simp: retransmit_id_def split: if_splits)
    qed
  qed
  then show ?thesis
  proof cases
    case 1
    have "progress h t inp (s\<lparr>tx := u, listening := is\<rparr>) out todo cached"
      using 1 by (intro progress_other [OF g, of _ "resend_q (tx s)"]) simp_all
    with good 1 show ?thesis by (auto simp: run_good_def)
  next
    case (2 m)
    have run: "cache_run cached (cache_init n) = Inr (sent_msgs (tx s))" and
      pre: "packets (PSIZE t) inp = cached @ (case to_cache s of None \<Rightarrow> [] | Some m \<Rightarrow> [m]) @ todo"
      using g n(2) unfolding progress_def by (simp, metis append_assoc)
    have "length inp < 2 ^ 64" using fresh by (simp add: fresh_def)
    then have "numbered (PSIZE t) cached"
      using packets_numbered [of inp "PSIZE t"] pre numbered_append by metis
    then have first: "get_id m = 0" if "2 \<le> unat (PSIZE t)"
      using found_is_first [OF _ that n(1) run 2(2,3)] 2(3) by blast
    have "m \<in> set cached"
      using cache_run_held [OF run] cache_get_found [OF 2(2)] by auto
    then have "m \<in> set (packets (PSIZE t) inp)" using pre by simp
    with first have "resendable t inp m" by (simp add: resendable_def)
    moreover have "progress h t inp (s\<lparr>tx := u, listening := is\<rparr>) out todo cached"
      using 2(1) by (intro progress_other [OF g]) simp_all
    ultimately show ?thesis
      using good 2(1) by (auto simp: run_good_def queue_push_def)
  qed
qed


text \<open>Every step keeps the invariant.\<close>

lemma good_step:
  assumes "fresh t inp" "run_good h t inp s" "sender_step h s s'"
  shows "run_good h t inp s'"
  using assms(3)
proof cases
  case (read_step m r)
  obtain out todo cached where g: "progress h t inp s out todo cached"
    using assms(2) by (auto simp: run_good_def)
  from read_keeps_progress [OF g read_step(2-4)] assms(2) show ?thesis
    by (auto simp: run_good_def read_step(1))
next
  case (cache_step m c)
  obtain out todo cached where g: "progress h t inp s out todo cached"
    using assms(2) by (auto simp: run_good_def)
  from cache_keeps_progress [OF g cache_step(2,3)] assms(2) show ?thesis
    unfolding run_good_def cache_step(1) by auto
next
  case complete_step
  obtain out todo cached where "progress h t inp s out todo cached"
    using assms(2) by (auto simp: run_good_def)
  then have "progress h t inp s' out todo cached"
    by (simp add: progress_def complete_step(1))
  with assms(2) show ?thesis by (auto simp: run_good_def complete_step(1))
next
  case (send_step raws u)
  obtain out todo cached where g: "progress h t inp s out todo cached"
    using assms(2) by (auto simp: run_good_def)
  from send_keeps_progress [OF g send_step(3)] assms(2) show ?thesis
    unfolding run_good_def send_step(1) by auto
next
  case (retransmit_step raws u)
  then show ?thesis using retransmit_keeps_good [OF assms(2)] by simp
next
  case (request_step msg rs "is")
  obtain out todo cached where "progress h t inp s out todo cached"
    using assms(2) by (auto simp: run_good_def)
  then have "progress h t inp s' out todo cached"
    by (simp add: progress_def request_step(1))
  with assms(2) show ?thesis by (auto simp: run_good_def request_step(1))
next
  case (listen_step i "is" u)
  then show ?thesis using retransmit_id_good [OF assms(1,2)] by simp
qed

interpretation sender_threads: inductive_invariant
    "sender_start t inp" "sender_step h" "\<lambda>s. fresh t inp \<longrightarrow> run_good h t inp s"
  for h t inp
  by unfold_locales (use start_good good_step in blast)+

lemma transmitter_init_fresh:
  assumes "transmitter_init psize fsize rtime addr dport cport name now = Inr t" "fsize \<noteq> 0" "length inp < 2 ^ 64"
  shows "fresh t inp" "PSIZE t = psize" "tx_session_id t = now"
proof -
  have psize: "psize \<noteq> 0" and t: "PSIZE t = psize" "tx_session_id t = now" "send_q t = []" "resend_q t = []"
    "sent_msgs t = cache_init (1 + (fsize - 1) div psize)"
    using assms(1) by (auto simp: transmitter_init_def Let_def split: if_splits)
  have "unat ((fsize - 1) div psize) \<le> unat (fsize - 1)"
    by (simp add: unat_div_distrib)
  also have "\<dots> < 2 ^ 64 - 1"
  proof -
    have "unat fsize < 2 ^ 64" "0 < unat fsize"
      using unsigned_less [of fsize] assms(2) by (simp_all add: unat_gt_0)
    then show ?thesis using assms(2) by (simp add: unat_minus_one)
  qed
  finally have "unat (1 + (fsize - 1) div psize) = 1 + unat ((fsize - 1) div psize)"
    by (subst unat_add_no_wrap) simp_all
  then have "1 + (fsize - 1) div psize \<noteq> 0" by (metis add_is_0 one_neq_zero unat_0)
  with psize t assms(3) show "fresh t inp" by (auto simp: fresh_def)
  show "PSIZE t = psize" "tx_session_id t = now" by (rule t)+
qed

lemma sent_prefix:
  assumes "transmitter_init psize fsize rtime addr dport cport name now = Inr t" "fsize \<noteq> 0"
    and "length inp < 2 ^ 64" "reach (sender_start t inp) (sender_step h) s"
  shows "prefix (sent s) (map (wire h now) (packets psize inp))"
proof -
  note f = transmitter_init_fresh [OF assms(1-3)]
  have "run_good h t inp s" using sender_threads.reach_good [OF assms(4)] f(1) by blast
  then obtain out todo cached where "progress h t inp s out todo cached"
    by (auto simp: run_good_def)
  then show ?thesis using f(2,3) by (auto simp: progress_def)
qed

lemma resent_packets:
  assumes "transmitter_init psize fsize rtime addr dport cport name now = Inr t" "fsize \<noteq> 0"
    and "length inp < 2 ^ 64" "reach (sender_start t inp) (sender_step h) s" "raw \<in> set (resent s)"
  obtains m where "m \<in> set (packets psize inp)" "raw = wire h now m" "2 \<le> unat psize \<Longrightarrow> get_id m = 0"
proof -
  note f = transmitter_init_fresh [OF assms(1-3)]
  have "run_good h t inp s" using sender_threads.reach_good [OF assms(4)] f(1) by blast
  then show thesis using assms(5) f(2,3) that by (auto simp: run_good_def list_all_iff resendable_def)
qed

lemma packet_zero:
  assumes "m \<in> set (packets p inp)" "get_id m = 0" "length inp < 2 ^ 64" "0 < unat p"
  shows "m = hd (packets p inp)"
proof -
  obtain k where k: "k < length (packets p inp)" "m = packets p inp ! k" using assms(1) by (metis in_set_conv_nth)
  with packets_numbered [OF assms(3), of p] assms(2,4) have "k = 0" by (auto simp: numbered_def get_id_def)
  with k show ?thesis by (simp add: hd_conv_nth flip: length_greater_0_conv)
qed

lemma raw_of_wire_data:
  "data_msg_raw h (wire h sid (data_msg_id_data i d)) = Inr (data_msg_full i sid d)"
  by (simp add: wire_def sendable_def set_session_id_def data_msg_id_data_def Let_def data_msg_raw_def
      data_msg_full_def)

subsection \<open>Properties\<close>

text \<open>C27: reading the input ends, whatever its length, and makes one message more than there are full
  packets in it, numbered by the position of their first byte. The full packets carry the input in
  order; the last message carries what is left, but filled up with the bytes of the packet before
  (zeros if there was none), so that when nothing is left the last full packet is sent twice.\<close>
theorem read_input_packets:
  fixes t :: transmitter and inp :: "byte list"
  assumes "PSIZE t \<noteq> 0"
  defines "p \<equiv> unat (PSIZE t)"
  defines "n \<equiv> length inp div p"
  shows "\<exists>ms. read_input t (reader_init t inp) = Some ms \<and> length ms = n + 1
    \<and> map dm_id ms = map (\<lambda>k. of_nat k * PSIZE t) [0..<n + 1]
    \<and> concat (map (the \<circ> dm_data) (take n ms)) = take (n * p) inp
    \<and> dm_data (ms ! n) = Some (drop (n * p) inp @ drop (length inp mod p)
        (if n = 0 then replicate p 0 else take p (drop ((n - 1) * p) inp)))"
proof -
  let ?ms = "packets (PSIZE t) inp"
  have data: "dm_data (?ms ! k) = Some (payload p (replicate p 0) inp k)" "dm_id (?ms ! k) = of_nat k * PSIZE t"
    if "k \<le> n" for k
    using that by (simp_all add: packets_def p_def n_def data_msg_id_data_def nth_append del: upt_Suc)
  have "map (the \<circ> dm_data) (take n ?ms) = map (payload p (replicate p 0) inp) [0..<n]"
    using data(1) by (intro nth_equalityI) (simp_all add: n_def p_def)
  then have "concat (map (the \<circ> dm_data) (take n ?ms)) = take (n * p) inp"
    using full_payloads [of n inp p "replicate p 0"] by (simp add: n_def)
  moreover have "map dm_id ?ms = map (\<lambda>k. of_nat k * PSIZE t) [0..<n + 1]"
    using data(2) by (intro nth_equalityI) (simp_all add: n_def p_def del: upt_Suc)
  moreover have "0 < p" using assms(1) by (simp add: p_def unat_gt_0)
  then have "length (drop (n * p) inp) = length inp mod p" "length inp mod p < p"
    by (simp_all add: n_def minus_div_mult_eq_mod)
  then have "payload p (replicate p 0) inp n = drop (n * p) inp @ drop (length inp mod p)
      (if n = 0 then replicate p 0 else take p (drop ((n - 1) * p) inp))"
    by (simp add: payload_def Let_def)
  ultimately show ?thesis
    using read_all_input [OF assms(1), of inp] data(1) [of n]
    by (intro exI [of _ ?ms]) (simp add: n_def p_def)
qed

text \<open>A small sender: packets of two bytes, a cache for five of them.\<close>

definition sample_transmitter :: transmitter where
  "sample_transmitter =
     \<lparr>PSIZE = 2, FSIZE = 10, RTIME = 250, MCAST_ADDR = ''239.10.11.12'', DATA_PORT = 25830,
      CTRL_PORT = 35830, NAME = ''A'', sent_msgs_cache_size = 5, send_q = [], resend_q = [],
      sent_msgs = cache_init 5, tx_session_id = 7\<rparr>"

lemma sample_transmitter_init:
  "transmitter_init 2 10 250 ''239.10.11.12'' 25830 35830 ''A'' 7 = Inr sample_transmitter"
  by (simp add: transmitter_init_def sample_transmitter_def Let_def)

theorem read_input_packets_witness:
  "\<exists>ms. read_input sample_transmitter (reader_init sample_transmitter [1, 2, 3, 4]) = Some ms
    \<and> length ms = 3 \<and> dm_data (ms ! 2) = Some [3, 4]"
proof -
  have p: "unat (PSIZE sample_transmitter) = 2" "PSIZE sample_transmitter \<noteq> 0"
    by (simp_all add: sample_transmitter_def)
  have n: "length [1, 2, 3, 4 :: byte] div 2 = 2" "length [1, 2, 3, 4 :: byte] mod 2 = 0"
    by simp_all
  show ?thesis
    using read_input_packets [OF p(2), of "[1, 2, 3, 4]"] unfolding p n by auto
qed

text \<open>C18: with packets of at least two bytes, whatever receivers ask for, every packet that is ever
  retransmitted is the first packet of the session, as it was sent.\<close>
theorem only_first_packet_is_retransmitted:
  assumes "transmitter_init psize fsize rtime addr dport cport name now = Inr t" "fsize \<noteq> 0"
    and "length inp < 2 ^ 64" "reach (sender_start t inp) (sender_step h) s" "2 \<le> unat psize"
    and "raw \<in> set (resent s)"
  shows "raw = wire h now (hd (packets psize inp))"
proof (rule resent_packets [OF assms(1-4,6)])
  fix m assume "m \<in> set (packets psize inp)" "raw = wire h now m" "2 \<le> unat psize \<Longrightarrow> get_id m = 0"
  with packet_zero [OF _ _ assms(3)] assms(5) show ?thesis by simp
qed

text \<open>A run of the small sender on one byte, asked for packet 0.\<close>

definition sample_msg :: data_msg where
  "sample_msg = data_msg_id_data 0 [9, 0]"

definition sample_packet :: msg_t where
  "sample_packet = [7, 0, 0, 0, 0, 0, 0, 0, 0, 0, 0, 0, 0, 0, 0, 0, 9, 0]"

definition sample_state ::
  "data_msg list \<Rightarrow> data_msg list \<Rightarrow> msg_id_t list \<Rightarrow> msg_t list \<Rightarrow> msg_t list \<Rightarrow> sender_run" where
  "sample_state q rq ids out rout =
     \<lparr>tx = sample_transmitter\<lparr>send_q := q, resend_q := rq, sent_msgs := \<lparr>container = [sample_msg], container_size = 5\<rparr>\<rparr>,
      rd = \<lparr>rd_input = [], at_eof = True, rd_buf = [9, 0], current_msg_id = 2\<rparr>, to_cache = None,
      reading_complete = False, listening = ids, replied = [], sent = out, resent = rout\<rparr>"

lemma sample_read:
  "reach (sender_start sample_transmitter [9]) (sender_step h) (sample_state [sample_msg] [] [] [] [])"
proof -
  let ?s0 = "\<lparr>tx = sample_transmitter, rd = reader_init sample_transmitter [9], to_cache = None,
    reading_complete = False, listening = [], replied = [], sent = [], resent = []\<rparr>"
  let ?r = "\<lparr>rd_input = [], at_eof = True, rd_buf = [9, 0], current_msg_id = 2\<rparr>"
  have "replicate 2 0 = [0, 0 :: byte]" by (simp add: numeral_2_eq_2)
  then have init: "reader_init sample_transmitter [9] =
      \<lparr>rd_input = [9], at_eof = False, rd_buf = [0, 0], current_msg_id = 0\<rparr>"
    by (simp add: reader_init_def sample_transmitter_def)
  have "read_chunk sample_transmitter (reader_init sample_transmitter [9]) = (sample_msg, ?r)"
    unfolding init by (simp add: read_chunk_def sample_transmitter_def sample_msg_def Let_def)
  then have "sender_step h ?s0 (?s0\<lparr>rd := ?r, tx := sample_transmitter\<lparr>send_q := [sample_msg]\<rparr>, to_cache := Some sample_msg\<rparr>)"
    using read_step [of ?s0 sample_msg ?r h] by (simp add: reader_init_def queue_push_def sample_transmitter_def)
  moreover have "reach (sender_start sample_transmitter [9]) (sender_step h) ?s0"
    by (rule reach_start) (simp add: sender_start_def)
  ultimately have "reach (sender_start sample_transmitter [9]) (sender_step h)
      (?s0\<lparr>rd := ?r, tx := sample_transmitter\<lparr>send_q := [sample_msg]\<rparr>, to_cache := Some sample_msg\<rparr>)"
    by (rule reach_step [rotated])
  moreover have "cache_push sample_msg (sent_msgs sample_transmitter) = Inr \<lparr>container = [sample_msg], container_size = 5\<rparr>"
    by (simp add: sample_transmitter_def cache_push_index cache_init_def sample_msg_def data_msg_id_data_def)
  ultimately show ?thesis
    using cache_step [of "?s0\<lparr>rd := ?r, tx := sample_transmitter\<lparr>send_q := [sample_msg]\<rparr>, to_cache := Some sample_msg\<rparr>"
        sample_msg _ h]
    by (auto simp: sample_state_def sample_transmitter_def intro: reach_step)
qed

lemma sample_wire: "wire Little_Endian 7 sample_msg = sample_packet"
  by (simp add: wire_def sample_msg_def sample_packet_def data_msg_id_data_def set_session_id_def
      sendable_def memory_of_def le_bytes_8)

lemma sample_transmit:
  "tx_session_id t = 7 \<Longrightarrow> transmit_msg Little_Endian t sample_msg = Inr [sample_packet]"
  using transmit_msg_wire [of sample_msg Little_Endian t] sample_wire
  by (simp add: has_data_def sample_msg_def data_msg_id_data_def)

lemma sample_request:
  "run_listener_once t \<lparr>msg_data = rexmit_msg_key @ join CHR '','' [''0''] @ [newline]\<rparr> = Inr ([], [0])"
  (is "run_listener_once t ?m = _")
proof -
  have "word_of is_digit ''0''" by (simp add: word_of_def is_digit_def)
  then have "get_rexmit_ids ?m = Inr [0]"
    using get_rexmit_ids_join [of "[''0'']"] stoull_digits [of "''0''"]
    by (simp add: digits_value_def digit_value_def)
  moreover have "is_rexmit ?m" "\<not> is_lookup ?m" by (simp_all add: msg_kind_prefix msg_keys)
  ultimately show ?thesis by (simp add: run_listener_once_def)
qed

lemma sample_run_steps:
  "reach (sender_start sample_transmitter [9]) (sender_step Little_Endian)
     (sample_state [] [] [] [sample_packet] [sample_packet])"
proof -
  let ?R = "reach (sender_start sample_transmitter [9]) (sender_step Little_Endian)"
  have "?R (sample_state [sample_msg] [] [0] [] [])"
    using reach_step [OF sample_read request_step [OF _ _ sample_request]]
    by (simp add: sample_state_def)
  moreover have "retransmit_id 0 (tx (sample_state [sample_msg] [] [0] [] []))
      = Inr (tx (sample_state [sample_msg] [sample_msg] [] [] []))"
    by (simp add: retransmit_id_def sample_state_def atomic_get_def internal_id_def sample_msg_def
        data_msg_id_data_def get_id_def queue_push_def)
  then have "sender_step Little_Endian (sample_state [sample_msg] [] [0] [] [])
      (sample_state [sample_msg] [sample_msg] [] [] [])"
    using listen_step [of "sample_state [sample_msg] [] [0] [] []" 0 "[]" _ Little_Endian]
    by (fastforce simp: sample_state_def)
  ultimately have "?R (sample_state [sample_msg] [sample_msg] [] [] [])" by (rule reach_step)
  moreover have "run_sender_once Little_Endian (tx (sample_state [sample_msg] [sample_msg] [] [] []))
      = Inr ([sample_packet], tx (sample_state [] [sample_msg] [] [] []))"
    by (simp add: run_sender_once_def sample_state_def atomic_get_and_pop_def sample_transmit sample_transmitter_def)
  then have "sender_step Little_Endian (sample_state [sample_msg] [sample_msg] [] [] [])
      (sample_state [] [sample_msg] [] [sample_packet] [])"
    using send_step [of "sample_state [sample_msg] [sample_msg] [] [] []" Little_Endian]
    by (fastforce simp: sample_state_def)
  ultimately have "?R (sample_state [] [sample_msg] [] [sample_packet] [])" by (rule reach_step)
  moreover have "run_retransmitter_once Little_Endian (tx (sample_state [] [sample_msg] [] [sample_packet] []))
      = Inr ([sample_packet], tx (sample_state [] [] [] [] []))"
    by (simp add: run_retransmitter_once_def sample_state_def atomic_get_unique_def sample_transmit sample_transmitter_def)
  then have "sender_step Little_Endian (sample_state [] [sample_msg] [] [sample_packet] [])
      (sample_state [] [] [] [sample_packet] [sample_packet])"
    using retransmit_step [of "sample_state [] [sample_msg] [] [sample_packet] []" Little_Endian]
    by (fastforce simp: sample_state_def)
  ultimately show ?thesis by (rule reach_step)
qed

theorem only_first_packet_is_retransmitted_witness:
  "sample_packet = wire Little_Endian 7 (hd (packets 2 [9]))"
  by (rule only_first_packet_is_retransmitted [OF sample_transmitter_init _ _ sample_run_steps])
    (simp_all add: sample_state_def)

text \<open>Once reading is complete nothing is sent any more.\<close>

interpretation after_reading: inductive_invariant
    "\<lambda>s. reading_complete s \<and> sent s = out" "sender_step h" "\<lambda>s. reading_complete s \<and> sent s = out"
  for h out
  by unfold_locales (auto elim: sender_step.cases)



end
