(* ===== verification/Playback.thy ===== *)
theory Playback
  imports Receiver Transmitter
begin

text \<open>
  From the sender's input to the receiver's output: the packets that the sender makes of its input,
  received in order by a receiver that is connected, through the message format, the state manager,
  the playback resetter, the buffer and the streaming thread.
\<close>

lemma stream_packets_map:
  "stream_packets s i ps ds = map (\<lambda>k. data_msg_full (i + of_nat k * ps) s (ds ! k)) [0..<length ds]"
proof (induction ds arbitrary: i)
  case (Cons d ds)
  have "map (\<lambda>k. data_msg_full (i + of_nat k * ps) s ((d # ds) ! k)) [0..<length (d # ds)]
      = data_msg_full i s d # map (\<lambda>k. data_msg_full (i + ps + of_nat k * ps) s (ds ! k)) [0..<length ds]"
    by (simp add: upt_conv_Cons map_Suc_upt [symmetric] algebra_simps del: upt_Suc)
  with Cons show ?case by simp
qed simp

text \<open>The payloads behind the first one.\<close>

definition later_payloads :: "u64 \<Rightarrow> byte list \<Rightarrow> msg_t list" where
  "later_payloads p inp = map (the \<circ> dm_data) (tl (packets p inp))"

lemma later_payloads_eq:
  "later_payloads p inp =
     map (\<lambda>k. payload (unat p) (replicate (unat p) 0) inp (Suc k)) [0..<length inp div unat p]"
  unfolding later_payloads_def packets_def
  by (simp add: upt_conv_Cons map_Suc_upt [symmetric] data_msg_id_data_def del: upt_Suc)

lemma later_packets_decoded:
  "map (data_msg_raw h) (map (wire h sid) (tl (packets p inp))) = map Inr (stream_packets sid p p (later_payloads p inp))"
proof -
  have "tl (packets p inp) = map (\<lambda>k. data_msg_id_data (p + of_nat k * p)
      (payload (unat p) (replicate (unat p) 0) inp (Suc k))) [0..<length inp div unat p]"
    unfolding packets_def
    by (simp add: upt_conv_Cons map_Suc_upt [symmetric] algebra_simps del: upt_Suc)
  then show ?thesis
    by (simp add: raw_of_wire_data stream_packets_map later_payloads_eq comp_def)
qed

lemma first_packet:
  "hd (packets p inp) = data_msg_id_data 0 (payload (unat p) (replicate (unat p) 0) inp 0)"
  by (simp add: packets_def upt_conv_Cons del: upt_Suc)

lemma stream_packets_session: "list_all (\<lambda>m. dm_session_id m = Some s) (stream_packets s i ps ds)"
  by (induction ds arbitrary: i) (simp_all add: data_msg_full_def)

lemma buffer_reset_fields [simp]:
  "buf_state (buffer_reset b) = NO_SESSION" "max_size (buffer_reset b) = max_size b"
  by (simp_all add: buffer_reset_def)

text \<open>The resetter's turn after a new session has been seen.\<close>

lemma reset_turn:
  assumes "dirty (rc_state r)"
    and "case active_station (rc_state r) of None \<Rightarrow> True | Some st \<Rightarrow> same_station st (connected_station (rc_socket r))"
  shows "playback_resetter_turn h aton os now r =
    Inr (r\<lparr>rc_state := (rc_state r)\<lparr>dirty := False\<rparr>, rc_buffer := buffer_reset (rc_buffer r),
           rc_rexmits := rexmit_reset now (rc_rexmits r)\<rparr>)"
  using assms
  by (auto simp: playback_resetter_turn_def check_state_def Let_def data_connect_def split: option.splits)

lemma later_payloads_fit:
  assumes "psize \<noteq> 0" "unat psize \<le> length inp" "length inp < 2 ^ 63"
  obtains d ds where "later_payloads psize inp = d # ds" "length d = unat psize"
    "length ds = length inp div unat psize - 1" "unat psize + length ds * length d < 2 ^ 64"
proof -
  let ?p = "unat psize" and ?ds = "later_payloads psize inp"
  have p: "0 < ?p" using assms(1) by (simp add: unat_gt_0)
  have full: "0 < length inp div ?p" using p assms(2) by (simp add: div_greater_zero_iff)
  then have n: "length ?ds = length inp div ?p" "?ds \<noteq> []" by (simp_all add: later_payloads_eq)
  then obtain d ds where ds: "?ds = d # ds" by (cases ?ds) auto
  have d: "length d = ?p"
    using ds full length_payload [of 1 inp ?p "replicate ?p 0"] p
    by (simp add: later_payloads_eq upt_conv_Cons del: upt_Suc)
  have len: "length ds = length inp div ?p - 1" using n(1) ds by simp
  have "?p + length ds * ?p = length inp div ?p * ?p"
    using len full by (cases "length inp div ?p") simp_all
  also have "\<dots> \<le> length inp" by simp
  finally have "?p + length ds * length d < 2 ^ 64" using assms(3) d by simp
  with ds d len show thesis by (rule that)
qed

subsection \<open>Property\<close>

text \<open>C11: a connected receiver that is sent a new session, by a sender of the same byte order and with
  input for at least one full packet, drops the first packet, is reset by the resetter, and then
  buffers all others in order without missing any. Once the buffer is three quarters full, the
  streaming thread writes exactly the payloads that the buffer has kept, in the order of the
  sender's input: with room for the whole session everything but the first packet is played.\<close>
theorem session_is_played:
  assumes "buf_inv (rc_buffer r)" "sock (rc_socket r) \<noteq> -1" "session_id (rc_state r) < sid"
    and "case active_station (rc_state r) of None \<Rightarrow> True | Some st \<Rightarrow> same_station st (connected_station (rc_socket r))"
    and "psize \<noteq> 0" "unat psize \<le> length inp" "length inp < 2 ^ 63"
  shows "let raws = map (wire h sid) (packets psize inp);
      vs = keep (unat (max_size (rc_buffer r) div psize)) (later_payloads psize inp) in
    \<exists>r1 r2 r3. data_receiver_turn h now (Received (hd raws)) r = Some (Inr r1)
      \<and> playback_resetter_turn h aton os now r1 = Inr r2
      \<and> receive_all h now (tl raws) r2 = Some r3
      \<and> map snd (slots (rc_buffer r3)) = map Some vs
      \<and> (if psize + max_size (rc_buffer r) div psize * psize * 3 div 4
              \<le> psize + of_nat (length inp div unat psize - 1) * psize
         then \<exists>r4. stream_all (length vs) r3 = Some r4 \<and> played r4 = played r @ concat vs
         else buf_state (rc_buffer r3) = WAITING)"
proof -
  let ?p = "unat psize" and ?ds = "later_payloads psize inp"
  let ?vs = "keep (unat (max_size (rc_buffer r) div psize)) ?ds"
  have p: "0 < ?p" "?p < 2 ^ 63" using assms(5-7) by (simp_all add: unat_gt_0)
  obtain d ds where ds: "?ds = d # ds" and d: "length d = ?p" and len: "length ds = length inp div ?p - 1"
      and no_wrap: "unat psize + length ds * length d < 2 ^ 64"
    by (rule later_payloads_fit [OF assms(5-7)])
  let ?raws = "map (wire h sid) (packets psize inp)"
  let ?r1 = "r\<lparr>rc_state := (rc_state r)\<lparr>session_id := sid, dirty := True\<rparr>\<rparr>"
  have "packets psize inp \<noteq> []" by (simp add: packets_def)
  then have "hd ?raws = wire h sid (hd (packets psize inp))" by (simp add: hd_map)
  then have "data_msg_raw h (hd ?raws) = Inr (data_msg_full 0 sid (payload ?p (replicate ?p 0) inp 0))"
    by (simp add: first_packet raw_of_wire_data)
  then have one: "data_receiver_turn h now (Received (hd ?raws)) r = Some (Inr ?r1)"
    using assms(2,3) by (intro receive_new_session) (auto simp: data_msg_full_def)
  let ?r2 = "?r1\<lparr>rc_state := (rc_state ?r1)\<lparr>dirty := False\<rparr>, rc_buffer := buffer_reset (rc_buffer r),
    rc_rexmits := rexmit_reset now (rc_rexmits r)\<rparr>"
  have two: "playback_resetter_turn h aton os now ?r1 = Inr ?r2"
    using assms(4) by (subst reset_turn) (simp_all split: option.splits)
  have pd: "of_nat (length d) = psize" by (simp add: d)
  obtain b where b: "write_each (stream_packets sid psize psize ?ds) (rc_buffer ?r2) = Some b" "buf_inv b"
      "slots b = keep (unat (max_size (rc_buffer r) div psize))
        (zip (gap_ids (Suc (length ds)) psize psize) (map Some ?ds))"
      "buf_state b = (if psize + max_size (rc_buffer r) div psize * psize * 3 div 4
        \<le> psize + of_nat (length ds) * psize then READABLE else WAITING)"
    using stream_session [of "buffer_reset (rc_buffer r)" d psize ds sid] buf_inv_reset no_wrap p d
    unfolding pd ds [symmetric] by (auto simp: streaming_def)
  let ?r3 = "?r2\<lparr>rc_buffer := b\<rparr>"
  have three: "receive_all h now (tl ?raws) ?r2 = Some ?r3"
    using later_packets_decoded [of h sid psize inp] b(1) assms(2) stream_packets_session
    by (intro receive_all_accepted) (auto simp: map_tl)
  have kept: "map snd (slots b) = map Some ?vs"
    unfolding b(3) by (simp only: keep_map [symmetric] map_snd_zip length_map length_gap_ids ds length_Cons)
  moreover have "map snd (slots b) = msg_vals b"
    using b(2) by (simp add: slots_def buf_inv_def)
  ultimately have "\<exists>r4. stream_all (length ?vs) ?r3 = Some r4 \<and> played r4 = played r @ concat ?vs"
    if "buf_state b = READABLE"
    using stream_all_reads [of ?r3 ?vs] that by auto
  then show ?thesis
    unfolding Let_def using one two three kept b(4) len
    by (intro exI [of _ ?r1] exI [of _ ?r2] exI [of _ ?r3]) simp
qed

text \<open>A receiver with room for four packets of two bytes, and an input of six.\<close>

definition sample_calls :: connect_calls where
  "sample_calls = \<lparr>new_fd = 3, membership_err = 0, timeout_err = 0, bind_err = 0, error_text = []\<rparr>"

definition sample_receiver :: receiver where
  "sample_receiver =
     (receiver_members ''255.255.255.255'' 35830 9 250 None 0 0 0 sample_station sample_ctrl (ui_table 3 15830 500 4))
       \<lparr>rc_socket := (data_socket_init sample_station 500)\<lparr>sock := 3, rx_open := [3]\<rparr>\<rparr>"

lemma sample_receiver_fields:
  "buf_inv (rc_buffer sample_receiver)" "sock (rc_socket sample_receiver) \<noteq> -1"
  "session_id (rc_state sample_receiver) < 7"
  "case active_station (rc_state sample_receiver) of None \<Rightarrow> True
   | Some st \<Rightarrow> same_station st (connected_station (rc_socket sample_receiver))"
  "max_size (rc_buffer sample_receiver) = 9" "played sample_receiver = []"
  by (simp_all add: sample_receiver_def receiver_members_def buf_inv_init state_init_def)
    (simp add: buffer_init_def)

lemma sample_later_payloads:
  "later_payloads 2 [1, 2, 3, 4, 5, 6, 7, 8, 9, 10, 11, 12] =
     [[3, 4], [5, 6], [7, 8], [9, 10], [11, 12], [11, 12]]"
  by (simp add: later_payloads_eq payload_def Let_def upt_rec)

theorem session_is_played_witness:
  "\<exists>r1 r2 r3 r4.
     data_receiver_turn Little_Endian 0
       (Received (hd (map (wire Little_Endian 7) (packets 2 [1, 2, 3, 4, 5, 6, 7, 8, 9, 10, 11, 12])))) sample_receiver
       = Some (Inr r1)
     \<and> playback_resetter_turn Little_Endian (\<lambda>_. None) sample_calls 0 r1 = Inr r2
     \<and> receive_all Little_Endian 0
         (tl (map (wire Little_Endian 7) (packets 2 [1, 2, 3, 4, 5, 6, 7, 8, 9, 10, 11, 12]))) r2 = Some r3
     \<and> stream_all 4 r3 = Some r4 \<and> played r4 = [7, 8, 9, 10, 11, 12, 11, 12]"
proof -
  let ?inp = "[1, 2, 3, 4, 5, 6, 7, 8, 9, 10, 11, 12 :: byte]"
  have kept: "keep (unat (9 div 2 :: u64)) [[3, 4], [5, 6], [7, 8], [9, 10], [11, 12], [11, 12 :: byte]]
      = [[7, 8], [9, 10], [11, 12], [11, 12]]"
    by (simp add: keep_def lastn_def)
  have sizes: "(2 :: u64) \<noteq> 0" "unat (2 :: u64) \<le> length ?inp" "length ?inp < 2 ^ 63"
    by simp_all
  have n: "length ?inp div unat (2 :: u64) - 1 = 5" by simp
  have start: "(2 :: u64) + 9 div 2 * 2 * 3 div 4 \<le> 2 + of_nat 5 * 2" by simp
  show ?thesis
    using session_is_played [OF sample_receiver_fields(1-4) sizes, of Little_Endian 0 "\<lambda>_. None" sample_calls]
    unfolding Let_def sample_receiver_fields(5,6) sample_later_payloads kept n if_P [OF start]
    by (simp add: eval_nat_numeral del: stream_all.simps) blast
qed

end
