(* ===== verification/Receiver_Run.thy ===== *)
theory Receiver_Run
  imports Receiver
begin

text \<open>
  The receiver as a transition system: from the state its constructor leaves, any sequence of turns of
  its seven threads, with whatever the system returns in each turn. A turn that ends with an exception
  ends the program and has no step.
\<close>

subsection \<open>Steps\<close>

inductive receiver_step :: "host \<Rightarrow> (string \<Rightarrow> u32 option) \<Rightarrow> receiver \<Rightarrow> receiver \<Rightarrow> bool" for h aton where
  step_resetter: "playback_resetter_turn h aton os now r = Inr r' \<Longrightarrow> receiver_step h aton r r'"
| step_ctrl: "ctrl_receiver_turn h now rcv r = Inr r' \<Longrightarrow> receiver_step h aton r r'"
| step_lookup: "lookup_sender_turn h aton results r = Some (Inr r') \<Longrightarrow> receiver_step h aton r r'"
| step_rexmit: "rexmit_sender_turn h aton res now r = Inr r' \<Longrightarrow> receiver_step h aton r r'"
| step_data: "data_receiver_turn h now datagram r = Some (Inr r') \<Longrightarrow>
    (\<And>raw. datagram = Received raw \<Longrightarrow> length raw \<le> 65535) \<Longrightarrow> receiver_step h aton r r'"
| step_stream: "data_streamer_turn r = Inr r' \<Longrightarrow> receiver_step h aton r r'"
| step_ui: "ui_handler_turn now later menu_os update_os r = Inr r' \<Longrightarrow>
    system_ok menu_os (rc_ui r) \<Longrightarrow>
    (\<And>names sel ui. send_menu menu_os names sel (rc_ui r) = Inr ui \<Longrightarrow> system_ok update_os ui) \<Longrightarrow>
    receiver_step h aton r r'"

definition receiver_start :: "host \<Rightarrow> station \<Rightarrow> receiver \<Rightarrow> bool" where
  "receiver_start h unset r \<longleftrightarrow>
     (\<exists>ctrl_os n ui_os addr port uport bsize secs preferred now elements package. 0 < n
        \<and> receiver_init h ctrl_os n ui_os addr port uport bsize secs preferred now elements package unset = Inr r)"

subsection \<open>Invariant\<close>

text \<open>While nothing is marked, packets are read from the station that is to be played; the socket is
  open unless it has never been connected.\<close>

definition tuned :: "station \<Rightarrow> receiver \<Rightarrow> bool" where
  "tuned unset r \<longleftrightarrow>
     (\<not> dirty (rc_state r) \<longrightarrow>
        (case active_station (rc_state r) of
           None \<Rightarrow> True
         | Some st \<Rightarrow> same_station st (connected_station (rc_socket r))))
     \<and> (connected_station (rc_socket r) = unset \<or> 0 \<le> sock (rc_socket r))"

definition receiver_inv :: "station \<Rightarrow> receiver \<Rightarrow> bool" where
  "receiver_inv unset r \<longleftrightarrow>
     buf_inv (rc_buffer r) \<and> rexmit_inv (rc_rexmits r) \<and> station_inv (rc_stations r) \<and> ui_inv (rc_ui r)
     \<and> tuned unset r"

subsection \<open>The calls on the stations\<close>

text \<open>The station returned is the selected one; there is none when there are no stations.\<close>

definition selects :: "station option \<Rightarrow> station_set \<Rightarrow> bool" where
  "selects sel ss \<longleftrightarrow>
     (case sel of
        None \<Rightarrow> stations ss = []
      | Some st \<Rightarrow> st \<in> set (stations ss) \<and> selected_station ss = At (st_name st))"

lemma get_selected_station_selects:
  assumes "station_inv ss" "get_selected_station ss = Inr sel"
  shows "selects sel ss"
proof (cases "stations ss = []")
  case True
  with assms(2) show ?thesis by (simp add: selects_def get_selected_station_def)
next
  case False
  then obtain i where i: "i < length (stations ss)" "selected_station ss = At (st_name (stations ss ! i))"
    using selected_position [OF assms(1)] by blast
  then have "get_selected_station ss = Inr (Some (stations ss ! i))"
    using assms(1) by (intro get_selected_station_at) (simp_all add: station_inv_def)
  with i assms(2) show ?thesis by (auto simp: selects_def)
qed

lemma get_selected_selects:
  assumes "station_inv ss" "get_selected now ss = Inr (sel, ss')"
  shows "station_inv ss'" "selects sel ss'"
  using assms remove_old_spec [OF assms(1), of now] get_selected_station_selects [of ss' sel]
  by (auto simp: get_selected_def and_then_ok_iff)

lemma select_get_selected_selects:
  assumes "station_inv ss" "select_get_selected now msu ss = Inr (sel, ss')"
  shows "station_inv ss'" "selects sel ss'"
proof -
  let ?ss = "expire now ss"
  note e = remove_old_spec [OF assms(1), of now]
  have "station_inv ss' \<and> selects sel ss'"
  proof (cases "stations ?ss = []")
    case True
    with assms(2) e show ?thesis
      by (auto simp: select_get_selected_def and_then_ok_iff intro: get_selected_station_selects)
  next
    case False
    define j where "j = next_position msu (length (stations ?ss))"
    from select_spec [OF assms(1) False] obtain i where i: "i < length (stations ?ss)"
        "select_get_selected now msu ss = Inr (Some (stations ?ss ! j i), ?ss\<lparr>selected_station := At (st_name (stations ?ss ! j i))\<rparr>)"
      by (auto simp: Let_def j_def)
    have "j i < length (stations ?ss)"
      using False by (simp add: j_def next_position_def split: menu_selection_update.split)
    with i assms(2) e(2) show ?thesis by (auto simp: station_inv_def selects_def)
  qed
  then show "station_inv ss'" "selects sel ss'" by simp_all
qed

lemma update_get_selected_selects:
  assumes "station_inv ss" "update_get_selected now st ss = Inr (sel, ss')"
  shows "station_inv ss'"
  using assms update_spec [OF assms(1), of now st] station_inv_heard [OF remove_old_spec(2) [OF assms(1)], of st now]
  by (auto simp: and_then_ok_iff split: if_splits)

lemma get_station_names_all:
  assumes "station_inv ss" "get_station_names now ss = Inr (names, ss')"
  shows "station_inv ss'" "names = map st_name (stations ss')" "sort names = names"
proof -
  have ss': "ss' = expire now ss" "names = map st_name (stations ss')"
    using assms(2) by (auto simp: get_station_names_def remove_old_spec(1) [OF assms(1)])
  show "station_inv ss'" unfolding ss'(1) by (rule remove_old_spec(2) [OF assms(1)])
  then have "sorted names" by (simp add: ss'(2) ascending_sorted station_inv_def)
  then show "sort names = names" by (simp add: sorted_sort_id)
  show "names = map st_name (stations ss')" by (rule ss'(2))
qed

subsection \<open>The turns keep the invariant\<close>

lemma tuned_dirty: "dirty (rc_state r) \<Longrightarrow>
    connected_station (rc_socket r) = unset \<or> 0 \<le> sock (rc_socket r) \<Longrightarrow> tuned unset r"
  by (simp add: tuned_def)

lemma tuned_simps [simp]:
  "tuned unset (r\<lparr>rc_buffer := b\<rparr>) = tuned unset r" "tuned unset (r\<lparr>rc_rexmits := m\<rparr>) = tuned unset r"
  "tuned unset (r\<lparr>rc_stations := ss\<rparr>) = tuned unset r" "tuned unset (r\<lparr>rc_ctrl := c\<rparr>) = tuned unset r"
  "tuned unset (r\<lparr>rc_ui := u\<rparr>) = tuned unset r" "tuned unset (r\<lparr>ids_to_forget := is\<rparr>) = tuned unset r"
  "tuned unset (r\<lparr>enqueued_msu := e\<rparr>) = tuned unset r" "tuned unset (r\<lparr>played := p\<rparr>) = tuned unset r"
  by (simp_all add: tuned_def split: option.split)

text \<open>A turn that leaves the socket alone, and changes of the playing station only with a mark, keeps it
  tuned.\<close>

lemma tuned_keep:
  assumes "tuned unset r" "rc_socket r' = rc_socket r"
    and "dirty (rc_state r') \<or> dirty (rc_state r') = dirty (rc_state r) \<and> active_station (rc_state r') = active_station (rc_state r)"
  shows "tuned unset r'"
  using assms by (auto simp: tuned_def split: option.splits)

lemma register_address_marks:
  "dirty (snd (register_address_check_change st s))
   \<or> snd (register_address_check_change st s) = s \<and> \<not> dirty s"
  by (auto simp: register_address_check_change_def Let_def split: option.split)

lemma register_session_marks:
  "register_session_check_ignore i s = (ignore, s') \<Longrightarrow> dirty s' \<or> s' = s \<and> \<not> dirty s"
  by (auto simp: register_session_check_ignore_def split: if_splits)

lemma resetter_inv:
  assumes "playback_resetter_turn h aton os now r = Inr r'" "receiver_inv unset r"
  shows "receiver_inv unset r'"
proof -
  have connect: "same_station st (connected_station ds)
      \<and> (connected_station ds = unset \<or> 0 \<le> sock ds)"
    if "data_connect h aton os st (rc_socket r) = (Inr u, ds)" for u st ds
    using data_connect_ok [of h aton os st "rc_socket r" ds] that assms(2) by (auto simp: receiver_inv_def tuned_def)
  let ?r = "r\<lparr>rc_state := (rc_state r)\<lparr>dirty := False\<rparr>, rc_buffer := buffer_reset (rc_buffer r),
    rc_rexmits := rexmit_reset now (rc_rexmits r)\<rparr>"
  have reset: "buf_inv (buffer_reset b)" "rexmit_inv (rexmit_reset now rm)" for b rm
    by (simp_all add: buf_inv_reset rexmit_inv_def rexmit_reset_def)
  consider "\<not> dirty (rc_state r)" "r' = r"
    | "active_station (rc_state r) = None" "r' = ?r"
    | st ds where "active_station (rc_state r) = Some st" "r' = ?r\<lparr>rc_socket := ds\<rparr>"
        "data_connect h aton os st (rc_socket r) = (Inr (), ds)"
    using assms(1)
    by (cases "dirty (rc_state r)")
      (auto simp: playback_resetter_turn_def check_state_def Let_def split: option.splits prod.splits sum.splits)
  then show ?thesis
  proof cases
    case 3
    from connect [OF 3(3)] show ?thesis
      using assms(2) reset by (simp add: 3(1,2) receiver_inv_def tuned_def)
  qed (use assms(2) reset in \<open>simp_all add: receiver_inv_def tuned_def\<close>)
qed

lemma address_tuned:
  assumes "tuned unset r"
  shows "tuned unset (r\<lparr>rc_stations := ss, rc_state := snd (register_address_check_change sel (rc_state r))\<rparr>)"
  using assms register_address_marks [of sel "rc_state r"] by (intro tuned_keep [OF assms]) auto

lemma ctrl_inv:
  assumes turn: "ctrl_receiver_turn h now rcv r = Inr r'" and inv: "receiver_inv unset r"
  shows "receiver_inv unset r'"
proof (cases rcv)
  case (Ctrl_Received str a)
  let ?msg = "\<lparr>msg_data = str\<rparr>"
  show ?thesis
  proof (cases "is_reply ?msg")
    case True
    with turn have "and_then (as_station h now ?msg a) (\<lambda>st.
        and_then (update_get_selected now st (rc_stations r)) (\<lambda>(new_selected, ss).
        let r1 = r\<lparr>rc_stations := ss\<rparr>
        in (case new_selected of None \<Rightarrow> Inr r1
            | Some sel \<Rightarrow> Inr (r1\<lparr>rc_state := snd (register_address_check_change sel (rc_state r1))\<rparr>)))) = Inr r'"
      by (simp add: ctrl_receiver_turn_def ctrl_try_read_def Ctrl_Received)
    then obtain st where "and_then (update_get_selected now st (rc_stations r)) (\<lambda>(new_selected, ss).
        let r1 = r\<lparr>rc_stations := ss\<rparr>
        in (case new_selected of None \<Rightarrow> Inr r1
            | Some sel \<Rightarrow> Inr (r1\<lparr>rc_state := snd (register_address_check_change sel (rc_state r1))\<rparr>))) = Inr r'"
      by (rule and_then_okE)
    then obtain x where x: "update_get_selected now st (rc_stations r) = Inr x"
        "(case x of (new_selected, ss) \<Rightarrow> let r1 = r\<lparr>rc_stations := ss\<rparr>
          in (case new_selected of None \<Rightarrow> Inr r1
              | Some sel \<Rightarrow> Inr (r1\<lparr>rc_state := snd (register_address_check_change sel (rc_state r1))\<rparr>))) = (Inr r' :: receiver result)"
      by (rule and_then_okE)
    obtain new_selected ss where p: "x = (new_selected, ss)" by fastforce
    have "station_inv ss"
      using inv x(1) update_get_selected_selects unfolding p receiver_inv_def by blast
    then show ?thesis
      using x(2) inv address_tuned [where unset = unset and r = r and ss = ss]
      by (cases new_selected) (auto simp: p receiver_inv_def)
  qed (use turn inv in \<open>simp add: ctrl_receiver_turn_def ctrl_try_read_def Ctrl_Received\<close>)
qed (use turn inv in \<open>simp_all add: ctrl_receiver_turn_def ctrl_try_read_def\<close>)

lemma lookup_inv:
  assumes "lookup_sender_turn h aton os r = Some (Inr r')" "receiver_inv unset r"
  shows "receiver_inv unset r'"
proof -
  from assms(1) obtain ctl where "r' = r\<lparr>rc_ctrl := ctl\<rparr>"
    by (auto simp: lookup_sender_turn_def split: sum.splits) (metis Inl_Inr_False map_sum.simps sum.exhaust sum.inject(2))
  with assms(2) show ?thesis by (simp add: receiver_inv_def)
qed

lemma rexmit_turn_inv:
  assumes "rexmit_sender_turn h aton os now r = Inr r'" "receiver_inv unset r"
  shows "receiver_inv unset r'"
proof -
  obtain ids rm where f: "filter_get_ids now (ids_to_forget r) (rc_rexmits r) = Inr (ids, rm)" "rexmit_inv rm"
    using filter_get_ids_due [of "rc_rexmits r" now "ids_to_forget r"] assms(2) by (auto simp: receiver_inv_def)
  obtain asked forget where loop: "space_loop (rc_buffer r) ids [] [] = Inr (asked, forget)"
    using assms(1) f(1) by (auto simp: rexmit_sender_turn_def Let_def elim: and_then_okE)
  let ?r = "r\<lparr>rc_rexmits := rm, ids_to_forget := forget\<rparr>"
  have r: "receiver_inv unset ?r" using assms(2) f(2) by (simp add: receiver_inv_def)
  show ?thesis
  proof (cases "asked = []")
    case True
    with assms(1) f(1) loop r show ?thesis by (auto simp: rexmit_sender_turn_def)
  next
    case False
    with assms(1) f(1) loop obtain sel ss where sel: "get_selected now (rc_stations r) = Inr (sel, ss)"
      by (auto simp: rexmit_sender_turn_def elim!: and_then_okE)
    have ss: "receiver_inv unset (?r\<lparr>rc_stations := ss, rc_ctrl := ctl\<rparr>)"
        "receiver_inv unset (?r\<lparr>rc_stations := ss\<rparr>)" for ctl
      using r get_selected_selects(1) [OF _ sel] by (simp_all add: receiver_inv_def)
    show ?thesis
    proof (cases sel)
      case None
      with assms(1) f(1) loop False sel ss show ?thesis by (auto simp: rexmit_sender_turn_def)
    next
      case (Some st)
      with assms(1) f(1) loop False sel ss show ?thesis
        by (auto simp: rexmit_sender_turn_def elim!: and_then_okE split: prod.splits sum.splits)
    qed
  qed
qed

lemma stream_inv:
  assumes "data_streamer_turn r = Inr r'" "receiver_inv unset r"
  shows "receiver_inv unset r'"
proof -
  have "buf_inv (snd (buffer_try_read (rc_buffer r)))"
    using assms(2) by (simp add: receiver_inv_def buf_inv_optional_read)
  moreover have "tuned unset (r'\<lparr>rc_state := mark_dirty s\<rparr>)" if "tuned unset r'" for r' s
    using that by (simp add: tuned_def mark_dirty_def)
  ultimately show ?thesis
    using assms
    by (auto simp: data_streamer_turn_def receiver_inv_def split: prod.splits sum.splits option.splits cpp_error.splits)
qed

lemma read_payload:
  assumes "data_try_read h rcv ds = Inr (Some m)" "\<And>raw. rcv = Received raw \<Longrightarrow> length raw \<le> 65535"
  shows "payload_exists m"
proof -
  obtain raw where raw: "rcv = Received raw" "data_msg_raw h raw = Inr m"
    using assms(1) by (cases rcv) (auto simp: data_try_read_def map_sum_ok_iff split: if_splits)
  have "length d < 2 ^ 63" if "dm_data m = Some d" for d
    using raw(2) assms(2) [OF raw(1)] that by (auto simp: data_msg_raw_ok_iff)
  then show ?thesis by (simp add: payload_exists_def split: option.split)
qed

lemma data_inv:
  assumes turn: "data_receiver_turn h now datagram r = Some (Inr r')" and inv: "receiver_inv unset r"
    and len: "\<And>raw. datagram = Received raw \<Longrightarrow> length raw \<le> 65535"
  shows "receiver_inv unset r'"
proof (cases "data_try_read h datagram (rc_socket r)")
  case (Inr read)
  show ?thesis
  proof (cases read)
    case (Some m)
    have "payload_exists m" using read_payload [OF Inr [unfolded Some] len] by blast
    then obtain res b where wr: "write_get_missed m (rc_buffer r) = Some (res, b)" "buf_inv b"
      using write_ends_or_inv inv unfolding receiver_inv_def by blast
    obtain i where i: "get_session_id m = Inr i"
      using turn Inr Some by (cases "get_session_id m") (auto simp: data_receiver_turn_def)
    obtain ignore_msg sm where sm: "register_session_check_ignore i (rc_state r) = (ignore_msg, sm)" by fastforce
    let ?r = "r\<lparr>rc_state := sm\<rparr>"
    have "tuned unset r" using inv by (simp add: receiver_inv_def)
    then have "tuned unset ?r"
      by (rule tuned_keep) (use register_session_marks [OF sm] in auto)
    then have r: "receiver_inv unset ?r" "receiver_inv unset (?r\<lparr>rc_buffer := b\<rparr>)"
      using inv wr(2) by (simp_all add: receiver_inv_def)
    show ?thesis
    proof (cases ignore_msg)
      case True
      with turn Inr Some i sm r show ?thesis by (simp add: data_receiver_turn_def)
    next
      case False
      have rexmits: "rexmit_inv (append_ids now ids (rc_rexmits r))" for ids
        using inv append_ids_spec [of "rc_rexmits r" now ids] by (simp add: receiver_inv_def)
      note facts = Inr Some i sm wr(1) False
      show ?thesis
      proof (cases res)
        case (Inr ids)
        with turn facts have "r' = (if ids \<noteq> [] then (?r\<lparr>rc_buffer := b\<rparr>)\<lparr>rc_rexmits := append_ids now ids (rc_rexmits r)\<rparr>
            else ?r\<lparr>rc_buffer := b\<rparr>)"
          by (simp add: data_receiver_turn_def Let_def split: if_splits)
        with r rexmits show ?thesis by (simp add: receiver_inv_def)
      next
        case (Inl e)
        with turn facts have "r' = (?r\<lparr>rc_buffer := b\<rparr>)\<lparr>rc_state := mark_dirty sm\<rparr>"
          by (cases e) (simp_all add: data_receiver_turn_def)
        moreover have "tuned unset ((?r\<lparr>rc_buffer := b\<rparr>)\<lparr>rc_state := mark_dirty sm\<rparr>)"
          by (rule tuned_keep [OF \<open>tuned unset r\<close>]) (simp_all add: mark_dirty_def)
        ultimately show ?thesis using r(2) by (simp add: receiver_inv_def)
      qed
    qed
  qed (use turn Inr inv in \<open>simp add: data_receiver_turn_def\<close>)
qed (use turn in \<open>simp add: data_receiver_turn_def\<close>)

lemma register_address_active:
  "\<exists>st'. active_station (snd (register_address_check_change st s)) = Some st' \<and> st_name st' = st_name st
    \<and> data_address st' = data_address st \<and> st_data_port st' = st_data_port st"
  by (auto simp: register_address_check_change_def Let_def same_station_def split: option.split)

lemma select_for_menu_spec:
  assumes "station_inv (rc_stations r)" and turn: "select_for_menu now later r = Inr ((names, sel), r1)"
  shows "\<exists>ss sm. r1 = r\<lparr>rc_stations := ss, rc_state := sm\<rparr> \<and> station_inv ss
    \<and> names = map st_name (stations ss) \<and> sel = map_option st_name (active_station sm)
    \<and> (dirty sm \<or> sm = rc_state r)"
proof -
  from turn obtain x where
      x: "(case enqueued_msu r of Some msu \<Rightarrow> select_get_selected now msu (rc_stations r)
           | None \<Rightarrow> get_selected now (rc_stations r)) = Inr x"
    by (auto simp: select_for_menu_def elim: and_then_okE)
  obtain new_selected ss where p: "x = (new_selected, ss)" by fastforce
  have ss: "station_inv ss" "selects new_selected ss"
    using x get_selected_selects [OF assms(1)] select_get_selected_selects [OF assms(1)]
    by (auto simp: p split: option.splits)
  show ?thesis
  proof (cases new_selected)
    case None
    with turn x ss show ?thesis
      by (intro exI [of _ ss] exI [of _ "mark_dirty (rc_state r)"])
        (auto simp: select_for_menu_def p selects_def mark_dirty_def)
  next
    case (Some st)
    let ?sm = "snd (register_address_check_change st (rc_state r))"
    from turn x Some have "and_then (get_station_names later ss) (\<lambda>(names, ss2).
        Inr ((sort names, Some (st_name st)), r\<lparr>rc_state := ?sm, rc_stations := ss2\<rparr>)) = Inr ((names, sel), r1)"
      by (simp add: select_for_menu_def p Let_def)
    then obtain y where y: "get_station_names later ss = Inr y" "(case y of (names, ss2) \<Rightarrow>
        Inr ((sort names, Some (st_name st)), r\<lparr>rc_state := ?sm, rc_stations := ss2\<rparr>))
        = (Inr ((names, sel), r1) :: ((string list \<times> string option) \<times> receiver) result)"
      by (rule and_then_okE)
    obtain names' ss2 where y_eq: "y = (names', ss2)" by fastforce
    note names = get_station_names_all [OF ss(1) y(1) [unfolded y_eq]]
    show ?thesis
      using y(2) names register_address_active [of st "rc_state r"] register_address_marks [of st "rc_state r"]
      by (intro exI [of _ ss2] exI [of _ ?sm]) (auto simp: y_eq)
  qed
qed

text \<open>After the turn of the user interface's thread, every client shows the stations the receiver knows
  and the one it plays.\<close>

definition shows_stations :: "receiver \<Rightarrow> bool" where
  "shows_stations r \<longleftrightarrow>
     active_menu (rc_ui r) =
       parse_stations (map st_name (stations (rc_stations r))) (map_option st_name (active_station (rc_state r)))"

lemma ui_turn:
  assumes turn: "ui_handler_turn now later menu_os update_os r = Inr r'" and inv: "receiver_inv unset r"
    and ok: "system_ok menu_os (rc_ui r)"
      "\<And>names sel ui. send_menu menu_os names sel (rc_ui r) = Inr ui \<Longrightarrow> system_ok update_os ui"
  shows "receiver_inv unset r'" "shows_stations r'"
proof -
  from turn obtain x where x: "select_for_menu now later r = Inr x"
    by (auto simp: ui_handler_turn_def elim: and_then_okE)
  obtain names sel r1 where p: "x = ((names, sel), r1)" by (metis surj_pair)
  from inv select_for_menu_spec [OF _ x [unfolded p]] obtain ss sm where
      r1: "r1 = r\<lparr>rc_stations := ss, rc_state := sm\<rparr>" "station_inv ss" "names = map st_name (stations ss)"
        "sel = map_option st_name (active_station sm)" "dirty sm \<or> sm = rc_state r"
    unfolding receiver_inv_def by blast
  have "and_then (send_menu menu_os names sel (rc_ui r)) (\<lambda>ui.
      and_then (get_update update_os ui) (\<lambda>(msu, ui2). Inr (r1\<lparr>rc_ui := ui2, enqueued_msu := msu\<rparr>))) = Inr r'"
    using turn x by (simp add: ui_handler_turn_def p r1(1))
  then obtain ui where ui: "send_menu menu_os names sel (rc_ui r) = Inr ui"
      "and_then (get_update update_os ui) (\<lambda>(msu, ui2). Inr (r1\<lparr>rc_ui := ui2, enqueued_msu := msu\<rparr>)) = Inr r'"
    by (rule and_then_okE)
  from ui(2) obtain y where y: "get_update update_os ui = Inr y"
      "(case y of (msu, ui2) \<Rightarrow> Inr (r1\<lparr>rc_ui := ui2, enqueued_msu := msu\<rparr>)) = (Inr r' :: receiver result)"
    by (rule and_then_okE)
  obtain msu ui2 where y_eq: "y = (msu, ui2)" by fastforce
  have r': "r' = r1\<lparr>rc_ui := ui2, enqueued_msu := msu\<rparr>" using y(2) by (simp add: y_eq)
  have "ui_inv (rc_ui r)" using inv by (simp add: receiver_inv_def)
  note menu = send_menu_inv [OF this ok(1) ui(1)]
  note update = get_update_inv [OF menu(1) ok(2) [OF ui(1)] y(1) [unfolded y_eq]]
  have "tuned unset r" using inv by (simp add: receiver_inv_def)
  then have "tuned unset r1" by (rule tuned_keep) (use r1(1,5) in auto)
  then show "receiver_inv unset r'" using inv r1(2) update(1) by (simp add: receiver_inv_def r' r1(1))
  show "shows_stations r'" using update(2) menu(2) r1(3,4) by (simp add: shows_stations_def r' r1(1))
qed

lemma receiver_init_members:
  assumes "receiver_init h ctrl_os n ui_os addr port uport bsize secs preferred now elements package unset = Inr r"
  shows "\<exists>ctl ui. ui_init n uport socket_timeout_in_ms ui_os = Inr ui
    \<and> r = receiver_members addr port bsize secs preferred now elements package unset ctl ui"
proof -
  obtain res ctl where c: "ctrl_socket_init h port socket_timeout_in_ms True False ctrl_os = (res, ctl)" by fastforce
  with assms show ?thesis by (cases res) (auto simp: receiver_init_def elim!: and_then_okE)
qed

interpretation receiver_turns: inductive_invariant "receiver_start h unset" "receiver_step h aton" "receiver_inv unset"
  for h aton unset
proof unfold_locales
  fix r r' :: receiver
  show "receiver_inv unset r" if "receiver_start h unset r"
  proof -
    from that obtain ctrl_os n ui_os addr port uport bsize secs preferred now elements package where n: "0 < n"
        and "receiver_init h ctrl_os n ui_os addr port uport bsize secs preferred now elements package unset = Inr r"
      unfolding receiver_start_def by blast
    from receiver_init_members [OF this(2)] obtain ctl ui where "ui_init n uport socket_timeout_in_ms ui_os = Inr ui"
        "r = receiver_members addr port bsize secs preferred now elements package unset ctl ui" by blast
    with n show ?thesis
      by (simp add: receiver_inv_def receiver_members_def tuned_def data_socket_init_def state_init_def
          buf_inv_init ui_inv_init rexmit_init_def rexmit_inv_def station_set_init_def station_inv_def)
  qed
  show "receiver_inv unset r'" if "receiver_step h aton r r'" "receiver_inv unset r"
    using that
  proof cases
    case step_resetter
    with that(2) show ?thesis by (blast intro: resetter_inv)
  next
    case step_ctrl
    with that(2) show ?thesis by (blast intro: ctrl_inv)
  next
    case step_lookup
    with that(2) show ?thesis by (blast intro: lookup_inv)
  next
    case step_rexmit
    with that(2) show ?thesis by (blast intro: rexmit_turn_inv)
  next
    case step_data
    with that(2) show ?thesis by (blast intro: data_inv)
  next
    case step_stream
    with that(2) show ?thesis by (blast intro: stream_inv)
  next
    case step_ui
    with that(2) show ?thesis by (blast intro: ui_turn(1))
  qed
qed

subsection \<open>Tuning in\<close>

lemma update_first:
  assumes "stations ss = []" "selected_station ss = End"
  shows "update_get_selected now st ss = Inr (Some st, ss\<lparr>stations := [st], selected_station := At (st_name st)\<rparr>)"
  using assms
  by (simp add: update_get_selected_def remove_old_stations_def begin_of_def erase_station_def Let_def iter_eq_def
      get_selected_station_def deref_def)

lemma as_station_reply:
  assumes "word_of (\<lambda>c. \<not> is_space c) addr" "well_spaced name"
  obtains st where "as_station h now (make_reply name addr port) sender = Inr st" "st_name st = name"
    "data_address st = addr" "st_data_port st = port"
  using as_station_make_reply [OF assms, of h now port "sin_port sender" "sin_addr sender"]
  by (cases sender) (auto intro: that)

text \<open>The resetter's turn when the station to be played is known and the system lets it connect.\<close>

lemma resetter_tunes_in:
  assumes "tuned unset r" "active_station (rc_state r) = Some st" "aton (data_address st) \<noteq> None"
    and "0 \<le> new_fd os" "0 \<le> membership_err os" "0 \<le> timeout_err os" "0 \<le> bind_err os"
  shows "\<exists>r'. playback_resetter_turn h aton os now r = Inr r' \<and> \<not> dirty (rc_state r')
    \<and> active_station (rc_state r') = Some st"
proof (cases "dirty (rc_state r)")
  case True
  have "\<exists>ds. data_connect h aton os st (rc_socket r) = (Inr (), ds)"
    using data_connect_succeeds [where aton = aton and st = st and os = os] assms(3-7) by blast
  with True assms(2) show ?thesis by (auto simp: playback_resetter_turn_def check_state_def)
next
  case False
  with assms(2) show ?thesis by (simp add: playback_resetter_turn_def check_state_def)
qed

lemma reply_tunes:
  assumes inv: "receiver_inv unset r"
    and first: "stations (rc_stations r) = []" "selected_station (rc_stations r) = End"
    and reply: "word_of (\<lambda>c. \<not> is_space c) addr" "well_spaced name" "aton addr \<noteq> None"
    and os: "0 \<le> new_fd os" "0 \<le> membership_err os" "0 \<le> timeout_err os" "0 \<le> bind_err os"
  shows "\<exists>r1 r2 st. ctrl_receiver_turn h now (Ctrl_Received (ctrl_sendable (make_reply name addr port)) sender) r = Inr r1
    \<and> playback_resetter_turn h aton os later r1 = Inr r2
    \<and> active_station (rc_state r2) = Some st \<and> st_name st = name \<and> data_address st = addr \<and> st_data_port st = port
    \<and> \<not> dirty (rc_state r2)"
proof -
  obtain st where st: "as_station h now (make_reply name addr port) sender = Inr st" "st_name st = name"
      "data_address st = addr" "st_data_port st = port"
    by (rule as_station_reply [OF reply(1,2)])
  have msg: "\<lparr>msg_data = ctrl_sendable (make_reply name addr port)\<rparr> = make_reply name addr port"
    by (simp add: ctrl_sendable_def)
  define r1 where "r1 = r\<lparr>rc_stations := (rc_stations r)\<lparr>stations := [st], selected_station := At (st_name st)\<rparr>,
    rc_state := snd (register_address_check_change st (rc_state r))\<rparr>"
  have turn: "ctrl_receiver_turn h now (Ctrl_Received (ctrl_sendable (make_reply name addr port)) sender) r = Inr r1"
    by (simp add: ctrl_msg_kinds_exclusive ctrl_receiver_turn_def ctrl_try_read_def msg st(1) update_first [OF first] r1_def)
  from ctrl_inv [OF turn inv] have "tuned unset r1" by (simp add: receiver_inv_def)
  moreover obtain st' where st': "active_station (rc_state r1) = Some st'" "st_name st' = name"
      "data_address st' = addr" "st_data_port st' = port"
    using register_address_active [of st "rc_state r"] st by (auto simp: r1_def)
  ultimately show ?thesis
    using turn resetter_tunes_in [of unset r1 st' aton os h later] reply(3) os by (metis)
qed

text \<open>A started receiver, whose table has three entries.\<close>

definition unset_station :: station where
  "unset_station = \<lparr>st_name = [], ctrl_address = [], ctrl_port = 0, data_address = [], st_data_port = 0, last_reply = 0\<rparr>"

definition started :: receiver where
  "started = receiver_members ''255.255.255.255'' 35830 65536 250 None 0 0 0 unset_station
     \<lparr>ctl_sock = 3, ctl_open = [3], ctl_usec = 500000, ctl_broadcast = True, ctl_local = None, ctl_sent = []\<rparr>
     (ui_table 3 15830 500 4)"

lemma started: "reach (receiver_start h unset_station) step started"
proof (rule reach_start)
  let ?ctl = "\<lparr>ctl_new_fd = 3, ctl_reuse_err = 0, ctl_timeout_err = 0, ctl_broadcast_err = 0, ctl_ttl_err = 0,
    ctl_bind_err = 0, ctl_error = []\<rparr>"
  let ?ui = "\<lparr>ui_new_fd = 4, ui_reuse_err = 0, ui_bind_err = 0, ui_listen_err = 0, ui_setup_error = []\<rparr>"
  have "receiver_init h ?ctl 3 ?ui ''255.255.255.255'' 35830 15830 65536 250 None 0 0 0 unset_station = Inr started"
    by (simp add: receiver_init_def ctrl_socket_init_def ui_init_def started_def Let_def socket_timeout_in_ms_def)
  then show "receiver_start h unset_station started"
    unfolding receiver_start_def by (metis zero_less_numeral)
qed

lemma started_fields:
  "stations (rc_stations started) = []" "selected_station (rc_stations started) = End"
  by (simp_all add: started_def receiver_members_def station_set_init_def)

definition good_calls :: connect_calls where
  "good_calls = \<lparr>new_fd = 5, membership_err = 0, timeout_err = 0, bind_err = 0, error_text = []\<rparr>"

lemma good_calls [simp]:
  "0 \<le> new_fd good_calls" "0 \<le> membership_err good_calls" "0 \<le> timeout_err good_calls" "0 \<le> bind_err good_calls"
  by (simp_all add: good_calls_def)

lemma resetter_session:
  "playback_resetter_turn h aton os now r = Inr r' \<Longrightarrow> session_id (rc_state r') = session_id (rc_state r)"
  by (auto simp: playback_resetter_turn_def check_state_def Let_def split: if_splits option.splits prod.splits sum.splits)

lemma ctrl_session:
  assumes "ctrl_receiver_turn h now rcv r = Inr r'"
  shows "session_id (rc_state r') = session_id (rc_state r)"
proof -
  have "session_id (snd (register_address_check_change st s)) = session_id s" for st s
    by (simp add: register_address_check_change_def Let_def split: option.split)
  with assms show ?thesis
    by (cases rcv) (auto simp: ctrl_receiver_turn_def ctrl_try_read_def Let_def split: if_splits option.splits elim!: and_then_okE)
qed

text \<open>It hears one station and tunes in to it: a turn that receives the reply, and the resetter's.\<close>

lemma tuning_turns:
  obtains r1 r2 st where
    "ctrl_receiver_turn h 0 (Ctrl_Received (ctrl_sendable (make_reply ''Test radio'' ''239.10.11.12'' 9999))
       \<lparr>sin_port = 1, sin_addr = 2\<rparr>) started = Inr r1"
    "playback_resetter_turn h (\<lambda>_. Some 1) good_calls 0 r1 = Inr r2"
    "active_station (rc_state r2) = Some st" "st_name st = ''Test radio''" "data_address st = ''239.10.11.12''"
    "st_data_port st = 9999" "\<not> dirty (rc_state r2)" "session_id (rc_state r2) = 0" "sock (rc_socket r2) \<noteq> -1"
proof -
  note inv = receiver_turns.reach_good [OF started [of h "receiver_step h (\<lambda>_. Some 1)"]]
  obtain r1 r2 st where turns:
      "ctrl_receiver_turn h 0 (Ctrl_Received (ctrl_sendable (make_reply ''Test radio'' ''239.10.11.12'' 9999))
         \<lparr>sin_port = 1, sin_addr = 2\<rparr>) started = Inr r1"
      "playback_resetter_turn h (\<lambda>_. Some 1) good_calls 0 r1 = Inr r2"
      "active_station (rc_state r2) = Some st" "st_name st = ''Test radio''"
      "data_address st = ''239.10.11.12''" "st_data_port st = 9999" "\<not> dirty (rc_state r2)"
    using reply_tunes [OF inv started_fields sample_reply(1,2), where aton = "\<lambda>_. Some 1" and os = good_calls and h = h
        and port = 9999 and sender = "\<lparr>sin_port = 1, sin_addr = 2\<rparr>" and now = 0 and later = 0]
    by auto
  have session: "session_id (rc_state r2) = 0"
    using ctrl_session [OF turns(1)] resetter_session [OF turns(2)]
    by (simp add: started_def receiver_members_def state_init_def)
  have "receiver_inv unset_station r2" by (rule resetter_inv [OF turns(2) ctrl_inv [OF turns(1) inv]])
  then have "sock (rc_socket r2) \<noteq> -1"
    using turns(3,5,7) by (auto simp: receiver_inv_def tuned_def same_station_def unset_station_def)
  with turns session show thesis by (rule that)
qed

lemma tuned_in:
  "\<exists>r st. reach (receiver_start h unset_station) (receiver_step h (\<lambda>_. Some 1)) r \<and> \<not> dirty (rc_state r)
     \<and> session_id (rc_state r) = 0 \<and> sock (rc_socket r) \<noteq> -1
     \<and> active_station (rc_state r) = Some st \<and> st_name st = ''Test radio''
     \<and> data_address st = ''239.10.11.12'' \<and> st_data_port st = 9999"
proof (rule tuning_turns [of h], goal_cases)
  case (1 r1 r2 st)
  let ?step = "receiver_step h (\<lambda>_. Some 1)"
  have steps: "?step started r1" "?step r1 r2" by (rule step_ctrl [OF 1(1)], rule step_resetter [OF 1(2)])
  have "reach (receiver_start h unset_station) ?step started" by (rule started)
  then have "reach (receiver_start h unset_station) ?step r1" by (rule reach_step) (rule steps(1))
  then have "reach (receiver_start h unset_station) ?step r2" by (rule reach_step) (rule steps(2))
  with 1(3-9) show ?case by blast
qed

subsection \<open>Properties\<close>

text \<open>Whatever turns the threads take, in whatever order and whatever the system returns, the
  components of the receiver stay well-formed: the buffer's slots, the sorted schedule of requests, the
  sorted stations with a selection among them, and the table of clients.\<close>
lemma receiver_stays_sound:
  assumes "reach (receiver_start h unset) (receiver_step h aton) r"
  shows "buf_inv (rc_buffer r) \<and> rexmit_inv (rc_rexmits r) \<and> station_inv (rc_stations r) \<and> ui_inv (rc_ui r)"
  using receiver_turns.reach_good [OF assms] by (simp add: receiver_inv_def)

lemma receiver_stays_sound_example:
  "\<exists>r. reach (receiver_start Big_Endian unset_station) (receiver_step Big_Endian (\<lambda>_. Some 1)) r
     \<and> active_station (rc_state r) \<noteq> None \<and> buf_inv (rc_buffer r) \<and> station_inv (rc_stations r)"
proof -
  obtain r st where r: "reach (receiver_start Big_Endian unset_station) (receiver_step Big_Endian (\<lambda>_. Some 1)) r"
      "active_station (rc_state r) = Some st"
    using tuned_in by blast
  with receiver_stays_sound [OF r(1)] show ?thesis by auto
qed

text \<open>In every reachable state in which nothing is marked as changed, packets are read from the
  station that is to be played: the socket's station has its name, addresses and ports, and the socket
  is open (a station that equals the unset members of the socket apart).\<close>
lemma listens_to_active_station:
  assumes "reach (receiver_start h unset) (receiver_step h aton) r"
    and "\<not> dirty (rc_state r)" "active_station (rc_state r) = Some st"
  shows "same_station st (connected_station (rc_socket r)) \<and> (0 \<le> sock (rc_socket r) \<or> same_station st unset)"
  using receiver_turns.reach_good [OF assms(1)] assms(2,3) by (auto simp: receiver_inv_def tuned_def)

lemma listens_to_active_station_example:
  "\<exists>r. reach (receiver_start Big_Endian unset_station) (receiver_step Big_Endian (\<lambda>_. Some 1)) r
     \<and> data_address (connected_station (rc_socket r)) = ''239.10.11.12'' \<and> 0 \<le> sock (rc_socket r)"
proof -
  obtain r st where r: "reach (receiver_start Big_Endian unset_station) (receiver_step Big_Endian (\<lambda>_. Some 1)) r"
      "\<not> dirty (rc_state r)" "active_station (rc_state r) = Some st"
      "st_name st = ''Test radio''" "data_address st = ''239.10.11.12''"
    using tuned_in by blast
  from listens_to_active_station [OF r(1-3)] r(1,4,5) show ?thesis
    by (auto simp: same_station_def unset_station_def Let_def)
qed

text \<open>A receiver that knows no station is tuned in by the first reply it receives: after the turn
  that receives the reply and the resetter's next turn, if the system lets the socket be connected, it
  plays the station with the name, address and port that the reply was made of.\<close>
lemma reply_tunes_in:
  assumes "reach (receiver_start h unset) (receiver_step h aton) r"
    and "stations (rc_stations r) = []" "selected_station (rc_stations r) = End"
    and "word_of (\<lambda>c. \<not> is_space c) addr" "well_spaced name" "aton addr \<noteq> None"
    and "0 \<le> new_fd os" "0 \<le> membership_err os" "0 \<le> timeout_err os" "0 \<le> bind_err os"
  shows "\<exists>r1 r2 st. ctrl_receiver_turn h now (Ctrl_Received (ctrl_sendable (make_reply name addr port)) sender) r = Inr r1
    \<and> playback_resetter_turn h aton os later r1 = Inr r2
    \<and> active_station (rc_state r2) = Some st \<and> st_name st = name \<and> data_address st = addr \<and> st_data_port st = port
    \<and> \<not> dirty (rc_state r2)"
  by (rule reply_tunes [where aton = aton, OF receiver_turns.reach_good [OF assms(1)] assms(2-)])

lemma reply_tunes_in_example:
  "\<exists>r1 r2 st. ctrl_receiver_turn Big_Endian 0
        (Ctrl_Received (ctrl_sendable (make_reply ''Test radio'' ''239.10.11.12'' 9999)) \<lparr>sin_port = 1, sin_addr = 2\<rparr>) started = Inr r1
    \<and> playback_resetter_turn Big_Endian (\<lambda>_. Some 1) good_calls 0 r1 = Inr r2
    \<and> active_station (rc_state r2) = Some st \<and> st_name st = ''Test radio'' \<and> \<not> dirty (rc_state r2)"
  using reply_tunes_in [OF started started_fields sample_reply(1,2), where aton = "\<lambda>_. Some 1" and os = good_calls
      and h = Big_Endian and port = 9999 and sender = "\<lparr>sin_port = 1, sin_addr = 2\<rparr>" and now = 0 and later = 0]
  by auto


text \<open>A client connects before any station is known.\<close>

definition quiet_ui :: ui_calls where
  "quiet_ui =
     \<lparr>poll_err = 0, ready = [False, False, False], accepted = -1, write_count = (\<lambda>fd t. int (length t)),
      read_result = (\<lambda>fd. None), ui_error = []\<rparr>"


end
