(* ===== verification/Programs.thy ===== *)
theory Programs
  imports Receiver_Run Transmitter
begin

text \<open>
  \<open>src/sender.cpp\<close> and \<open>src/receiver.cpp\<close>: the two programs, from their command lines to the objects
  that they run. \<open>boost::program_options\<close> is a parameter, a function from the table of options and the
  arguments to an error or to the values of the options.
\<close>

subsection \<open>Options\<close>

datatype option_value = Text_Value string | Port_Value in_port | Size_Value u64

datatype option_type = Text_Type | Port_Type | Size_Type

fun type_of_value :: "option_value \<Rightarrow> option_type" where
  "type_of_value (Text_Value s) = Text_Type"
| "type_of_value (Port_Value p) = Port_Type"
| "type_of_value (Size_Value n) = Size_Type"

text \<open>An option: its name as declared, its type, its default (none if it is required), its description.\<close>

record program_option =
  opt_name :: string
  opt_type :: option_type
  opt_default :: "option_value option"
  opt_help :: string

definition with_default :: "string \<Rightarrow> option_value \<Rightarrow> string \<Rightarrow> program_option" where
  "with_default name v help =
     \<lparr>opt_name = name, opt_type = type_of_value v, opt_default = Some v, opt_help = help\<rparr>"

definition required_option :: "string \<Rightarrow> option_type \<Rightarrow> string \<Rightarrow> program_option" where
  "required_option name ty help = \<lparr>opt_name = name, opt_type = ty, opt_default = None, opt_help = help\<rparr>"

definition sender_options :: "program_option list" where
  "sender_options =
    [required_option '',a'' Text_Type ''MCAST_ADDR'',
     with_default '',P'' (Port_Value 25830) ''DATA_PORT'',
     with_default '',C'' (Port_Value 35830) ''CTRL_PORT'',
     with_default '',p'' (Size_Value 512) ''PSIZE'',
     with_default '',f'' (Size_Value 131072) ''FSIZE'',
     with_default '',R'' (Size_Value 250) ''RTIME'',
     with_default '',n'' (Text_Value ''Nienazwany_nadajnik'') ''NAZWA'']"

definition receiver_options :: "program_option list" where
  "receiver_options =
    [with_default '',d'' (Text_Value ''255.255.255.255'') ''DISCOVER_ADDR'',
     with_default '',C'' (Port_Value 35830) ''CTRL_PORT'',
     with_default '',U'' (Port_Value 15830) ''UI_PORT'',
     with_default '',b'' (Size_Value 65536) ''BSIZE'',
     with_default '',R'' (Size_Value 250) ''RTIME'',
     with_default '',n'' (Text_Value []) ''PREFERRED_STATION'']"

text \<open>The values by key, and reading one of them as a type (\<open>None\<close>: the value is missing or has another
  type, and \<open>as\<close> throws \<open>bad_any_cast\<close>).\<close>

type_synonym variables_map = "string \<Rightarrow> option_value option"

definition as_text :: "variables_map \<Rightarrow> string \<Rightarrow> string option" where
  "as_text vm key = (case vm key of Some (Text_Value s) \<Rightarrow> Some s | _ \<Rightarrow> None)"

definition as_port :: "variables_map \<Rightarrow> string \<Rightarrow> in_port option" where
  "as_port vm key = (case vm key of Some (Port_Value p) \<Rightarrow> Some p | _ \<Rightarrow> None)"

definition as_size :: "variables_map \<Rightarrow> string \<Rightarrow> u64 option" where
  "as_size vm key = (case vm key of Some (Size_Value n) \<Rightarrow> Some n | _ \<Rightarrow> None)"

type_synonym options_parser = "program_option list \<Rightarrow> string list \<Rightarrow> string + variables_map"

subsection \<open>The programs\<close>

text \<open>A program exits with a code and a message before it runs, is aborted by an exception that \<open>main\<close>
  does not catch, or starts the threads of an object.\<close>

datatype 'p outcome = Exits nat string | Bad_Any_Cast | Aborts cpp_error | Runs 'p

definition sender_main ::
  "options_parser \<Rightarrow> string list \<Rightarrow> u64 \<Rightarrow> transmitter outcome" where
  "sender_main parse args now =
     (case parse sender_options args of
        Inl e \<Rightarrow> Exits 1 e
      | Inr vm \<Rightarrow>
          (case (as_size vm ''-p'', as_size vm ''-f'', as_size vm ''-R'', as_text vm ''-a'',
                 as_port vm ''-P'', as_port vm ''-C'', as_text vm ''-n'') of
             (Some psize, Some fsize, Some rt, Some addr, Some data_port, Some cport, Some name) \<Rightarrow>
               (case transmitter_init psize fsize rt addr data_port cport name now of
                  Inl e \<Rightarrow> Aborts e
                | Inr t \<Rightarrow> Runs t)
           | _ \<Rightarrow> Bad_Any_Cast))"

text \<open>What the receiver's constructor meets: the results of the calls, the number of entries in the table of
  clients, the clock, and the contents of members that no constructor sets.\<close>

record receiver_setup =
  set_host :: host
  set_ctrl :: ctrl_calls
  set_max_clients :: nat
  set_ui :: ui_setup
  set_now :: time_point
  set_elements :: u64
  set_package :: u64
  set_station :: station

definition receiver_main :: "options_parser \<Rightarrow> string list \<Rightarrow> receiver_setup \<Rightarrow> receiver outcome" where
  "receiver_main parse args os =
     (case parse receiver_options args of
        Inl e \<Rightarrow> Exits 1 e
      | Inr vm \<Rightarrow>
          (case as_text vm ''-n'' of
             None \<Rightarrow> Bad_Any_Cast
           | Some ps_input \<Rightarrow>
               let preferred_station = (if ps_input = [] then None else Some ps_input)
               in (case (as_text vm ''-d'', as_port vm ''-C'', as_port vm ''-U'', as_size vm ''-b'',
                         as_size vm ''-R'') of
                     (Some discover, Some cport, Some uport, Some bsize, Some rtime_arg) \<Rightarrow>
                       (case receiver_init (set_host os) (set_ctrl os) (set_max_clients os) (set_ui os)
                               discover cport uport bsize (unat rtime_arg) preferred_station (set_now os)
                               (set_elements os) (set_package os) (set_station os) of
                          Inl e \<Rightarrow> (case what e of Some text \<Rightarrow> Exits 1 text | None \<Rightarrow> Aborts e)
                        | Inr r \<Rightarrow> Runs r)
                   | _ \<Rightarrow> Bad_Any_Cast)))"

subsection \<open>What is relied on\<close>

text \<open>An option that is declared as \<open>,x\<close> has the key \<open>-x\<close>.\<close>

definition option_key :: "string \<Rightarrow> string" where
  "option_key name = (case name of CHR '','' # short \<Rightarrow> CHR ''-'' # short | _ \<Rightarrow> name)"

text \<open>When the parser accepts the arguments, every option of the table has a value of its type.\<close>

definition values_ok :: "program_option list \<Rightarrow> variables_map \<Rightarrow> bool" where
  "values_ok opts vm \<longleftrightarrow>
     list_all (\<lambda>o1. map_option type_of_value (vm (option_key (opt_name o1))) = Some (opt_type o1)) opts"

lemma as_value:
  "(\<exists>v. vm key = Some v \<and> type_of_value v = Text_Type) \<longleftrightarrow> (\<exists>s. as_text vm key = Some s)"
  "(\<exists>v. vm key = Some v \<and> type_of_value v = Port_Type) \<longleftrightarrow> (\<exists>p. as_port vm key = Some p)"
  "(\<exists>v. vm key = Some v \<and> type_of_value v = Size_Type) \<longleftrightarrow> (\<exists>n. as_size vm key = Some n)"
  by (auto simp: as_text_def as_port_def as_size_def split: option.splits option_value.splits)

lemma sender_values:
  "values_ok sender_options vm \<longleftrightarrow>
     (\<exists>psize fsize rt addr data_port cport name. as_size vm ''-p'' = Some psize
        \<and> as_size vm ''-f'' = Some fsize \<and> as_size vm ''-R'' = Some rt \<and> as_text vm ''-a'' = Some addr
        \<and> as_port vm ''-P'' = Some data_port \<and> as_port vm ''-C'' = Some cport \<and> as_text vm ''-n'' = Some name)"
  by (simp add: values_ok_def sender_options_def with_default_def required_option_def option_key_def as_value)
    (rule iffI; elim conjE; intro conjI; assumption)

lemma receiver_values:
  "values_ok receiver_options vm \<longleftrightarrow>
     (\<exists>discover cport uport bsize rtime_arg name. as_text vm ''-d'' = Some discover
        \<and> as_port vm ''-C'' = Some cport \<and> as_port vm ''-U'' = Some uport \<and> as_size vm ''-b'' = Some bsize
        \<and> as_size vm ''-R'' = Some rtime_arg \<and> as_text vm ''-n'' = Some name)"
  by (simp add: values_ok_def receiver_options_def with_default_def option_key_def as_value)

text \<open>The constructor of the receiver can only fail with a socket's exception.\<close>

lemma receiver_init_error:
  assumes "receiver_init h ctrl_os n ui_os addr port uport bsize secs preferred now elements package unset = Inl e"
  shows "e = Socket_Exception (ctl_error ctrl_os) \<or> e = Socket_Exception (ui_setup_error ui_os)"
proof -
  obtain res ctl where c: "ctrl_socket_init h port socket_timeout_in_ms True False ctrl_os = (res, ctl)" by fastforce
  show ?thesis
  proof (cases res)
    case (Inl e')
    then have "e' = Socket_Exception (ctl_error ctrl_os)"
      using c by (auto simp: ctrl_socket_init_def close_and_throw_def Let_def split: if_splits)
    with c Inl assms show ?thesis by (simp add: receiver_init_def)
  next
    case (Inr u)
    with c assms show ?thesis by (auto simp: receiver_init_def ui_init_def split: if_splits)
  qed
qed

text \<open>A division by zero ends the program with a signal, like an exception that is not caught.\<close>

lemma sender_main_cases:
  assumes "\<And>vm. parse sender_options args = Inr vm \<Longrightarrow> values_ok sender_options vm"
  shows "case sender_main parse args now of
      Exits code text \<Rightarrow> code = 1 \<and> parse sender_options args = Inl text
    | Bad_Any_Cast \<Rightarrow> False
    | Aborts e \<Rightarrow> e = Undefined Division_By_Zero
        \<and> (\<exists>vm. parse sender_options args = Inr vm \<and> as_size vm ''-p'' = Some 0)
    | Runs t \<Rightarrow> \<exists>vm. parse sender_options args = Inr vm \<and> as_size vm ''-p'' \<noteq> Some 0"
proof (cases "parse sender_options args")
  case (Inr vm)
  from assms [OF this] show ?thesis
    by (auto simp: sender_values sender_main_def Inr transmitter_init_def Let_def)
qed (simp add: sender_main_def)

subsection \<open>A parser\<close>

text \<open>A parser that keeps the promise, for no or one option with a text.\<close>

definition sample_parser :: options_parser where
  "sample_parser opts args =
     (let vm = (\<lambda>key.
            case List.find (\<lambda>o1. option_key (opt_name o1) = key) opts of
              None \<Rightarrow> None
            | Some o1 \<Rightarrow>
                (case args of
                   [k, v] \<Rightarrow> if k = key \<and> opt_type o1 = Text_Type then Some (Text_Value v) else opt_default o1
                 | _ \<Rightarrow> opt_default o1))
      in if values_ok opts vm then Inr vm else Inl ''the option is required but missing'')"

lemma sample_parser_ok: "sample_parser opts args = Inr vm \<Longrightarrow> values_ok opts vm"
  by (simp add: sample_parser_def Let_def split: if_splits)

lemmas parser_simps =
  sample_parser_def values_ok_def with_default_def required_option_def option_key_def as_text_def
  as_port_def as_size_def sender_options_def receiver_options_def

lemma sample_command_lines:
  "\<exists>vm. sample_parser receiver_options [] = Inr vm \<and> as_size vm ''-R'' = Some 250"
  "\<exists>vm. sample_parser sender_options [''-a'', ''239.10.11.12''] = Inr vm \<and> as_size vm ''-p'' = Some 512
     \<and> as_size vm ''-f'' = Some 131072"
  "sample_parser sender_options [] = Inl ''the option is required but missing''"
  by (simp_all add: parser_simps)

subsection \<open>Properties\<close>

text \<open>C24: the receiver's program, with a parser that gives each option a value of its type, never ends by
  an exception that \<open>main\<close> does not catch before its threads start: it exits with code 1 and the message of
  the parser or of the socket that could not be set up, or it runs a receiver in its starting state.\<close>
theorem receiver_main_outcome:
  assumes "\<And>vm. parse receiver_options args = Inr vm \<Longrightarrow> values_ok receiver_options vm"
    and "0 < set_max_clients os"
  shows "case receiver_main parse args os of
      Exits code text \<Rightarrow> code = 1
        \<and> (parse receiver_options args = Inl text
           \<or> (\<exists>vm. parse receiver_options args = Inr vm) \<and> text \<in> {ctl_error (set_ctrl os), ui_setup_error (set_ui os)})
    | Runs r \<Rightarrow> receiver_start (set_host os) (set_station os) r
    | _ \<Rightarrow> False"
proof (cases "parse receiver_options args")
  case (Inr vm)
  from assms(1) [OF this] obtain d cport uport bsize rt name where vm: "as_text vm ''-d'' = Some d"
      "as_port vm ''-C'' = Some cport" "as_port vm ''-U'' = Some uport" "as_size vm ''-b'' = Some bsize"
      "as_size vm ''-R'' = Some rt" "as_text vm ''-n'' = Some name"
    unfolding receiver_values by blast
  let ?init = "receiver_init (set_host os) (set_ctrl os) (set_max_clients os) (set_ui os) d cport uport bsize
    (unat rt) (if name = [] then None else Some name) (set_now os) (set_elements os) (set_package os) (set_station os)"
  have main: "receiver_main parse args os =
      (case ?init of Inl e \<Rightarrow> (case what e of Some text \<Rightarrow> Exits 1 text | None \<Rightarrow> Aborts e) | Inr r \<Rightarrow> Runs r)"
    by (simp add: receiver_main_def Inr vm Let_def)
  show ?thesis
  proof (cases ?init)
    case (Inl e)
    from receiver_init_error [OF this] Inr show ?thesis unfolding main Inl by auto
  next
    case (Inr r)
    with assms(2) have "receiver_start (set_host os) (set_station os) r" unfolding receiver_start_def by blast
    then show ?thesis by (simp add: main Inr)
  qed
qed (simp add: receiver_main_def)

text \<open>A host that lets the receiver start, and one whose port for the menu is taken.\<close>

definition sample_setup :: "int \<Rightarrow> receiver_setup" where
  "sample_setup bind_result =
     \<lparr>set_host = Little_Endian,
      set_ctrl = \<lparr>ctl_new_fd = 3, ctl_reuse_err = 0, ctl_timeout_err = 0, ctl_broadcast_err = 0, ctl_ttl_err = 0,
                  ctl_bind_err = 0, ctl_error = []\<rparr>,
      set_max_clients = 3,
      set_ui = \<lparr>ui_new_fd = 4, ui_reuse_err = 0, ui_bind_err = bind_result, ui_listen_err = 0,
                ui_setup_error = ''Address already in use''\<rparr>,
      set_now = 0, set_elements = 0, set_package = 0, set_station = unset_station\<rparr>"

lemmas setup_simps =
  sample_setup_def receiver_main_def receiver_init_def ctrl_socket_init_def ui_init_def Let_def

lemma sample_receiver:
  "sample_parser receiver_options args = Inr vm \<Longrightarrow>
     (\<exists>r. receiver_main sample_parser args (sample_setup 0) = Runs r)
     \<and> receiver_main sample_parser args (sample_setup (-1)) = Exits 1 ''Address already in use''"
  using sample_parser_ok [of receiver_options args vm] by (auto simp: receiver_values setup_simps)

theorem receiver_main_outcome_witness:
  "(\<exists>r. receiver_main sample_parser [] (sample_setup 0) = Runs r \<and> receiver_start Little_Endian unset_station r)
   \<and> receiver_main sample_parser [] (sample_setup (-1)) = Exits 1 ''Address already in use''"
proof -
  obtain vm where vm: "sample_parser receiver_options [] = Inr vm" using sample_command_lines(1) by blast
  then obtain r where "receiver_main sample_parser [] (sample_setup 0) = Runs r" using sample_receiver by blast
  with receiver_main_outcome [where parse = sample_parser and args = "[]" and os = "sample_setup 0", OF sample_parser_ok]
    sample_receiver [OF vm] show ?thesis
    by (simp add: sample_setup_def)
qed



text \<open>With the default sizes of packets and of the history, the history for retransmission, which is
  for 131072 bytes, never holds more than the newest packet, as the size of a packet is a multiple of the
  number of packets that it is for.\<close>
lemma sender_main_default_cache:
  assumes "parse sender_options args = Inr vm" "sender_main parse args now = Runs t"
    and "as_size vm ''-p'' = Some 512" "as_size vm ''-f'' = Some 131072"
    and "512 \<le> length inp" "length inp < 2 ^ 64"
  shows "cache_run (packets (PSIZE t) inp) (sent_msgs t) =
    Inr \<lparr>container = [last (packets (PSIZE t) inp)], container_size = 256\<rparr>"
proof -
  from assms(1-4) obtain rt addr dport cport name where
      "transmitter_init 512 131072 rt addr dport cport name now = Inr t"
    by (auto simp: sender_main_def split: option.splits sum.splits)
  then have t: "PSIZE t = 512" "sent_msgs t = cache_init 256"
    by (auto simp: transmitter_init_def Let_def)
  have "numbered 512 (packets 512 inp)" by (rule packets_numbered [OF assms(6)])
  moreover have "packets 512 inp \<noteq> []" by (simp flip: length_0_conv)
  ultimately show ?thesis using cache_run_single [of 512 "packets 512 inp" 256] by (simp add: t)
qed

lemma sender_main_default_cache_example:
  "\<exists>t. sender_main sample_parser [''-a'', ''239.10.11.12''] 7 = Runs t
    \<and> cache_run (packets (PSIZE t) (replicate 1024 1)) (sent_msgs t) =
        Inr \<lparr>container = [last (packets (PSIZE t) (replicate 1024 1))], container_size = 256\<rparr>"
proof -
  obtain vm where vm: "sample_parser sender_options [''-a'', ''239.10.11.12''] = Inr vm" "as_size vm ''-p'' = Some 512"
      "as_size vm ''-f'' = Some 131072"
    using sample_command_lines(2) by blast
  from sender_main_cases [where parse = sample_parser and args = "[''-a'', ''239.10.11.12'']" and now = 7,
      OF sample_parser_ok [where opts = sender_options and args = "[''-a'', ''239.10.11.12'']"]] vm
  obtain t where t: "sender_main sample_parser [''-a'', ''239.10.11.12''] 7 = Runs t"
    by (cases "sender_main sample_parser [''-a'', ''239.10.11.12''] 7") auto
  show ?thesis by (rule exI) (rule conjI [OF t sender_main_default_cache [OF vm(1) t vm(2,3)]], simp_all)
qed

end
