(* ===== verification/Sender_Socket.thy ===== *)
theory Sender_Socket
  imports Addresses Retry "HOL-Library.Sublist"
begin

text \<open>
  \<open>src/sender/data_socket.hpp\<close>: the socket that the sender multicasts packets with. The results of the
  system's calls are arguments. The record keeps two things besides the class's members: the
  descriptors that have been opened and not closed, and the datagrams handed to the system.
\<close>

record tx_socket =
  remote_dotted_address :: string
  remote_port :: in_port
  connected :: bool
  tx_sock :: int
  peer :: "sockaddr_in option"
  open_fds :: "int list"
  transmitted :: "msg_t list"

text \<open>What the calls of one attempt return: the new descriptor, the codes of setting the broadcast flag
  and the time to live and of connecting, the length that \<open>write\<close> reports, the text of an error.\<close>

record tx_calls =
  tx_new_fd :: int
  broadcast_err :: int
  ttl_err :: int
  connect_err :: int
  write_len :: int
  tx_error :: string

definition tx_socket_init :: "string \<Rightarrow> in_port \<Rightarrow> tx_socket" where
  "tx_socket_init addr port =
     \<lparr>remote_dotted_address = addr, remote_port = port, connected = False, tx_sock = -1, peer = None,
      open_fds = [], transmitted = []\<rparr>"

definition open_connection ::
  "host \<Rightarrow> (string \<Rightarrow> u32 option) \<Rightarrow> tx_calls \<Rightarrow> tx_socket \<Rightarrow> unit result \<times> tx_socket" where
  "open_connection h aton os s =
     (if connected s then (Inr (), s)
      else
        let s1 = s\<lparr>tx_sock := tx_new_fd os\<rparr>
        in if tx_sock s1 < 0 then (Inl (Socket_Exception (tx_error os)), s1)
           else
             let s2 = s1\<lparr>open_fds := tx_sock s1 # open_fds s1\<rparr>
             in if broadcast_err os < 0 then (Inl (Socket_Exception (tx_error os)), s2)
                else if ttl_err os < 0 then (Inl (Socket_Exception (tx_error os)), s2)
                else
                  (case aton (remote_dotted_address s2) of
                     None \<Rightarrow> (Inl (Socket_Exception ''Invalid address''), s2)
                   | Some a \<Rightarrow>
                       if connect_err os < 0 then (Inl (Socket_Exception (tx_error os)), s2)
                       else (Inr (), s2\<lparr>peer := Some \<lparr>sin_port = htons h (remote_port s2), sin_addr = a\<rparr>,
                                       connected := True\<rparr>)))"

text \<open>What \<open>write\<close> takes of a packet is on the wire, also when it is not all of it.\<close>

definition write_packet :: "int \<Rightarrow> msg_t \<Rightarrow> tx_socket \<Rightarrow> tx_socket" where
  "write_packet len raw s = (if len < 0 then s else s\<lparr>transmitted := transmitted s @ [take (nat len) raw]\<rparr>)"

definition transmit ::
  "host \<Rightarrow> (string \<Rightarrow> u32 option) \<Rightarrow> msg_t \<Rightarrow> tx_calls \<Rightarrow> tx_socket \<Rightarrow> unit result \<times> tx_socket" where
  "transmit h aton sendable_msg os s =
     (case (if connected s then (Inr (), s) else open_connection h aton os s) of
        (Inl e, s1) \<Rightarrow> (Inl e, s1)
      | (Inr _, s1) \<Rightarrow>
          let s2 = write_packet (write_len os) sendable_msg s1
          in if write_len os \<noteq> int (length sendable_msg) then (Inl (Socket_Exception (tx_error os)), s2)
             else (Inr (), s2))"

definition transmit_force ::
  "host \<Rightarrow> (string \<Rightarrow> u32 option) \<Rightarrow> msg_t \<Rightarrow> (nat \<Rightarrow> tx_calls) \<Rightarrow> tx_socket \<Rightarrow> (unit result \<times> tx_socket) option" where
  "transmit_force h aton sendable_msg os s = retry (transmit h aton sendable_msg) os s"

text \<open>The destructor does no more than \<open>close_connection\<close>, which leaves \<open>connected\<close> as it is.\<close>

definition close_connection :: "tx_socket \<Rightarrow> tx_socket" where
  "close_connection s = (if \<not> connected s then s else s\<lparr>open_fds := remove1 (tx_sock s) (open_fds s)\<rparr>)"

subsection \<open>What an attempt does\<close>

lemma open_connection_spec:
  "open_connection h aton os s = (r, s') \<Longrightarrow>
     transmitted s' = transmitted s \<and> remote_dotted_address s' = remote_dotted_address s
     \<and> (\<exists>e. r = Inl (Socket_Exception e) \<and> connected s' = connected s \<or> r = Inr () \<and> connected s')"
  by (auto simp: open_connection_def Let_def split: if_splits option.splits)

text \<open>An attempt fails to open the connection, or goes on to write the packet on an open one.\<close>

lemma transmit_cases:
  obtains (closed) e s1 where "transmit h aton raw os s = (Inl (Socket_Exception e), s1)"
      "transmitted s1 = transmitted s" "remote_dotted_address s1 = remote_dotted_address s"
  | (opened) s1 where "transmit h aton raw os s =
        (if write_len os \<noteq> int (length raw)
         then (Inl (Socket_Exception (tx_error os)), write_packet (write_len os) raw s1)
         else (Inr (), write_packet (write_len os) raw s1))"
      "transmitted s1 = transmitted s" "remote_dotted_address s1 = remote_dotted_address s" "connected s1"
proof -
  obtain r s1 where s1: "(if connected s then (Inr (), s) else open_connection h aton os s) = (r, s1)"
    by fastforce
  then have "transmitted s1 = transmitted s \<and> remote_dotted_address s1 = remote_dotted_address s
      \<and> (\<exists>e. r = Inl (Socket_Exception e) \<or> r = Inr () \<and> connected s1)"
    using open_connection_spec [of h aton os s r s1] by (auto split: if_splits)
  then show thesis using s1 closed opened unfolding transmit_def by (auto simp: Let_def)
qed

lemma write_packet_fields [simp]:
  "connected (write_packet n raw s) = connected s"
  "remote_dotted_address (write_packet n raw s) = remote_dotted_address s"
  "transmitted (write_packet n raw s) = transmitted s @ (if n < 0 then [] else [take (nat n) raw])"
  by (simp_all add: write_packet_def)

lemma transmit_ok:
  "transmit h aton raw os s = (Inr (), s') \<Longrightarrow> transmitted s' = transmitted s @ [raw] \<and> connected s'"
  by (cases rule: transmit_cases [of h aton raw os s]) (auto split: if_splits)

lemma transmit_error:
  assumes "transmit h aton raw os s = (Inl e, s')" "write_len os \<le> int (length raw)"
  shows "socket_error (Inl e)
    \<and> (transmitted s' = transmitted s \<or> (\<exists>p. strict_prefix p raw \<and> transmitted s' = transmitted s @ [p]))"
proof -
  have part: "strict_prefix (take (nat (write_len os)) raw) raw"
    if "write_len os \<noteq> int (length raw)" "\<not> write_len os < 0"
  proof -
    have "length (take (nat (write_len os)) raw) \<noteq> length raw" using assms(2) that by auto
    then show ?thesis by (metis strict_prefix_def take_is_prefix)
  qed
  show ?thesis
  proof (cases rule: transmit_cases [of h aton raw os s])
    case (closed e' s1)
    with assms(1) show ?thesis by (auto simp: socket_error_def)
  next
    case (opened s1)
    with assms(1) part show ?thesis by (auto simp: socket_error_def split: if_splits)
  qed
qed

lemma transmit_address: "remote_dotted_address (snd (transmit h aton raw os s)) = remote_dotted_address s"
  by (cases rule: transmit_cases [of h aton raw os s]) auto

interpretation tx_sender: datagram_sender
    "transmit h aton raw" "\<lambda>os. write_len os \<le> int (length raw)"
    "\<lambda>s. aton (remote_dotted_address s) \<noteq> None" transmitted raw "\<lambda>p. strict_prefix p raw"
  for h aton raw
proof unfold_locales
  fix s s' os
  show "aton (remote_dotted_address s) \<noteq> None \<Longrightarrow> aton (remote_dotted_address (snd (transmit h aton raw os s))) \<noteq> None"
    by (simp add: transmit_address)
  show "transmit h aton raw os s = (Inr (), s') \<Longrightarrow> transmitted s' = transmitted s @ [raw]"
    by (simp add: transmit_ok)
  fix e
  show "write_len os \<le> int (length raw) \<Longrightarrow> transmit h aton raw os s = (Inl e, s') \<Longrightarrow> socket_error (Inl e)
      \<and> (transmitted s' = transmitted s \<or> (\<exists>p. strict_prefix p raw \<and> transmitted s' = transmitted s @ [p]))"
    by (rule transmit_error)
qed

text \<open>The calls of an attempt all succeed.\<close>

definition calls_succeed :: "msg_t \<Rightarrow> tx_calls \<Rightarrow> bool" where
  "calls_succeed raw os \<longleftrightarrow>
     0 \<le> tx_new_fd os \<and> 0 \<le> broadcast_err os \<and> 0 \<le> ttl_err os \<and> 0 \<le> connect_err os
     \<and> write_len os = int (length raw)"

lemma calls_succeed_transmit:
  "calls_succeed raw os \<Longrightarrow> aton (remote_dotted_address s) \<noteq> None \<Longrightarrow> fst (transmit h aton raw os s) = Inr ()"
  by (auto simp: transmit_def open_connection_def calls_succeed_def Let_def)

subsection \<open>Properties\<close>

text \<open>C8: sending a packet ends as soon as the system lets one attempt succeed, whatever the attempts
  before it ran into, provided the address can be read; the packet is then the last thing sent, and
  was sent whole only once (before it there may be parts of it).\<close>
theorem transmit_force_sends:
  assumes "aton (remote_dotted_address s) \<noteq> None" "\<And>i. write_len (os i) \<le> int (length raw)"
    and "calls_succeed raw (os n)"
  shows "\<exists>s' ps. transmit_force h aton raw os s = Some (Inr (), s') \<and> connected s'
    \<and> transmitted s' = transmitted s @ ps @ [raw] \<and> list_all (\<lambda>p. strict_prefix p raw) ps"
proof -
  obtain s' ps where s': "retry (transmit h aton raw) os s = Some (Inr (), s')"
      "transmitted s' = transmitted s @ ps @ [raw]" "list_all (\<lambda>p. strict_prefix p raw) ps"
    using tx_sender.retry_returns [of os raw aton s h n] assms calls_succeed_transmit by blast
  moreover from s'(1) have "connected s'" by (auto simp: retry_iff dest!: sym [of "(_, s')"] transmit_ok)
  ultimately show ?thesis by (auto simp: transmit_force_def)
qed

text \<open>The first attempt cannot connect, the second sends two bytes of three, the third succeeds.\<close>

definition sample_attempts :: "nat \<Rightarrow> tx_calls" where
  "sample_attempts i =
     \<lparr>tx_new_fd = 3 + int i, broadcast_err = 0, ttl_err = 0, connect_err = (if i = 0 then -1 else 0),
      write_len = (if i = 1 then 2 else 3), tx_error = ''Network is unreachable''\<rparr>"

theorem transmit_force_sends_witness:
  "\<exists>s' ps. transmit_force Little_Endian (\<lambda>_. Some 1) [7, 8, 9] sample_attempts (tx_socket_init ''239.10.11.12'' 25830)
      = Some (Inr (), s') \<and> connected s' \<and> transmitted s' = ps @ [[7, 8, 9]] \<and> list_all (\<lambda>p. strict_prefix p [7, 8, 9]) ps"
  using transmit_force_sends [of "\<lambda>_. Some 1" "tx_socket_init ''239.10.11.12'' 25830" sample_attempts "[7, 8, 9]" 2 Little_Endian]
  by (simp add: sample_attempts_def calls_succeed_def tx_socket_init_def)

text \<open>C29: with an address that cannot be read, the loop never ends, whatever the system does: every
  packet of a sender started with it stops the sender's thread for good, without a message. Each turn
  of the loop opens a new descriptor and none is closed, not even by the destructor.\<close>
theorem invalid_address_never_ends:
  assumes "aton (remote_dotted_address s) = None" "\<not> connected s"
  shows "transmit_force h aton raw os s = None
    \<and> ((\<forall>i. 0 \<le> tx_new_fd (os i) \<and> 0 \<le> broadcast_err (os i) \<and> 0 \<le> ttl_err (os i)) \<longrightarrow>
       (\<forall>n. length (open_fds (close_connection (attempts (transmit h aton raw) os n s))) = length (open_fds s) + n))"
proof -
  let ?P = "\<lambda>s. aton (remote_dotted_address s) = None \<and> \<not> connected s"
  have one: "socket_error (fst (transmit h aton raw os' s)) \<and> ?P (snd (transmit h aton raw os' s))
      \<and> (0 \<le> tx_new_fd os' \<longrightarrow> 0 \<le> broadcast_err os' \<longrightarrow> 0 \<le> ttl_err os' \<longrightarrow>
         length (open_fds (snd (transmit h aton raw os' s))) = Suc (length (open_fds s)))" if "?P s" for s os'
    using that by (simp add: transmit_def open_connection_def Let_def socket_error_def)
  have P: "?P (attempts (transmit h aton raw) os n s)" for n
    by (induction n) (use assms one in \<open>simp_all add: attempts_Suc del: attempts.simps(2)\<close>)
  have "fails_at (transmit h aton raw) os s i" for i
    using one [OF P] by (simp add: fails_at_def)
  moreover have "length (open_fds (attempts (transmit h aton raw) os n s)) = length (open_fds s) + n"
    if "\<forall>i. 0 \<le> tx_new_fd (os i) \<and> 0 \<le> broadcast_err (os i) \<and> 0 \<le> ttl_err (os i)" for n
    by (induction n) (use that one [OF P] in \<open>simp_all add: attempts_Suc del: attempts.simps(2)\<close>)
  ultimately show ?thesis
    using P by (simp add: transmit_force_def retry_None_iff close_connection_def)
qed

theorem invalid_address_never_ends_witness:
  "transmit_force Little_Endian (\<lambda>a. if a = ''localhost'' then None else Some 1) [7, 8, 9] sample_attempts
     (tx_socket_init ''localhost'' 25830) = None
   \<and> length (open_fds (close_connection (attempts
        (transmit Little_Endian (\<lambda>a. if a = ''localhost'' then None else Some 1) [7, 8, 9]) sample_attempts 5
        (tx_socket_init ''localhost'' 25830)))) = 5"
  using invalid_address_never_ends [of "\<lambda>a. if a = ''localhost'' then None else Some 1"
      "tx_socket_init ''localhost'' 25830" Little_Endian "[7, 8, 9]" sample_attempts]
  by (simp add: tx_socket_init_def sample_attempts_def del: attempts.simps)

end
