(* ===== verification/Sender_Net.thy ===== *)
theory Sender_Net
  imports Sender_Socket Transmitter
begin

text \<open>
  The sender with its sockets. \<open>Transmitter\<close> takes a socket as the list of packets handed to it; here the
  thread that sends and the thread that retransmits each have a socket of \<open>Sender_Socket\<close>, with the
  failures of the system, and the transition system of \<open>Transmitter\<close> is what this one refines.
\<close>

subsection \<open>Steps\<close>

text \<open>The packets of a turn, forced out one after the other. \<open>None\<close> is a turn that does not end.\<close>

fun transmit_all ::
  "host \<Rightarrow> (string \<Rightarrow> u32 option) \<Rightarrow> msg_t list \<Rightarrow> (nat \<Rightarrow> nat \<Rightarrow> tx_calls) \<Rightarrow> tx_socket \<Rightarrow> tx_socket option" where
  "transmit_all h aton [] os s = Some s"
| "transmit_all h aton (raw # raws) os s =
     (case transmit_force h aton raw (os 0) s of
        Some (Inr _, s1) \<Rightarrow> transmit_all h aton raws (\<lambda>n. os (Suc n)) s1
      | _ \<Rightarrow> None)"

record net_run =
  nr_run :: sender_run
  nr_send :: tx_socket
  nr_resend :: tx_socket

text \<open>A datagram socket takes a packet whole or not at all.\<close>

definition all_or_nothing :: "msg_t list \<Rightarrow> (nat \<Rightarrow> nat \<Rightarrow> tx_calls) \<Rightarrow> bool" where
  "all_or_nothing raws os \<longleftrightarrow>
     (\<forall>k i. k < length raws \<longrightarrow> write_len (os k i) < 0 \<or> write_len (os k i) = int (length (raws ! k)))"

inductive net_step :: "host \<Rightarrow> (string \<Rightarrow> u32 option) \<Rightarrow> net_run \<Rightarrow> net_run \<Rightarrow> bool" for h aton where
  net_send: "\<not> reading_complete (nr_run n) \<Longrightarrow> run_sender_once h (tx (nr_run n)) = Inr (out, t) \<Longrightarrow>
    all_or_nothing out os \<Longrightarrow> transmit_all h aton out os (nr_send n) = Some sk \<Longrightarrow>
    net_step h aton n (n\<lparr>nr_run := (nr_run n)\<lparr>tx := t, sent := sent (nr_run n) @ out\<rparr>, nr_send := sk\<rparr>)"
| net_resend: "\<not> reading_complete (nr_run n) \<Longrightarrow> run_retransmitter_once h (tx (nr_run n)) = Inr (out, t) \<Longrightarrow>
    all_or_nothing out os \<Longrightarrow> transmit_all h aton out os (nr_resend n) = Some sk \<Longrightarrow>
    net_step h aton n (n\<lparr>nr_run := (nr_run n)\<lparr>tx := t, resent := resent (nr_run n) @ out\<rparr>, nr_resend := sk\<rparr>)"
| net_other: "sender_step h (nr_run n) s \<Longrightarrow> sent s = sent (nr_run n) \<Longrightarrow> resent s = resent (nr_run n) \<Longrightarrow>
    net_step h aton n (n\<lparr>nr_run := s\<rparr>)"

definition net_start :: "transmitter \<Rightarrow> byte list \<Rightarrow> net_run \<Rightarrow> bool" where
  "net_start t inp n \<longleftrightarrow>
     sender_start t inp (nr_run n)
     \<and> nr_send n = tx_socket_init (MCAST_ADDR t) (DATA_PORT t)
     \<and> nr_resend n = tx_socket_init (MCAST_ADDR t) (DATA_PORT t)"

subsection \<open>The sockets\<close>

text \<open>A socket for an address and a port: once connected it is connected to them, and it sends only then.\<close>

definition aimed_at :: "host \<Rightarrow> (string \<Rightarrow> u32 option) \<Rightarrow> string \<Rightarrow> in_port \<Rightarrow> tx_socket \<Rightarrow> bool" where
  "aimed_at h aton addr port s \<longleftrightarrow>
     remote_dotted_address s = addr \<and> remote_port s = port
     \<and> (connected s \<longrightarrow> (\<exists>a. aton addr = Some a \<and> peer s = Some \<lparr>sin_port = htons h port, sin_addr = a\<rparr>))
     \<and> (transmitted s \<noteq> [] \<longrightarrow> connected s)"

lemma aimed_at_init: "aimed_at h aton addr port (tx_socket_init addr port)"
  by (simp add: aimed_at_def tx_socket_init_def)

lemma aimed_at_open: "aimed_at h aton addr port s \<Longrightarrow> aimed_at h aton addr port (snd (open_connection h aton os s))"
  by (auto simp: aimed_at_def open_connection_def Let_def split: option.split)

lemma aimed_at_write: "aimed_at h aton addr port s \<Longrightarrow> connected s \<Longrightarrow> aimed_at h aton addr port (write_packet len raw s)"
  by (simp add: aimed_at_def write_packet_def)

lemma aimed_at_transmit:
  assumes "aimed_at h aton addr port s"
  shows "aimed_at h aton addr port (snd (transmit h aton raw os s))"
proof -
  obtain r s1 where s1: "(if connected s then (Inr (), s) else open_connection h aton os s) = (r, s1)" by fastforce
  then have "aimed_at h aton addr port s1" "r = Inr () \<Longrightarrow> connected s1"
    using assms aimed_at_open [OF assms, of os] open_connection_spec [of h aton os s r s1] by (auto split: if_splits)
  then show ?thesis unfolding transmit_def s1 by (auto simp: Let_def aimed_at_write split: sum.split)
qed

interpretation tx_datagrams: datagram_sender
    "transmit h aton raw" "\<lambda>os. write_len os < 0 \<or> write_len os = int (length raw)"
    "aimed_at h aton addr port" transmitted raw "\<lambda>_. False"
  for h aton raw addr port
proof unfold_locales
  fix s s' os
  show "aimed_at h aton addr port s \<Longrightarrow> aimed_at h aton addr port (snd (transmit h aton raw os s))"
    by (rule aimed_at_transmit)
  show "transmit h aton raw os s = (Inr (), s') \<Longrightarrow> transmitted s' = transmitted s @ [raw]"
    by (simp add: transmit_ok)
  fix e
  show "write_len os < 0 \<or> write_len os = int (length raw) \<Longrightarrow> transmit h aton raw os s = (Inl e, s') \<Longrightarrow>
      socket_error (Inl e) \<and> (transmitted s' = transmitted s \<or> (\<exists>p. False \<and> transmitted s' = transmitted s @ [p]))"
    by (cases rule: transmit_cases [of h aton raw os s]) (auto simp: socket_error_def split: if_splits)
qed

lemma transmit_all_sends:
  assumes "aimed_at h aton addr port s" "all_or_nothing raws os" "transmit_all h aton raws os s = Some s'"
  shows "aimed_at h aton addr port s' \<and> transmitted s' = transmitted s @ raws"
  using assms
proof (induction raws arbitrary: os s)
  case (Cons raw raws)
  from Cons.prems(3) obtain s1 where s1: "retry (transmit h aton raw) (os 0) s = Some (Inr (), s1)"
      "transmit_all h aton raws (\<lambda>n. os (Suc n)) s1 = Some s'"
    by (auto simp: transmit_force_def split: option.splits sum.splits)
  have "write_len (os 0 i) < 0 \<or> write_len (os 0 i) = int (length raw)" for i
    using Cons.prems(2) by (force simp: all_or_nothing_def)
  note sends = tx_datagrams.retry_sends [OF this Cons.prems(1) s1(1)]
  have "aimed_at h aton addr port s1"
    using s1(1) tx_datagrams.stays_usable tx_datagrams.attempts_usable [OF Cons.prems(1)]
    by (auto simp: retry_iff) (metis snd_conv)
  moreover have "all_or_nothing raws (\<lambda>n. os (Suc n))"
    using Cons.prems(2) by (force simp: all_or_nothing_def)
  ultimately show ?case using Cons.IH s1(2) sends(2) by (auto simp: list_all_iff)
qed simp

subsection \<open>Refinement\<close>

text \<open>What the sockets have sent is what the lists of the abstract sender hold, and each step is one of
  the abstract sender's.\<close>

definition carries :: "host \<Rightarrow> (string \<Rightarrow> u32 option) \<Rightarrow> transmitter \<Rightarrow> net_run \<Rightarrow> bool" where
  "carries h aton t n \<longleftrightarrow>
     aimed_at h aton (MCAST_ADDR t) (DATA_PORT t) (nr_send n) \<and> transmitted (nr_send n) = sent (nr_run n)
     \<and> aimed_at h aton (MCAST_ADDR t) (DATA_PORT t) (nr_resend n) \<and> transmitted (nr_resend n) = resent (nr_run n)"

lemma net_refines:
  assumes "net_step h aton n n'"
  shows "sender_step h (nr_run n) (nr_run n')"
  using assms
proof cases
  case (net_send out t os sk)
  from send_step [OF net_send(2,3)] show ?thesis by (simp add: net_send(1))
next
  case (net_resend out t os sk)
  from retransmit_step [OF net_resend(2,3)] show ?thesis by (simp add: net_resend(1))
next
  case (net_other s)
  then show ?thesis by simp
qed

interpretation sender_net: inductive_invariant
    "net_start t inp" "net_step h aton" "\<lambda>n. carries h aton t n \<and> reach (sender_start t inp) (sender_step h) (nr_run n)"
  for t inp h aton
proof unfold_locales
  fix n n'
  show "carries h aton t n \<and> reach (sender_start t inp) (sender_step h) (nr_run n)" if "net_start t inp n"
    using that by (auto simp: net_start_def carries_def aimed_at_init sender_start_def intro: reach_start)
      (simp_all add: tx_socket_init_def)
  assume step: "net_step h aton n n'" and good: "carries h aton t n \<and> reach (sender_start t inp) (sender_step h) (nr_run n)"
  from step have "carries h aton t n'"
  proof cases
    case (net_send out t' os sk)
    from good net_send(1) show ?thesis using transmit_all_sends [OF _ net_send(4,5), of "MCAST_ADDR t" "DATA_PORT t"] by (simp add: carries_def)
  next
    case (net_resend out t' os sk)
    from good net_resend(1) show ?thesis using transmit_all_sends [OF _ net_resend(4,5), of "MCAST_ADDR t" "DATA_PORT t"] by (simp add: carries_def)
  next
    case (net_other s)
    with good show ?thesis by (simp add: carries_def)
  qed
  with net_refines [OF step] good show "carries h aton t n' \<and> reach (sender_start t inp) (sender_step h) (nr_run n')"
    by (blast intro: reach_step)
qed

subsection \<open>Properties\<close>

text \<open>C7: the datagrams that the sender's socket puts on the network are the first packets of the input, each
  once, in order and whole, however the threads interleave and however often the system refuses an
  attempt; they all go to the address and port that the sender was given. With an address that cannot
  be read none is ever sent.\<close>
theorem wire_carries_input:
  assumes "transmitter_init psize fsize rt addr dport cport name now = Inr t" "fsize \<noteq> 0"
    and "length inp < 2 ^ 64" "reach (net_start t inp) (net_step h aton) n"
  shows "prefix (transmitted (nr_send n)) (map (wire h now) (packets psize inp))
    \<and> (transmitted (nr_send n) \<noteq> [] \<longrightarrow>
        (\<exists>a. aton addr = Some a \<and> peer (nr_send n) = Some \<lparr>sin_port = htons h dport, sin_addr = a\<rparr>))"
proof -
  from sender_net.reach_good [OF assms(4)]
  have n: "carries h aton t n" "reach (sender_start t inp) (sender_step h) (nr_run n)" by simp_all
  have "MCAST_ADDR t = addr" "DATA_PORT t = dport"
    using assms(1) by (auto simp: transmitter_init_def Let_def split: if_splits)
  with n sent_prefix [OF assms(1-3) n(2)] show ?thesis by (auto simp: carries_def aimed_at_def)
qed

text \<open>A run of the abstract sender in which nothing has been sent is one of the sender with its sockets.\<close>

lemma net_before_sending:
  assumes "reach (sender_start t inp) (sender_step h) s" "sent s = []" "resent s = []"
  shows "reach (net_start t inp) (net_step h aton)
    \<lparr>nr_run = s, nr_send = tx_socket_init (MCAST_ADDR t) (DATA_PORT t),
     nr_resend = tx_socket_init (MCAST_ADDR t) (DATA_PORT t)\<rparr>"
  using assms
proof induction
  case (reach_start s)
  then show ?case by (intro reach.reach_start) (simp add: net_start_def)
next
  case (reach_step s s')
  from reach_step.hyps(2) reach_step.prems have "sent s = []" "resent s = []"
    by (cases; simp)+
  note IH = reach_step.IH [OF this]
  have "net_step h aton
      \<lparr>nr_run = s, nr_send = tx_socket_init (MCAST_ADDR t) (DATA_PORT t), nr_resend = tx_socket_init (MCAST_ADDR t) (DATA_PORT t)\<rparr>
      \<lparr>nr_run = s', nr_send = tx_socket_init (MCAST_ADDR t) (DATA_PORT t), nr_resend = tx_socket_init (MCAST_ADDR t) (DATA_PORT t)\<rparr>"
    using net_other [of h "\<lparr>nr_run = s, nr_send = _, nr_resend = _\<rparr>" s' aton] reach_step.hyps(2) reach_step.prems
      \<open>sent s = []\<close> \<open>resent s = []\<close> by simp
  with IH show ?case by (rule reach.reach_step)
qed

text \<open>The system refuses the first packet twice and takes it then.\<close>

definition refused_twice :: "nat \<Rightarrow> tx_calls" where
  "refused_twice i =
     \<lparr>tx_new_fd = 3 + int i, broadcast_err = 0, ttl_err = 0, connect_err = (if i = 0 then -1 else 0),
      write_len = (if i < 2 then -1 else 18), tx_error = ''Network is unreachable''\<rparr>"

lemma sample_on_air:
  "\<exists>n. reach (net_start sample_transmitter [9]) (net_step Little_Endian (\<lambda>_. Some 1)) n
    \<and> transmitted (nr_send n) = [sample_packet]"
proof -
  let ?t = sample_transmitter and ?h = Little_Endian and ?aton = "\<lambda>_. Some 1 :: u32 option"
  let ?s = "sample_state [sample_msg] [] [] [] []" and ?sk = "tx_socket_init (MCAST_ADDR sample_transmitter) (DATA_PORT sample_transmitter)"
  let ?n = "\<lparr>nr_run = ?s, nr_send = ?sk, nr_resend = ?sk\<rparr>"
  have s: "sent ?s = []" "resent ?s = []" "\<not> reading_complete ?s" by (simp_all add: sample_state_def)
  have reach: "reach (net_start ?t [9]) (net_step ?h ?aton) ?n" by (rule net_before_sending [OF sample_read s(1,2)])
  have out: "run_sender_once ?h (tx ?s) = Inr ([sample_packet], tx (sample_state [] [] [] [] []))"
    by (simp add: run_sender_once_def sample_state_def atomic_get_and_pop_def sample_transmit sample_transmitter_def)
  have len: "length sample_packet = 18" by (simp add: sample_packet_def)
  have "calls_succeed sample_packet (refused_twice 2)" by (simp add: calls_succeed_def refused_twice_def len)
  note ok = calls_succeed_transmit [OF this, of ?aton _ ?h]
  have valid: "write_len (refused_twice i) < 0 \<or> write_len (refused_twice i) = int (length sample_packet)" for i
    by (simp add: refused_twice_def len)
  obtain sk where sk: "transmit_force ?h ?aton sample_packet refused_twice ?sk = Some (Inr (), sk)"
    using tx_datagrams.retry_returns [where os = refused_twice and raw = sample_packet and n = 2 and s = ?sk and h = ?h
        and aton = ?aton, OF valid aimed_at_init] ok by (auto simp: transmit_force_def)
  have os: "all_or_nothing [sample_packet] (\<lambda>_. refused_twice)"
    by (simp add: all_or_nothing_def refused_twice_def len)
  have all: "transmit_all ?h ?aton [sample_packet] (\<lambda>_. refused_twice) ?sk = Some sk" by (simp add: sk)
  let ?n' = "?n\<lparr>nr_run := ?s\<lparr>tx := tx (sample_state [] [] [] [] []), sent := sent ?s @ [sample_packet]\<rparr>, nr_send := sk\<rparr>"
  have "net_step ?h ?aton ?n ?n'" using net_send [where n = ?n, OF _ _ os] s(3) out all by simp
  with reach have n': "reach (net_start ?t [9]) (net_step ?h ?aton) ?n'" by (rule reach_step)
  moreover have "transmitted sk = [sample_packet]"
    using transmit_all_sends [OF aimed_at_init os all] by (simp add: tx_socket_init_def)
  ultimately show ?thesis by (intro exI [of _ ?n']) simp
qed

theorem wire_carries_input_witness:
  "\<exists>n. reach (net_start sample_transmitter [9]) (net_step Little_Endian (\<lambda>_. Some 1)) n
    \<and> transmitted (nr_send n) = [sample_packet]
    \<and> prefix [sample_packet] (map (wire Little_Endian 7) (packets 2 [9]))"
proof -
  obtain n where n: "reach (net_start sample_transmitter [9]) (net_step Little_Endian (\<lambda>_. Some 1)) n"
      "transmitted (nr_send n) = [sample_packet]"
    using sample_on_air by blast
  with wire_carries_input [OF sample_transmitter_init _ _ n(1)] show ?thesis by (intro exI [of _ n]) simp
qed

end
