(* ===== verification/Receiver_Calls.thy ===== *)
theory Receiver_Calls
  imports Receiver_Run
begin

text \<open>
  The receiver call by call. \<open>Receiver_Run\<close> takes a turn of a thread as one step; here each call on a
  shared object is one, and the threads interleave between them. A thread is at a point between two calls,
  with the local variables that it still needs. Nothing else holds the threads off each other: the guard of
  \<open>data_mut\<close>, too, is a temporary.
\<close>

subsection \<open>The points of the threads\<close>

datatype reset_pc = R_Check | R_Buffer "station option" | R_Rexmits "station option" | R_Connect station

datatype ctrl_pc = C_Read | C_Stations station | C_State station

datatype rexmit_pc =
  X_Filter | X_Space "msg_id_t list" "msg_id_t list" | X_Station "msg_id_t list" | X_Send "msg_id_t list" station

datatype data_pc = D_Read | D_Session data_msg msg_id_t | D_Write data_msg | D_Mark | D_Append "msg_id_t list"

datatype stream_pc = S_Read | S_Mark | S_Output msg_t

datatype ui_pc =
  U_Select | U_State station | U_Names string | U_Mark | U_Menu "string list" "string option" | U_Update

record receiver_calls =
  at_reset :: reset_pc
  at_ctrl :: ctrl_pc
  at_rexmit :: rexmit_pc
  at_data :: data_pc
  at_stream :: stream_pc
  at_ui :: ui_pc
  shared :: receiver

subsection \<open>The calls\<close>

fun reset_call ::
  "host \<Rightarrow> (string \<Rightarrow> u32 option) \<Rightarrow> connect_calls \<Rightarrow> time_point \<Rightarrow> reset_pc \<Rightarrow> receiver \<Rightarrow> (reset_pc \<times> receiver) result" where
  "reset_call h aton os now R_Check r =
     (let ((st, was_dirty), sm) = check_state (rc_state r)
      in Inr (if was_dirty \<noteq> 0 then R_Buffer st else R_Check, r\<lparr>rc_state := sm\<rparr>))"
| "reset_call h aton os now (R_Buffer st) r =
     Inr (R_Rexmits st, r\<lparr>rc_buffer := buffer_reset (rc_buffer r)\<rparr>)"
| "reset_call h aton os now (R_Rexmits st) r =
     Inr (case st of None \<Rightarrow> R_Check | Some s \<Rightarrow> R_Connect s, r\<lparr>rc_rexmits := rexmit_reset now (rc_rexmits r)\<rparr>)"
| "reset_call h aton os now (R_Connect s) r =
     (case data_connect h aton os s (rc_socket r) of
        (Inl e, _) \<Rightarrow> Inl e
      | (Inr _, ds) \<Rightarrow> Inr (R_Check, r\<lparr>rc_socket := ds\<rparr>))"

fun ctrl_call :: "host \<Rightarrow> time_point \<Rightarrow> ctrl_received \<Rightarrow> ctrl_pc \<Rightarrow> receiver \<Rightarrow> (ctrl_pc \<times> receiver) result" where
  "ctrl_call h now os C_Read r =
     and_then (ctrl_try_read os) (\<lambda>rcv.
     case rcv of
        None \<Rightarrow> Inr (C_Read, r)
      | Some (msg, sender_addr) \<Rightarrow>
          if \<not> is_reply msg then Inr (C_Read, r)
          else map_sum id (\<lambda>st. (C_Stations st, r)) (as_station h now msg sender_addr))"
| "ctrl_call h now os (C_Stations st) r =
     map_sum id (\<lambda>(new_selected, ss).
         (case new_selected of None \<Rightarrow> C_Read | Some sel \<Rightarrow> C_State sel, r\<lparr>rc_stations := ss\<rparr>))
       (update_get_selected now st (rc_stations r))"
| "ctrl_call h now os (C_State sel) r =
     Inr (C_Read, r\<lparr>rc_state := snd (register_address_check_change sel (rc_state r))\<rparr>)"

fun rexmit_call ::
  "host \<Rightarrow> (string \<Rightarrow> u32 option) \<Rightarrow> sendto_result \<Rightarrow> time_point \<Rightarrow> rexmit_pc \<Rightarrow> receiver \<Rightarrow> (rexmit_pc \<times> receiver) result" where
  "rexmit_call h aton os now X_Filter r =
     map_sum id (\<lambda>(ids, rm). (X_Space ids [], r\<lparr>rc_rexmits := rm, ids_to_forget := []\<rparr>))
       (filter_get_ids now (ids_to_forget r) (rc_rexmits r))"
| "rexmit_call h aton os now (X_Space [] ids_to_rexmit) r =
     Inr (if ids_to_rexmit = [] then X_Filter else X_Station ids_to_rexmit, r)"
| "rexmit_call h aton os now (X_Space (i # is) ids_to_rexmit) r =
     map_sum id (\<lambda>has_space.
         if \<not> has_space then (X_Space is ids_to_rexmit, r\<lparr>ids_to_forget := emplace id i (ids_to_forget r)\<rparr>)
         else (X_Space is (ids_to_rexmit @ [i]), r))
       (has_space_for i (rc_buffer r))"
| "rexmit_call h aton os now (X_Station ids_to_rexmit) r =
     map_sum id (\<lambda>(current_station, ss).
         (case current_station of None \<Rightarrow> X_Filter | Some st \<Rightarrow> X_Send ids_to_rexmit st, r\<lparr>rc_stations := ss\<rparr>))
       (get_selected now (rc_stations r))"
| "rexmit_call h aton os now (X_Send ids_to_rexmit st) r =
     and_then (make_address h aton (ctrl_address st) (ctrl_port st)) (\<lambda>addr.
     (case send_to addr (make_rexmit ids_to_rexmit) os (rc_ctrl r) of
        (Inl e, _) \<Rightarrow> Inl e
      | (Inr _, ctl) \<Rightarrow> Inr (X_Filter, r\<lparr>rc_ctrl := ctl\<rparr>)))"

text \<open>\<open>None\<close> would be a write that does not end.\<close>

fun data_call :: "host \<Rightarrow> time_point \<Rightarrow> received \<Rightarrow> data_pc \<Rightarrow> receiver \<Rightarrow> (data_pc \<times> receiver) result option" where
  "data_call h now rcv D_Read r =
     Some (case data_try_read h rcv (rc_socket r) of
             Inl e \<Rightarrow> Inl e
           | Inr None \<Rightarrow> Inr (D_Read, r)
           | Inr (Some msg) \<Rightarrow> map_sum id (\<lambda>i. (D_Session msg i, r)) (get_session_id msg))"
| "data_call h now rcv (D_Session msg msg_session_id) r =
     (let (ignore_msg, sm) = register_session_check_ignore msg_session_id (rc_state r)
      in Some (Inr (if ignore_msg then D_Read else D_Write msg, r\<lparr>rc_state := sm\<rparr>)))"
| "data_call h now rcv (D_Write msg) r =
     map_option (\<lambda>(res, b).
         (case res of
            Inr missed_ids \<Rightarrow> Inr (if missed_ids \<noteq> [] then D_Append missed_ids else D_Read, r\<lparr>rc_buffer := b\<rparr>)
          | Inl (Buffer_Access_Exception e) \<Rightarrow> Inr (D_Mark, r\<lparr>rc_buffer := b\<rparr>)
          | Inl e \<Rightarrow> Inl e))
       (write_get_missed msg (rc_buffer r))"
| "data_call h now rcv D_Mark r = Some (Inr (D_Read, r\<lparr>rc_state := mark_dirty (rc_state r)\<rparr>))"
| "data_call h now rcv (D_Append missed_ids) r =
     Some (Inr (D_Read, r\<lparr>rc_rexmits := append_ids now missed_ids (rc_rexmits r)\<rparr>))"

fun stream_call :: "stream_pc \<Rightarrow> receiver \<Rightarrow> (stream_pc \<times> receiver) result" where
  "stream_call S_Read r =
     (case buffer_try_read (rc_buffer r) of
        (Inr None, b) \<Rightarrow> Inr (S_Read, r\<lparr>rc_buffer := b\<rparr>)
      | (Inr (Some d), b) \<Rightarrow> Inr (S_Output d, r\<lparr>rc_buffer := b\<rparr>)
      | (Inl (Buffer_Access_Exception e), b) \<Rightarrow> Inr (S_Mark, r\<lparr>rc_buffer := b\<rparr>)
      | (Inl e, b) \<Rightarrow> Inl e)"
| "stream_call S_Mark r = Inr (S_Read, r\<lparr>rc_state := mark_dirty (rc_state r)\<rparr>)"
| "stream_call (S_Output d) r = Inr (S_Read, r\<lparr>played := played r @ d\<rparr>)"

fun ui_call :: "time_point \<Rightarrow> ui_calls \<Rightarrow> ui_pc \<Rightarrow> receiver \<Rightarrow> (ui_pc \<times> receiver) result" where
  "ui_call now os U_Select r =
     map_sum id (\<lambda>(new_selected, ss).
         (case new_selected of Some sel \<Rightarrow> U_State sel | None \<Rightarrow> U_Mark, r\<lparr>rc_stations := ss\<rparr>))
       (case enqueued_msu r of
          Some msu \<Rightarrow> select_get_selected now msu (rc_stations r)
        | None \<Rightarrow> get_selected now (rc_stations r))"
| "ui_call now os (U_State sel) r =
     Inr (U_Names (st_name sel), r\<lparr>rc_state := snd (register_address_check_change sel (rc_state r))\<rparr>)"
| "ui_call now os (U_Names name) r =
     map_sum id (\<lambda>(names, ss). (U_Menu (sort names) (Some name), r\<lparr>rc_stations := ss\<rparr>))
       (get_station_names now (rc_stations r))"
| "ui_call now os U_Mark r = Inr (U_Menu [] None, r\<lparr>rc_state := mark_dirty (rc_state r)\<rparr>)"
| "ui_call now os (U_Menu station_names selected) r =
     map_sum id (\<lambda>ui. (U_Update, r\<lparr>rc_ui := ui\<rparr>)) (send_menu os station_names selected (rc_ui r))"
| "ui_call now os U_Update r =
     map_sum id (\<lambda>(msu, ui). (U_Select, r\<lparr>rc_ui := ui, enqueued_msu := msu\<rparr>)) (get_update os (rc_ui r))"

subsection \<open>The threads together\<close>

text \<open>The thread that sends lookups makes one call on a shared object in a turn.\<close>

inductive call_step :: "host \<Rightarrow> (string \<Rightarrow> u32 option) \<Rightarrow> receiver_calls \<Rightarrow> receiver_calls \<Rightarrow> bool" for h aton where
  call_reset: "reset_call h aton os now (at_reset c) (shared c) = Inr (pc, r) \<Longrightarrow>
    call_step h aton c (c\<lparr>at_reset := pc, shared := r\<rparr>)"
| call_ctrl: "ctrl_call h now rcv (at_ctrl c) (shared c) = Inr (pc, r) \<Longrightarrow>
    call_step h aton c (c\<lparr>at_ctrl := pc, shared := r\<rparr>)"
| call_lookup: "lookup_sender_turn h aton results (shared c) = Some (Inr r) \<Longrightarrow>
    call_step h aton c (c\<lparr>shared := r\<rparr>)"
| call_rexmit: "rexmit_call h aton res now (at_rexmit c) (shared c) = Inr (pc, r) \<Longrightarrow>
    call_step h aton c (c\<lparr>at_rexmit := pc, shared := r\<rparr>)"
| call_data: "data_call h now datagram (at_data c) (shared c) = Some (Inr (pc, r)) \<Longrightarrow>
    (\<And>raw. datagram = Received raw \<Longrightarrow> length raw \<le> 65535) \<Longrightarrow>
    call_step h aton c (c\<lparr>at_data := pc, shared := r\<rparr>)"
| call_stream: "stream_call (at_stream c) (shared c) = Inr (pc, r) \<Longrightarrow>
    call_step h aton c (c\<lparr>at_stream := pc, shared := r\<rparr>)"
| call_ui: "ui_call now os (at_ui c) (shared c) = Inr (pc, r) \<Longrightarrow> system_ok os (rc_ui (shared c)) \<Longrightarrow>
    call_step h aton c (c\<lparr>at_ui := pc, shared := r\<rparr>)"

text \<open>Every thread is at the start of a turn.\<close>

definition idle :: "receiver \<Rightarrow> receiver_calls" where
  "idle r = \<lparr>at_reset = R_Check, at_ctrl = C_Read, at_rexmit = X_Filter, at_data = D_Read, at_stream = S_Read,
     at_ui = U_Select, shared = r\<rparr>"

definition calls_start :: "host \<Rightarrow> station \<Rightarrow> receiver_calls \<Rightarrow> bool" where
  "calls_start h unset c \<longleftrightarrow> (\<exists>r. receiver_start h unset r \<and> c = idle r)"

subsection \<open>Invariant\<close>

definition sound :: "receiver \<Rightarrow> bool" where
  "sound r \<longleftrightarrow> buf_inv (rc_buffer r) \<and> rexmit_inv (rc_rexmits r) \<and> station_inv (rc_stations r) \<and> ui_inv (rc_ui r)"

text \<open>The station that the socket is tuned to when the resetter next reaches the start of its turn.\<close>

fun next_station :: "reset_pc \<Rightarrow> receiver \<Rightarrow> station option" where
  "next_station R_Check r = Some (connected_station (rc_socket r))"
| "next_station (R_Buffer st) r = st"
| "next_station (R_Rexmits st) r = st"
| "next_station (R_Connect s) r = Some s"

definition bound_for :: "host \<Rightarrow> (string \<Rightarrow> u32 option) \<Rightarrow> station \<Rightarrow> reset_pc \<Rightarrow> receiver \<Rightarrow> bool" where
  "bound_for h aton unset pc r \<longleftrightarrow>
     (\<not> dirty (rc_state r) \<longrightarrow>
        (case active_station (rc_state r) of
           None \<Rightarrow> True
         | Some st \<Rightarrow> (\<exists>s. next_station pc r = Some s \<and> same_station st s)))
     \<and> rx_inv (rc_socket r) \<and> (connected_station (rc_socket r) = unset \<or> socket_tuned h aton (rc_socket r))"

fun holds_payload :: "data_pc \<Rightarrow> bool" where
  "holds_payload (D_Session m i) = payload_exists m"
| "holds_payload (D_Write m) = payload_exists m"
| "holds_payload _ = True"

definition calls_inv :: "host \<Rightarrow> (string \<Rightarrow> u32 option) \<Rightarrow> station \<Rightarrow> receiver_calls \<Rightarrow> bool" where
  "calls_inv h aton unset c \<longleftrightarrow> sound (shared c) \<and> bound_for h aton unset (at_reset c) (shared c) \<and> holds_payload (at_data c)"

text \<open>What the calls of all threads but the resetter do to the socket and the state.\<close>

definition leaves_tuned :: "receiver \<Rightarrow> receiver \<Rightarrow> bool" where
  "leaves_tuned r r' \<longleftrightarrow>
     rc_socket r' = rc_socket r
     \<and> (dirty (rc_state r') \<or> dirty (rc_state r') = dirty (rc_state r) \<and> active_station (rc_state r') = active_station (rc_state r))"

lemma bound_keep: "bound_for h aton unset pc r \<Longrightarrow> leaves_tuned r r' \<Longrightarrow> bound_for h aton unset pc r'"
  by (cases pc) (auto simp: bound_for_def leaves_tuned_def split: option.splits)

lemma leaves_tuned_simps [simp]:
  "leaves_tuned r r" "leaves_tuned r (r\<lparr>rc_buffer := b\<rparr>)" "leaves_tuned r (r\<lparr>rc_rexmits := m\<rparr>)"
  "leaves_tuned r (r\<lparr>rc_stations := ss\<rparr>)" "leaves_tuned r (r\<lparr>rc_ctrl := k\<rparr>)" "leaves_tuned r (r\<lparr>rc_ui := u\<rparr>)"
  "leaves_tuned r (r\<lparr>ids_to_forget := is\<rparr>)" "leaves_tuned r (r\<lparr>played := p\<rparr>)"
  "leaves_tuned r (r\<lparr>rc_rexmits := m, ids_to_forget := is\<rparr>)" "leaves_tuned r (r\<lparr>rc_ui := u, enqueued_msu := e\<rparr>)"
  "leaves_tuned r (r\<lparr>rc_state := mark_dirty (rc_state r)\<rparr>)"
  by (simp_all add: leaves_tuned_def mark_dirty_def)

lemma register_leaves_tuned [simp]:
  "leaves_tuned r (r\<lparr>rc_state := snd (register_address_check_change st (rc_state r))\<rparr>)"
  using register_address_marks [of st "rc_state r"] by (auto simp: leaves_tuned_def)

lemma sound_simps [simp]:
  "sound (r\<lparr>rc_state := s\<rparr>) = sound r" "sound (r\<lparr>rc_socket := d\<rparr>) = sound r" "sound (r\<lparr>rc_ctrl := k\<rparr>) = sound r"
  "sound (r\<lparr>ids_to_forget := is\<rparr>) = sound r" "sound (r\<lparr>played := p\<rparr>) = sound r"
  "sound (r\<lparr>enqueued_msu := e\<rparr>) = sound r"
  "sound r \<Longrightarrow> sound (r\<lparr>rc_buffer := b\<rparr>) = buf_inv b" "sound r \<Longrightarrow> sound (r\<lparr>rc_rexmits := m\<rparr>) = rexmit_inv m"
  "sound r \<Longrightarrow> sound (r\<lparr>rc_stations := ss\<rparr>) = station_inv ss" "sound r \<Longrightarrow> sound (r\<lparr>rc_ui := u\<rparr>) = ui_inv u"
  by (auto simp: sound_def)

lemma bound_for_marked:
  "bound_for h aton unset pc r \<Longrightarrow> dirty (rc_state r) \<Longrightarrow> bound_for h aton unset pc' (r\<lparr>rc_state := s\<rparr>) \<longleftrightarrow>
     (\<not> dirty s \<longrightarrow> (case active_station s of None \<Rightarrow> True
        | Some st \<Rightarrow> (\<exists>x. next_station pc' (r\<lparr>rc_state := s\<rparr>) = Some x \<and> same_station st x)))"
  by (simp add: bound_for_def)

lemma bound_for_same:
  "bound_for h aton unset pc r \<Longrightarrow> rc_state r' = rc_state r \<Longrightarrow> rc_socket r' = rc_socket r \<Longrightarrow>
   (\<And>st. active_station (rc_state r) = Some st \<Longrightarrow> next_station pc' r' = next_station pc r) \<Longrightarrow> bound_for h aton unset pc' r'"
  by (simp add: bound_for_def split: option.splits)

lemma connect_same:
  assumes "data_connect h aton os s ds = (Inr (), ds')" "rx_inv ds" "connected_station ds = unset \<or> socket_tuned h aton ds"
  shows "same_station s (connected_station ds')" "rx_inv ds'" "connected_station ds' = unset \<or> socket_tuned h aton ds'"
  using data_connect_ok [OF assms(1)] data_connect_inv [OF assms(2), of h aton os s] assms by auto

lemma reset_call_keeps:
  assumes "reset_call h aton os now pc r = Inr (pc', r')" "sound r" "bound_for h aton unset pc r"
  shows "sound r' \<and> bound_for h aton unset pc' r'"
proof (cases pc)
  case R_Check
  let ?r = "r\<lparr>rc_state := (rc_state r)\<lparr>dirty := False\<rparr>\<rparr>"
  have r': "r' = ?r" "pc' = (if dirty (rc_state r) then R_Buffer (active_station (rc_state r)) else R_Check)"
    using assms(1) R_Check by (simp_all add: check_state_def split: if_splits)
  have "bound_for h aton unset pc' ?r"
  proof (cases "dirty (rc_state r)")
    case True
    from bound_for_marked [OF assms(3) True] show ?thesis
      by (simp add: r'(2) True same_station_def split: option.split)
  next
    case False
    with assms(3) R_Check show ?thesis by (auto simp: r'(2) bound_for_def split: option.splits)
  qed
  with assms(2) show ?thesis by (simp add: r'(1))
next
  case (R_Buffer st)
  then have r': "pc' = R_Rexmits st" "r' = r\<lparr>rc_buffer := buffer_reset (rc_buffer r)\<rparr>" using assms(1) by simp_all
  show ?thesis
    using assms(2) by (auto simp: r' R_Buffer buf_inv_reset intro!: bound_for_same [OF assms(3)])
next
  case (R_Rexmits st)
  then have r': "r' = r\<lparr>rc_rexmits := rexmit_reset now (rc_rexmits r)\<rparr>"
      "pc' = (case st of None \<Rightarrow> R_Check | Some s \<Rightarrow> R_Connect s)"
    using assms(1) by simp_all
  have "bound_for h aton unset pc' r'"
  proof (cases st)
    case None
    with assms(3) show ?thesis by (simp add: r' R_Rexmits bound_for_def split: option.splits)
  next
    case (Some s)
    then show ?thesis by (intro bound_for_same [OF assms(3)]) (simp_all add: r' R_Rexmits)
  qed
  with assms(2) show ?thesis by (simp add: r' rexmit_inv_def rexmit_reset_def)
next
  case (R_Connect s)
  with assms(1) obtain ds where ds: "data_connect h aton os s (rc_socket r) = (Inr (), ds)"
      "pc' = R_Check" "r' = r\<lparr>rc_socket := ds\<rparr>"
    by (auto split: prod.splits sum.splits)
  have "rx_inv (rc_socket r)" "connected_station (rc_socket r) = unset \<or> socket_tuned h aton (rc_socket r)"
    using assms(3) by (simp_all add: bound_for_def)
  note conn = connect_same [OF ds(1) this]
  have "same_station a (connected_station ds)" if "same_station a s" for a
    using that conn(1) by (simp add: same_station_def)
  with conn(2,3) assms(2,3) show ?thesis
    by (cases "active_station (rc_state r)") (simp_all add: R_Connect ds(2,3) bound_for_def)
qed

lemma ctrl_call_keeps:
  assumes "ctrl_call h now os pc r = Inr (pc', r')" "sound r"
  shows "sound r' \<and> leaves_tuned r r'"
proof (cases pc)
  case C_Read
  with assms show ?thesis
    by (cases os) (auto simp: ctrl_try_read_def map_sum_ok_iff split: if_splits)
next
  case (C_Stations st)
  with assms(1) obtain sel ss where "update_get_selected now st (rc_stations r) = Inr (sel, ss)"
      "r' = r\<lparr>rc_stations := ss\<rparr>"
    by (auto simp: map_sum_ok_iff)
  with assms(2) update_get_selected_selects show ?thesis by (auto simp: sound_def)
next
  case (C_State sel)
  with assms show ?thesis by auto
qed

lemma rexmit_call_keeps:
  assumes "rexmit_call h aton os now pc r = Inr (pc', r')" "sound r"
  shows "sound r' \<and> leaves_tuned r r'"
proof (cases pc)
  case X_Filter
  with assms filter_get_ids_due [of "rc_rexmits r" now "ids_to_forget r"] show ?thesis
    by (auto simp: sound_def)
next
  case (X_Space ids asked)
  with assms show ?thesis by (cases ids) (auto simp: map_sum_ok_iff split: if_splits)
next
  case (X_Station ids)
  with assms(1) obtain sel ss where "get_selected now (rc_stations r) = Inr (sel, ss)" "r' = r\<lparr>rc_stations := ss\<rparr>"
    by (auto simp: map_sum_ok_iff)
  with assms(2) get_selected_selects(1) show ?thesis by (auto simp: sound_def)
next
  case (X_Send ids st)
  with assms show ?thesis by (auto elim!: and_then_okE split: prod.splits sum.splits)
qed

lemma data_call_keeps:
  assumes "data_call h now rcv pc r = Some (Inr (pc', r'))" "sound r" "holds_payload pc"
    and "\<And>raw. rcv = Received raw \<Longrightarrow> length raw \<le> 65535"
  shows "sound r' \<and> leaves_tuned r r' \<and> holds_payload pc'"
proof (cases pc)
  case D_Read
  show ?thesis
  proof (cases "data_try_read h rcv (rc_socket r)")
    case (Inr read)
    with D_Read assms(1,2) show ?thesis
      by (cases read) (auto simp: map_sum_ok_iff intro: read_payload [OF _ assms(4)])
  qed (use D_Read assms in simp)
next
  case (D_Session m i)
  obtain ign sm where sm: "register_session_check_ignore i (rc_state r) = (ign, sm)" by fastforce
  from register_session_marks [OF this] have "leaves_tuned r (r\<lparr>rc_state := sm\<rparr>)" by (auto simp: leaves_tuned_def)
  with sm D_Session assms show ?thesis by auto
next
  case (D_Write m)
  with assms(3) have "payload_exists m" by simp
  then obtain res b where "write_get_missed m (rc_buffer r) = Some (res, b)" "buf_inv b"
    using write_ends_or_inv assms(2) unfolding sound_def by blast
  with D_Write assms(1,2) show ?thesis by (auto split: sum.splits cpp_error.splits if_splits)
next
  case D_Mark
  with assms show ?thesis by auto
next
  case (D_Append ids)
  with assms append_ids_spec [of "rc_rexmits r" now ids] show ?thesis by (auto simp: sound_def)
qed

lemma stream_call_keeps:
  assumes "stream_call pc r = Inr (pc', r')" "sound r"
  shows "sound r' \<and> leaves_tuned r r'"
proof (cases pc)
  case S_Read
  have "buf_inv (snd (buffer_try_read (rc_buffer r)))"
    using assms(2) by (simp add: sound_def buf_inv_optional_read)
  with S_Read assms show ?thesis
    by (auto split: prod.splits sum.splits option.splits cpp_error.splits)
qed (use assms in auto)

lemma ui_call_keeps:
  assumes "ui_call now os pc r = Inr (pc', r')" "sound r" "system_ok os (rc_ui r)"
  shows "sound r' \<and> leaves_tuned r r'"
proof (cases pc)
  case U_Select
  let ?call = "case enqueued_msu r of Some msu \<Rightarrow> select_get_selected now msu (rc_stations r)
    | None \<Rightarrow> get_selected now (rc_stations r)"
  from U_Select assms(1) obtain x where x: "?call = Inr x" "r' = r\<lparr>rc_stations := snd x\<rparr>"
    by (auto simp: map_sum_ok_iff)
  have "station_inv (rc_stations r)" using assms(2) by (simp add: sound_def)
  then have "station_inv (snd x)"
    using x(1) get_selected_selects(1) [of "rc_stations r" now "fst x" "snd x"]
      select_get_selected_selects(1) [of "rc_stations r" now _ "fst x" "snd x"]
    by (cases "enqueued_msu r") simp_all
  then show ?thesis using assms(2) by (simp add: x(2))
next
  case (U_Names name)
  with assms(1) obtain x where x: "get_station_names now (rc_stations r) = Inr x" "r' = r\<lparr>rc_stations := snd x\<rparr>"
    by (auto simp: map_sum_ok_iff)
  with get_station_names_all(1) [of "rc_stations r" now "fst x" "snd x"] assms(2) show ?thesis
    by (simp add: sound_def)
next
  case (U_Menu names sel)
  with assms(1) obtain ui where ui: "send_menu os names sel (rc_ui r) = Inr ui" "r' = r\<lparr>rc_ui := ui\<rparr>"
    by (auto simp: map_sum_ok_iff)
  with send_menu_inv(1) [OF _ assms(3) ui(1)] assms(2) show ?thesis by (simp add: sound_def)
next
  case U_Update
  with assms(1) obtain x where x: "get_update os (rc_ui r) = Inr x" "r' = r\<lparr>rc_ui := snd x, enqueued_msu := fst x\<rparr>"
    by (auto simp: map_sum_ok_iff)
  with get_update_inv(1) [of "rc_ui r" os "fst x" "snd x"] assms(2,3) show ?thesis by (simp add: sound_def)
qed (use assms in auto)

subsection \<open>The invariant over runs\<close>

lemma start_socket: "receiver_start h unset r \<Longrightarrow> rc_socket r = data_socket_init unset socket_timeout_in_ms"
  using receiver_init_members by (fastforce simp: receiver_start_def receiver_members_def)

interpretation receiver_calls_run: inductive_invariant "calls_start h unset" "call_step h aton" "calls_inv h aton unset"
  for h unset aton
proof unfold_locales
  fix c c'
  show "calls_inv h aton unset c" if start: "calls_start h unset c"
  proof -
    obtain r where r: "receiver_start h unset r" "c = idle r" using start by (auto simp: calls_start_def)
    have "rx_inv (rc_socket r)" "connected_station (rc_socket r) = unset"
      using start_socket [OF r(1)] rx_inv_init by (simp_all add: data_socket_init_def)
    with receiver_turns.good_start [OF r(1)] show ?thesis
      by (auto simp: r(2) idle_def calls_inv_def sound_def receiver_inv_def bound_for_def tuned_def split: option.splits)
  qed
  assume step: "call_step h aton c c'" and inv: "calls_inv h aton unset c"
  have other: "calls_inv h aton unset c'" if "sound (shared c') \<and> leaves_tuned (shared c) (shared c')"
      "at_reset c' = at_reset c" "holds_payload (at_data c')"
    using that inv bound_keep by (auto simp: calls_inv_def)
  from step show "calls_inv h aton unset c'"
  proof cases
    case (call_reset os now pc r)
    with reset_call_keeps [OF call_reset(2), of unset] inv show ?thesis by (simp add: calls_inv_def)
  next
    case (call_ctrl now rcv pc r)
    with ctrl_call_keeps [OF call_ctrl(2)] inv show ?thesis by (intro other) (simp_all add: calls_inv_def)
  next
    case (call_lookup results r)
    from call_lookup(2) obtain ctl where "r = (shared c)\<lparr>rc_ctrl := ctl\<rparr>"
      by (auto simp: lookup_sender_turn_def split: sum.splits) (metis Inl_Inr_False map_sum.simps sum.exhaust sum.inject(2))
    with call_lookup inv show ?thesis by (intro other) (simp_all add: calls_inv_def)
  next
    case (call_rexmit res now pc r)
    with rexmit_call_keeps [OF call_rexmit(2)] inv show ?thesis by (intro other) (simp_all add: calls_inv_def)
  next
    case (call_data now datagram pc r)
    with data_call_keeps [OF call_data(2) _ _ call_data(3)] inv show ?thesis by (intro other) (simp_all add: calls_inv_def)
  next
    case (call_stream pc r)
    with stream_call_keeps [OF call_stream(2)] inv show ?thesis by (intro other) (simp_all add: calls_inv_def)
  next
    case (call_ui now os pc r)
    with ui_call_keeps [OF call_ui(2) _ call_ui(3)] inv show ?thesis by (intro other) (simp_all add: calls_inv_def)
  qed
qed

end
