(* ===== verification/Turn_Calls.thy ===== *)
theory Turn_Calls
  imports Receiver_Calls
begin

text \<open>
  The receiver's turns as runs of calls, and what holds however the calls interleave.
\<close>

subsection \<open>A turn is a run of calls\<close>

abbreviation calls_to :: "host \<Rightarrow> (string \<Rightarrow> u32 option) \<Rightarrow> receiver_calls \<Rightarrow> receiver_calls \<Rightarrow> bool" where
  "calls_to h aton \<equiv> (call_step h aton)\<^sup>*\<^sup>*"

text \<open>The runs in which the thread that receives packets takes no step.\<close>

definition quiet_step :: "host \<Rightarrow> (string \<Rightarrow> u32 option) \<Rightarrow> receiver_calls \<Rightarrow> receiver_calls \<Rightarrow> bool" where
  "quiet_step h aton c c' \<longleftrightarrow> call_step h aton c c' \<and> at_data c' = at_data c"

abbreviation quiet_to :: "host \<Rightarrow> (string \<Rightarrow> u32 option) \<Rightarrow> receiver_calls \<Rightarrow> receiver_calls \<Rightarrow> bool" where
  "quiet_to h aton \<equiv> (quiet_step h aton)\<^sup>*\<^sup>*"

lemma quiet_calls: "quiet_to h aton c c' \<Longrightarrow> calls_to h aton c c'"
  by (induction rule: rtranclp_induct) (auto simp: quiet_step_def)

lemma idle_at:
  "idle r = (idle r)\<lparr>at_reset := R_Check\<rparr>" "idle r = (idle r)\<lparr>at_ctrl := C_Read\<rparr>"
  "idle r = (idle r)\<lparr>at_rexmit := X_Filter\<rparr>" "idle r = (idle r)\<lparr>at_data := D_Read\<rparr>"
  "idle r = (idle r)\<lparr>at_stream := S_Read\<rparr>" "idle r = (idle r)\<lparr>at_ui := U_Select\<rparr>"
  by (simp_all add: idle_def)

lemma reset_go:
  assumes "reset_call h aton os now pc r = Inr (pc_next, r_next)" "quiet_to h aton ((idle r_next)\<lparr>at_reset := pc_next\<rparr>) c"
  shows "quiet_to h aton ((idle r)\<lparr>at_reset := pc\<rparr>) c"
proof -
  have "quiet_step h aton ((idle r)\<lparr>at_reset := pc\<rparr>) ((idle r_next)\<lparr>at_reset := pc_next\<rparr>)"
    using call_reset [of h aton os now "(idle r)\<lparr>at_reset := pc\<rparr>" pc_next r_next] assms(1) by (simp add: idle_def quiet_step_def)
  then show ?thesis using assms(2) by (rule converse_rtranclp_into_rtranclp)
qed

lemma ctrl_go:
  assumes "ctrl_call h now os pc r = Inr (pc_next, r_next)" "quiet_to h aton ((idle r_next)\<lparr>at_ctrl := pc_next\<rparr>) c"
  shows "quiet_to h aton ((idle r)\<lparr>at_ctrl := pc\<rparr>) c"
proof -
  have "quiet_step h aton ((idle r)\<lparr>at_ctrl := pc\<rparr>) ((idle r_next)\<lparr>at_ctrl := pc_next\<rparr>)"
    using call_ctrl [of h now os "(idle r)\<lparr>at_ctrl := pc\<rparr>" pc_next r_next aton] assms(1) by (simp add: idle_def quiet_step_def)
  then show ?thesis using assms(2) by (rule converse_rtranclp_into_rtranclp)
qed

lemma rexmit_go:
  assumes "rexmit_call h aton os now pc r = Inr (pc_next, r_next)" "calls_to h aton ((idle r_next)\<lparr>at_rexmit := pc_next\<rparr>) c"
  shows "calls_to h aton ((idle r)\<lparr>at_rexmit := pc\<rparr>) c"
  using call_rexmit [of h aton os now "(idle r)\<lparr>at_rexmit := pc\<rparr>" pc_next r_next] assms
  by (simp add: idle_def converse_rtranclp_into_rtranclp)

lemma data_go:
  assumes "data_call h now rcv pc r = Some (Inr (pc_next, r_next))" "\<And>raw. rcv = Received raw \<Longrightarrow> length raw \<le> 65535"
    and "calls_to h aton ((idle r_next)\<lparr>at_data := pc_next\<rparr>) c"
  shows "calls_to h aton ((idle r)\<lparr>at_data := pc\<rparr>) c"
  using call_data [of h now rcv "(idle r)\<lparr>at_data := pc\<rparr>" pc_next r_next aton] assms
  by (simp add: idle_def converse_rtranclp_into_rtranclp)

lemma stream_go:
  assumes "stream_call pc r = Inr (pc_next, r_next)" "calls_to h aton ((idle r_next)\<lparr>at_stream := pc_next\<rparr>) c"
  shows "calls_to h aton ((idle r)\<lparr>at_stream := pc\<rparr>) c"
  using call_stream [of "(idle r)\<lparr>at_stream := pc\<rparr>" pc_next r_next h aton] assms
  by (simp add: idle_def converse_rtranclp_into_rtranclp)

lemma ui_go:
  assumes "ui_call now os pc r = Inr (pc_next, r_next)" "system_ok os (rc_ui r)" "calls_to h aton ((idle r_next)\<lparr>at_ui := pc_next\<rparr>) c"
  shows "calls_to h aton ((idle r)\<lparr>at_ui := pc\<rparr>) c"
  using call_ui [of now os "(idle r)\<lparr>at_ui := pc\<rparr>" pc_next r_next h aton] assms
  by (simp add: idle_def converse_rtranclp_into_rtranclp)

lemma reset_turn_calls:
  assumes "playback_resetter_turn h aton os now r = Inr r'"
  shows "quiet_to h aton (idle r) (idle r')"
proof -
  obtain st w sm where check: "check_state (rc_state r) = ((st, w), sm)" by (metis surj_pair)
  let ?r = "r\<lparr>rc_state := sm, rc_buffer := buffer_reset (rc_buffer r), rc_rexmits := rexmit_reset now (rc_rexmits r)\<rparr>"
  have "quiet_to h aton ((idle r)\<lparr>at_reset := R_Check\<rparr>) (idle r')"
  proof (cases "w = 0")
    case True
    with assms check have "r' = r\<lparr>rc_state := sm\<rparr>" by (simp add: playback_resetter_turn_def)
    with True check show ?thesis
      by (intro reset_go [of h aton os now R_Check r R_Check "r\<lparr>rc_state := sm\<rparr>"]) (simp_all flip: idle_at)
  next
    case False
    have to: "quiet_to h aton ((idle r)\<lparr>at_reset := R_Check\<rparr>) c"
      if "quiet_to h aton ((idle ?r)\<lparr>at_reset := (case st of None \<Rightarrow> R_Check | Some s \<Rightarrow> R_Connect s)\<rparr>) c" for c
      by (rule reset_go [where pc_next = "R_Buffer st", rotated], rule reset_go [where pc_next = "R_Rexmits st", rotated],
          rule reset_go [rotated, OF that]) (use False check in simp_all)
    show ?thesis
    proof (cases st)
      case None
      with False assms check have "r' = ?r" by (simp add: playback_resetter_turn_def)
      with None show ?thesis by (intro to) (simp flip: idle_at)
    next
      case (Some s)
      with False assms check obtain ds where "data_connect h aton os s (rc_socket r) = (Inr (), ds)"
          "r' = ?r\<lparr>rc_socket := ds\<rparr>"
        by (auto simp: playback_resetter_turn_def Let_def split: prod.splits sum.splits)
      with Some show ?thesis
        by (intro to) (auto intro!: reset_go [of h aton os now "R_Connect s" _ R_Check r'] simp flip: idle_at)
    qed
  qed
  then show ?thesis by (simp flip: idle_at)
qed

lemma ctrl_turn_calls:
  assumes "ctrl_receiver_turn h now os r = Inr r'"
  shows "quiet_to h aton (idle r) (idle r')"
proof -
  have "quiet_to h aton ((idle r)\<lparr>at_ctrl := C_Read\<rparr>) (idle r')"
  proof (cases "\<exists>st. ctrl_call h now os C_Read r = Inr (C_Stations st, r)")
    case True
    then obtain st where st: "ctrl_call h now os C_Read r = Inr (C_Stations st, r)" ..
    with assms have "and_then (update_get_selected now st (rc_stations r)) (\<lambda>(new_selected, ss).
        let r1 = r\<lparr>rc_stations := ss\<rparr>
        in (case new_selected of None \<Rightarrow> Inr r1
            | Some sel \<Rightarrow> Inr (r1\<lparr>rc_state := snd (register_address_check_change sel (rc_state r1))\<rparr>))) = Inr r'"
      by (cases os) (auto simp: ctrl_receiver_turn_def ctrl_try_read_def map_sum_ok_iff split: if_splits)
    then obtain x where x: "update_get_selected now st (rc_stations r) = Inr x"
        "(case x of (new_selected, ss) \<Rightarrow> let r1 = r\<lparr>rc_stations := ss\<rparr>
          in (case new_selected of None \<Rightarrow> Inr r1
              | Some sel \<Rightarrow> Inr (r1\<lparr>rc_state := snd (register_address_check_change sel (rc_state r1))\<rparr>))) = (Inr r' :: receiver result)"
      by (rule and_then_okE)
    obtain sel ss where p: "x = (sel, ss)" by fastforce
    show ?thesis
    proof (rule ctrl_go [OF st], cases sel)
      case None
      with x show "quiet_to h aton ((idle r)\<lparr>at_ctrl := C_Stations st\<rparr>) (idle r')"
        by (intro ctrl_go [of h now os "C_Stations st" r C_Read r']) (simp_all add: p flip: idle_at)
    next
      case (Some s)
      with x show "quiet_to h aton ((idle r)\<lparr>at_ctrl := C_Stations st\<rparr>) (idle r')"
        by (intro ctrl_go [of h now os "C_Stations st" r "C_State s" "r\<lparr>rc_stations := ss\<rparr>"]
            ctrl_go [of h now os "C_State s" _ C_Read r']) (simp_all add: p flip: idle_at)
    qed
  next
    case False
    with assms have "r' = r"
      by (cases os) (auto simp: ctrl_receiver_turn_def ctrl_try_read_def split: if_splits elim!: and_then_okE)
    then show ?thesis by (simp flip: idle_at)
  qed
  then show ?thesis by (simp flip: idle_at)
qed

lemma stream_turn_calls:
  assumes "data_streamer_turn r = Inr r'"
  shows "calls_to h aton (idle r) (idle r')"
proof -
  obtain res b where read: "buffer_try_read (rc_buffer r) = (res, b)" by fastforce
  let ?r = "r\<lparr>rc_buffer := b\<rparr>"
  consider "res = Inr None" "r' = ?r"
    | d where "res = Inr (Some d)" "r' = ?r\<lparr>played := played r @ d\<rparr>"
    | e where "res = Inl (Buffer_Access_Exception e)" "r' = ?r\<lparr>rc_state := mark_dirty (rc_state r)\<rparr>"
    using assms read by (auto simp: data_streamer_turn_def split: sum.splits option.splits cpp_error.splits)
  then have "calls_to h aton ((idle r)\<lparr>at_stream := S_Read\<rparr>) (idle r')"
  proof cases
    case 1
    with read show ?thesis by (intro stream_go [of S_Read r S_Read ?r]) (simp_all flip: idle_at)
  next
    case (2 d)
    with read show ?thesis
      by (intro stream_go [of S_Read r "S_Output d" ?r] stream_go [of "S_Output d" ?r S_Read r']) (simp_all flip: idle_at)
  next
    case (3 e)
    with read show ?thesis
      by (intro stream_go [of S_Read r S_Mark ?r] stream_go [of S_Mark ?r S_Read r']) (simp_all flip: idle_at)
  qed
  then show ?thesis by (simp flip: idle_at)
qed

text \<open>Writing a packet that has been let through, to the end of the turn.\<close>

lemma write_calls:
  assumes wr: "write_get_missed m (rc_buffer r) = Some (res, b)" and len: "\<And>raw. rcv = Received raw \<Longrightarrow> length raw \<le> 65535"
    and res: "case res of Inr ids \<Rightarrow> r' = (if ids = [] then r\<lparr>rc_buffer := b\<rparr>
          else r\<lparr>rc_buffer := b, rc_rexmits := append_ids now ids (rc_rexmits r)\<rparr>)
      | Inl e \<Rightarrow> (\<exists>t. e = Buffer_Access_Exception t) \<and> r' = r\<lparr>rc_buffer := b, rc_state := mark_dirty (rc_state r)\<rparr>"
  shows "calls_to h aton ((idle r)\<lparr>at_data := D_Write m\<rparr>) (idle r')"
proof -
  let ?b = "r\<lparr>rc_buffer := b\<rparr>"
  have at_end: "calls_to h aton ((idle r')\<lparr>at_data := D_Read\<rparr>) (idle r')" by (simp flip: idle_at)
  consider (none) "res = Inr []" "r' = ?b"
    | (missed) ids where "res = Inr ids" "ids \<noteq> []" "r' = ?b\<lparr>rc_rexmits := append_ids now ids (rc_rexmits r)\<rparr>"
    | (mark) e where "res = Inl (Buffer_Access_Exception e)" "r' = ?b\<lparr>rc_state := mark_dirty (rc_state r)\<rparr>"
    using res by (cases res) (auto split: if_splits)
  then show ?thesis
  proof cases
    case none
    then have "data_call h now rcv (D_Write m) r = Some (Inr (D_Read, r'))" by (simp add: wr)
    from data_go [OF this len at_end] show ?thesis by blast
  next
    case (missed ids)
    then have "data_call h now rcv (D_Write m) r = Some (Inr (D_Append ids, ?b))"
        "data_call h now rcv (D_Append ids) ?b = Some (Inr (D_Read, r'))"
      by (simp_all add: wr)
    from data_go [OF this(1) len data_go [OF this(2) len at_end]] show ?thesis by blast
  next
    case (mark e)
    then have "data_call h now rcv (D_Write m) r = Some (Inr (D_Mark, ?b))"
        "data_call h now rcv D_Mark ?b = Some (Inr (D_Read, r'))"
      by (simp_all add: wr)
    from data_go [OF this(1) len data_go [OF this(2) len at_end]] show ?thesis by blast
  qed
qed

lemma data_turn_calls:
  assumes turn: "data_receiver_turn h now rcv r = Some (Inr r')" and len: "\<And>raw. rcv = Received raw \<Longrightarrow> length raw \<le> 65535"
  shows "calls_to h aton (idle r) (idle r')"
proof (cases "data_try_read h rcv (rc_socket r) = Inr None")
  case True
  with turn show ?thesis by (simp add: data_receiver_turn_def)
next
  case False
  then obtain m where m: "data_try_read h rcv (rc_socket r) = Inr (Some m)"
    using turn by (cases "data_try_read h rcv (rc_socket r)") (auto simp: data_receiver_turn_def)
  obtain i where i: "get_session_id m = Inr i"
    using turn m by (cases "get_session_id m") (auto simp: data_receiver_turn_def)
  obtain ign sm where sm: "register_session_check_ignore i (rc_state r) = (ign, sm)" by fastforce
  let ?r = "r\<lparr>rc_state := sm\<rparr>"
  have first: "data_call h now rcv D_Read r = Some (Inr (D_Session m i, r))" by (simp add: m i)
  have second: "data_call h now rcv (D_Session m i) r = Some (Inr (if ign then D_Read else D_Write m, ?r))"
    by (simp add: sm)
  have "calls_to h aton ((idle ?r)\<lparr>at_data := (if ign then D_Read else D_Write m)\<rparr>) (idle r')"
  proof (cases ign)
    case True
    with turn m i sm have "r' = ?r" by (simp add: data_receiver_turn_def)
    with True show ?thesis by (simp flip: idle_at)
  next
    case False
    with turn m i sm obtain res b where wr: "write_get_missed m (rc_buffer r) = Some (res, b)"
      by (auto simp: data_receiver_turn_def Let_def)
    have "calls_to h aton ((idle ?r)\<lparr>at_data := D_Write m\<rparr>) (idle r')"
      by (rule write_calls [where rcv = rcv and now = now and res = res and b = b])
        (use turn m i sm False wr len in \<open>auto simp: data_receiver_turn_def Let_def split: sum.splits if_splits cpp_error.splits\<close>)
    with False show ?thesis by simp
  qed
  with data_go [OF first len data_go [OF second len]] show ?thesis by (simp flip: idle_at)
qed

lemma space_calls:
  assumes "space_loop (rc_buffer r) ids asked (ids_to_forget r) = Inr (asked', forget)"
    and "calls_to h aton ((idle (r\<lparr>ids_to_forget := forget\<rparr>))\<lparr>at_rexmit := X_Space [] asked'\<rparr>) c"
  shows "calls_to h aton ((idle r)\<lparr>at_rexmit := X_Space ids asked\<rparr>) c"
  using assms
proof (induction ids arbitrary: r asked)
  case (Cons i ids)
  from Cons.prems(1) obtain has_space where space: "has_space_for i (rc_buffer r) = Inr has_space"
      "(if \<not> has_space then space_loop (rc_buffer r) ids asked (emplace id i (ids_to_forget r))
        else space_loop (rc_buffer r) ids (asked @ [i]) (ids_to_forget r)) = Inr (asked', forget)"
    by (auto elim!: and_then_okE)
  show ?case
  proof (cases has_space)
    case True
    then have "rexmit_call h aton os now (X_Space (i # ids) asked) r = Inr (X_Space ids (asked @ [i]), r)" for os now
      by (simp add: space(1))
    then show ?thesis by (rule rexmit_go) (rule Cons.IH, use True space(2) Cons.prems(2) in simp_all)
  next
    case False
    let ?r = "r\<lparr>ids_to_forget := emplace id i (ids_to_forget r)\<rparr>"
    from False have "rexmit_call h aton os now (X_Space (i # ids) asked) r = Inr (X_Space ids asked, ?r)" for os now
      by (simp add: space(1))
    then show ?thesis by (rule rexmit_go) (rule Cons.IH, use False space(2) Cons.prems(2) in simp_all)
  qed
next
  case Nil
  then have "r\<lparr>ids_to_forget := forget\<rparr> = r" "asked' = asked" by (cases r; simp)+
  with Nil.prems(2) show ?case by simp
qed

lemma rexmit_turn_calls:
  assumes turn: "rexmit_sender_turn h aton os now r = Inr r'"
  shows "calls_to h aton (idle r) (idle r')"
proof -
  obtain x where x: "filter_get_ids now (ids_to_forget r) (rc_rexmits r) = Inr x"
    using turn by (auto simp: rexmit_sender_turn_def elim: and_then_okE)
  obtain ids rm where p: "x = (ids, rm)" by fastforce
  let ?r1 = "r\<lparr>rc_rexmits := rm, ids_to_forget := []\<rparr>"
  obtain y where y: "space_loop (rc_buffer r) ids [] [] = Inr y"
    using turn by (auto simp: rexmit_sender_turn_def x p Let_def elim: and_then_okE)
  obtain asked forget where q: "y = (asked, forget)" by fastforce
  let ?r2 = "r\<lparr>rc_rexmits := rm, ids_to_forget := forget\<rparr>"
  have at_end: "calls_to h aton ((idle r')\<lparr>at_rexmit := X_Filter\<rparr>) (idle r')" by (simp flip: idle_at)
  have "calls_to h aton ((idle ?r2)\<lparr>at_rexmit := X_Space [] asked\<rparr>) (idle r')"
  proof (cases "asked = []")
    case True
    with turn have "r' = ?r2" by (simp add: rexmit_sender_turn_def x p y q)
    with True have "rexmit_call h aton os now (X_Space [] asked) ?r2 = Inr (X_Filter, r')" by simp
    from rexmit_go [OF this at_end] show ?thesis .
  next
    case False
    with turn obtain z where z: "get_selected now (rc_stations r) = Inr z"
      by (auto simp: rexmit_sender_turn_def x p y q elim: and_then_okE)
    obtain sel ss where w: "z = (sel, ss)" by fastforce
    let ?r3 = "?r2\<lparr>rc_stations := ss\<rparr>"
    from False have go: "rexmit_call h aton os now (X_Space [] asked) ?r2 = Inr (X_Station asked, ?r2)" by simp
    show ?thesis
    proof (cases sel)
      case None
      with turn False have "r' = ?r3" by (simp add: rexmit_sender_turn_def x p y q z w)
      with None have "rexmit_call h aton os now (X_Station asked) ?r2 = Inr (X_Filter, r')" by (simp add: z w)
      from rexmit_go [OF go rexmit_go [OF this at_end]] show ?thesis .
    next
      case (Some st)
      then have send: "rexmit_call h aton os now (X_Station asked) ?r2 = Inr (X_Send asked st, ?r3)" by (simp add: z w)
      have "rexmit_call h aton os now (X_Send asked st) ?r3 = Inr (X_Filter, r')"
        using turn False Some
        by (auto simp: rexmit_sender_turn_def x p y q z w elim!: and_then_okE split: prod.splits sum.splits)
      from rexmit_go [OF go rexmit_go [OF send rexmit_go [OF this at_end]]] show ?thesis .
    qed
  qed
  then have "calls_to h aton ((idle ?r1)\<lparr>at_rexmit := X_Space ids []\<rparr>) (idle r')"
    by (intro space_calls [of ?r1 ids "[]" asked forget]) (simp_all add: y q)
  moreover have "rexmit_call h aton os now X_Filter r = Inr (X_Space ids [], ?r1)" by (simp add: x p)
  ultimately have "calls_to h aton ((idle r)\<lparr>at_rexmit := X_Filter\<rparr>) (idle r')" by (rule rexmit_go [rotated])
  then show ?thesis by (simp flip: idle_at)
qed

text \<open>The selection and its menu, up to sending it.\<close>

lemma select_calls:
  assumes x: "select_for_menu now later r = Inr ((names, sel), r1)" and ok: "system_ok os (rc_ui r)"
    and menu: "calls_to h aton ((idle r1)\<lparr>at_ui := U_Menu names sel\<rparr>) c"
  shows "calls_to h aton ((idle r)\<lparr>at_ui := U_Select\<rparr>) c"
proof -
  let ?call = "case enqueued_msu r of Some msu \<Rightarrow> select_get_selected now msu (rc_stations r)
    | None \<Rightarrow> get_selected now (rc_stations r)"
  from x obtain z where z: "?call = Inr z" by (auto simp: select_for_menu_def elim: and_then_okE)
  obtain new_selected ss where w: "z = (new_selected, ss)" by fastforce
  let ?r = "r\<lparr>rc_stations := ss\<rparr>"
  show ?thesis
  proof (cases new_selected)
    case None
    have r1: "names = []" "sel = None" "r1 = ?r\<lparr>rc_state := mark_dirty (rc_state r)\<rparr>"
      using x by (auto simp: select_for_menu_def z w None)
    have calls: "ui_call now os U_Select r = Inr (U_Mark, ?r)" "ui_call now os U_Mark ?r = Inr (U_Menu names sel, r1)"
      by (simp_all add: z w None r1)
    have "calls_to h aton ((idle ?r)\<lparr>at_ui := U_Mark\<rparr>) c"
      by (rule ui_go [OF calls(2) _ menu]) (simp add: ok)
    then show ?thesis by (rule ui_go [OF calls(1) ok])
  next
    case (Some st)
    let ?s = "?r\<lparr>rc_state := snd (register_address_check_change st (rc_state r))\<rparr>"
    from x obtain v where v: "get_station_names later ss = Inr v" "names = sort (fst v)" "sel = Some (st_name st)"
        "r1 = ?s\<lparr>rc_stations := snd v\<rparr>"
      by (auto simp: select_for_menu_def z w Some Let_def elim!: and_then_okE)
    have calls: "ui_call now os U_Select r = Inr (U_State st, ?r)"
        "ui_call now os (U_State st) ?r = Inr (U_Names (st_name st), ?s)"
      by (simp_all add: z w Some)
    have "ui_call later os (U_Names (st_name st)) ?s = Inr (U_Menu names sel, r1)"
      by (cases v) (use v in simp)
    then have "calls_to h aton ((idle ?s)\<lparr>at_ui := U_Names (st_name st)\<rparr>) c"
      by (rule ui_go [OF _ _ menu]) (simp add: ok)
    then have "calls_to h aton ((idle ?r)\<lparr>at_ui := U_State st\<rparr>) c"
      by (rule ui_go [OF calls(2), rotated]) (simp add: ok)
    then show ?thesis by (rule ui_go [OF calls(1) ok])
  qed
qed

lemma select_keeps_ui: "select_for_menu now later r = Inr (x, r1) \<Longrightarrow> rc_ui r1 = rc_ui r"
  by (auto simp: select_for_menu_def Let_def elim!: and_then_okE split: option.splits prod.splits)

lemma ui_turn_calls:
  assumes turn: "ui_handler_turn now later menu_os update_os r = Inr r'"
    and ok: "system_ok menu_os (rc_ui r)"
      "\<And>names sel ui. send_menu menu_os names sel (rc_ui r) = Inr ui \<Longrightarrow> system_ok update_os ui"
  shows "calls_to h aton (idle r) (idle r')"
proof -
  from turn obtain x where x: "select_for_menu now later r = Inr x"
    by (auto simp: ui_handler_turn_def elim: and_then_okE)
  obtain names sel r1 where p: "x = ((names, sel), r1)" by (metis surj_pair)
  note same_ui = select_keeps_ui [OF x [unfolded p]]
  from turn have "and_then (send_menu menu_os names sel (rc_ui r)) (\<lambda>ui.
      and_then (get_update update_os ui) (\<lambda>(msu, ui2). Inr (r1\<lparr>rc_ui := ui2, enqueued_msu := msu\<rparr>))) = Inr r'"
    by (simp add: ui_handler_turn_def x p same_ui)
  then obtain ui where ui: "send_menu menu_os names sel (rc_ui r) = Inr ui"
      "and_then (get_update update_os ui) (\<lambda>(msu, ui2). Inr (r1\<lparr>rc_ui := ui2, enqueued_msu := msu\<rparr>)) = Inr r'"
    by (rule and_then_okE)
  from ui(2) obtain y where y: "get_update update_os ui = Inr y"
      "(case y of (msu, ui2) \<Rightarrow> Inr (r1\<lparr>rc_ui := ui2, enqueued_msu := msu\<rparr>)) = (Inr r' :: receiver result)"
    by (rule and_then_okE)
  have "ui_call now update_os U_Update (r1\<lparr>rc_ui := ui\<rparr>) = Inr (U_Select, r')"
    using y by (cases y) simp
  from ui_go [OF this, of h aton "idle r'"] ok(2) [OF ui(1)]
  have "calls_to h aton ((idle (r1\<lparr>rc_ui := ui\<rparr>))\<lparr>at_ui := U_Update\<rparr>) (idle r')" by (simp flip: idle_at)
  then have "calls_to h aton ((idle r1)\<lparr>at_ui := U_Menu names sel\<rparr>) (idle r')"
    by (rule ui_go [where now = now and os = menu_os, rotated 2]) (simp_all add: ui(1) same_ui ok(1))
  from select_calls [OF x [unfolded p] ok(1) this] show ?thesis by (simp flip: idle_at)
qed

lemma turn_calls:
  assumes "receiver_step h aton r r'"
  shows "calls_to h aton (idle r) (idle r')"
  using assms
proof cases
  case (step_lookup results)
  then have "call_step h aton (idle r) ((idle r)\<lparr>shared := r'\<rparr>)"
    by (intro call_lookup) (simp add: idle_def)
  then show ?thesis by (simp add: idle_def r_into_rtranclp)
next
  case (step_resetter os now)
  from quiet_calls [OF reset_turn_calls [OF this]] show ?thesis .
next
  case (step_ctrl now rcv)
  from quiet_calls [OF ctrl_turn_calls [OF this]] show ?thesis .
next
  case (step_rexmit res now)
  from rexmit_turn_calls [OF this] show ?thesis .
next
  case step_stream
  from stream_turn_calls [OF this] show ?thesis .
next
  case (step_data now datagram)
  from data_turn_calls [OF this] show ?thesis .
next
  case (step_ui now later menu_os update_os)
  from ui_turn_calls [OF this] show ?thesis .
qed

lemma calls_reach:
  assumes "step\<^sup>*\<^sup>* s t" "reach start step s"
  shows "reach start step t"
  using assms(1)
proof induction
  case base
  show ?case by (rule assms(2))
next
  case (step t u)
  from step.IH step.hyps(2) show ?case by (rule reach_step)
qed

lemma turns_reach:
  assumes "reach (receiver_start h unset) (receiver_step h aton) r"
  shows "reach (calls_start h unset) (call_step h aton) (idle r)"
  using assms
proof induction
  case (reach_start r)
  then show ?case by (intro reach.reach_start) (auto simp: calls_start_def)
next
  case (reach_step r r')
  from turn_calls [OF reach_step.hyps(2)] reach_step.IH show ?case by (rule calls_reach)
qed

text \<open>The resetter's turn between letting a packet through and writing it.\<close>

lemma stale_write:
  assumes "at_reset c = R_Check" "at_data c = D_Write m"
    and "dirty (rc_state (shared c))" "active_station (rc_state (shared c)) = Some st"
    and "data_connect h aton os st (rc_socket (shared c)) = (Inr (), ds)"
    and "dm_data m = Some d" "0 < length d" "length d < 2 ^ 63" "length d dvd unat (dm_id m)"
  shows "\<exists>c'. (call_step h aton)\<^sup>*\<^sup>* c c' \<and> at_reset c' = R_Check \<and> at_data c' = D_Read
    \<and> \<not> dirty (rc_state (shared c')) \<and> rc_socket (shared c') = ds
    \<and> slots (rc_buffer (shared c')) = [(dm_id m, Some d)] \<and> byte_zero (rc_buffer (shared c')) = dm_id m
    \<and> package_size (rc_buffer (shared c')) = of_nat (length d)"
proof -
  let ?r = "shared c"
  let ?r1 = "?r\<lparr>rc_state := (rc_state ?r)\<lparr>dirty := False\<rparr>\<rparr>"
  let ?r2 = "?r1\<lparr>rc_buffer := buffer_reset (rc_buffer ?r)\<rparr>"
  let ?r3 = "?r2\<lparr>rc_rexmits := rexmit_reset 0 (rc_rexmits ?r)\<rparr>"
  let ?r4 = "?r3\<lparr>rc_socket := ds\<rparr>"
  have "buf_inv (buffer_reset (rc_buffer ?r))" by (simp add: buf_inv_reset)
  from write_first [OF this _ assms(6-9)] obtain b where b: "write_get_missed m (buffer_reset (rc_buffer ?r)) = Some (Inr [], b)"
      "slots b = [(dm_id m, Some d)]" "byte_zero b = dm_id m" "package_size b = of_nat (length d)"
    by (auto simp: buffer_reset_def)
  have "call_step h aton c (c\<lparr>at_reset := R_Buffer (Some st), shared := ?r1\<rparr>)"
    by (rule call_reset) (use assms(1,3,4) in \<open>simp add: check_state_def\<close>)
  moreover have "call_step h aton \<dots> (c\<lparr>at_reset := R_Rexmits (Some st), shared := ?r2\<rparr>)"
    using call_reset [of h aton os 0 "c\<lparr>at_reset := R_Buffer (Some st), shared := ?r1\<rparr>"] by simp
  moreover have "call_step h aton \<dots> (c\<lparr>at_reset := R_Connect st, shared := ?r3\<rparr>)"
    using call_reset [of h aton os 0 "c\<lparr>at_reset := R_Rexmits (Some st), shared := ?r2\<rparr>"] by simp
  moreover have "call_step h aton \<dots> (c\<lparr>at_reset := R_Check, shared := ?r4\<rparr>)"
    using call_reset [of h aton os 0 "c\<lparr>at_reset := R_Connect st, shared := ?r3\<rparr>"] assms(5) by simp
  moreover have "call_step h aton \<dots> (c\<lparr>at_reset := R_Check, at_data := D_Read, shared := ?r4\<lparr>rc_buffer := b\<rparr>\<rparr>)"
    using call_data [of h 0 Timed_Out "c\<lparr>at_reset := R_Check, shared := ?r4\<rparr>" D_Read "?r4\<lparr>rc_buffer := b\<rparr>" aton] assms(2) b(1)
    by simp
  ultimately have "(call_step h aton)\<^sup>*\<^sup>* c (c\<lparr>at_reset := R_Check, at_data := D_Read, shared := ?r4\<lparr>rc_buffer := b\<rparr>\<rparr>)"
    by (meson converse_rtranclp_into_rtranclp rtranclp.rtrancl_refl)
  then show ?thesis
    by (rule exI [of _ "c\<lparr>at_reset := R_Check, at_data := D_Read, shared := ?r4\<lparr>rc_buffer := b\<rparr>\<rparr>", OF conjI])
      (simp add: b)
qed

subsection \<open>Properties\<close>



text \<open>C9: however the calls of the seven threads interleave, the buffer, the schedule of requests, the set of
  stations and the table of clients satisfy their invariants after every call, in the middle of turns too.\<close>
theorem calls_stay_sound:
  assumes "reach (calls_start h unset) (call_step h aton) c"
  shows "buf_inv (rc_buffer (shared c)) \<and> rexmit_inv (rc_rexmits (shared c))
    \<and> station_inv (rc_stations (shared c)) \<and> ui_inv (rc_ui (shared c))"
  using receiver_calls_run.reach_good [OF assms] by (simp add: calls_inv_def sound_def)


text \<open>C16: even with calls that do not overlap, a packet can outlive the reset that is meant to drop it, since
  \<open>data_mut\<close> is not held: a packet that has been read from the old station and let through is written
  after the resetter has emptied the buffer and connected to the new one. It becomes the first packet
  of the new station's buffer, whose packet size and numbers are then those of the old station's.\<close>
theorem old_packet_survives_reset:
  assumes "at_reset c = R_Check" "at_data c = D_Write m"
    and "dirty (rc_state (shared c))" "active_station (rc_state (shared c)) = Some st"
    and "data_connect h aton os st (rc_socket (shared c)) = (Inr (), ds)"
    and "dm_data m = Some d" "0 < length d" "length d < 2 ^ 63" "length d dvd unat (dm_id m)"
  shows "\<exists>c'. (call_step h aton)\<^sup>*\<^sup>* c c' \<and> at_reset c' = R_Check \<and> at_data c' = D_Read
    \<and> \<not> dirty (rc_state (shared c')) \<and> rc_socket (shared c') = ds
    \<and> slots (rc_buffer (shared c')) = [(dm_id m, Some d)] \<and> byte_zero (rc_buffer (shared c')) = dm_id m
    \<and> package_size (rc_buffer (shared c')) = of_nat (length d)"
  by (rule stale_write [OF assms])

text \<open>A reachable state: the receiver plays a station, session 7 has begun, and its packet of the bytes 2 and 3
  has been let through while the resetter has still to act.\<close>

lemma packet_let_through:
  "\<exists>c st. reach (calls_start Little_Endian unset_station) (call_step Little_Endian (\<lambda>_. Some 1)) c
    \<and> at_reset c = R_Check \<and> at_data c = D_Write (data_msg_full 2 7 [8, 9]) \<and> dirty (rc_state (shared c))
    \<and> active_station (rc_state (shared c)) = Some st"
proof -
  let ?h = Little_Endian and ?aton = "\<lambda>_. Some 1 :: u32 option"
  let ?raw1 = "[7, 0, 0, 0, 0, 0, 0, 0, 0, 0, 0, 0, 0, 0, 0, 0, 6, 7] :: msg_t"
  let ?raw2 = "[7, 0, 0, 0, 0, 0, 0, 0, 2, 0, 0, 0, 0, 0, 0, 0, 8, 9] :: msg_t"
  have wire: "data_msg_raw ?h ?raw1 = Inr (data_msg_full 0 7 [6, 7])" "data_msg_raw ?h ?raw2 = Inr (data_msg_full 2 7 [8, 9])"
    by (simp_all add: data_msg_raw_def value_at_def data_msg_full_def)
  obtain r st where r: "reach (receiver_start ?h unset_station) (receiver_step ?h ?aton) r" "\<not> dirty (rc_state r)"
      "session_id (rc_state r) = 0" "active_station (rc_state r) = Some st" and sock: "sock (rc_socket r) \<noteq> -1"
    using tuned_in by blast
  let ?r = "r\<lparr>rc_state := (rc_state r)\<lparr>session_id := 7, dirty := True\<rparr>\<rparr>"
  have "data_receiver_turn ?h 0 (Received ?raw1) r = Some (Inr ?r)"
    by (rule receive_new_session [OF sock wire(1)]) (simp_all add: r(3) data_msg_full_def)
  then have "receiver_step ?h ?aton r ?r" using step_data [of ?h 0 "Received ?raw1" r ?r ?aton] by simp
  with r(1) have "reach (receiver_start ?h unset_station) (receiver_step ?h ?aton) ?r" by (rule reach_step)
  then have idle: "reach (calls_start ?h unset_station) (call_step ?h ?aton) (idle ?r)" by (rule turns_reach)
  let ?m = "data_msg_full 2 7 [8, 9]"
  let ?c1 = "(idle ?r)\<lparr>at_data := D_Session ?m 7, shared := ?r\<rparr>" and ?c2 = "(idle ?r)\<lparr>at_data := D_Write ?m, shared := ?r\<rparr>"
  have "data_call ?h 0 (Received ?raw2) (at_data (idle ?r)) (shared (idle ?r)) = Some (Inr (D_Session ?m 7, ?r))"
    using sock wire(2) by (simp add: idle_def data_try_read_def get_session_id_def data_msg_full_def)
  then have "call_step ?h ?aton (idle ?r) ?c1"
    using call_data [of ?h 0 "Received ?raw2" "idle ?r" "D_Session ?m 7" ?r ?aton] by simp
  with idle have "reach (calls_start ?h unset_station) (call_step ?h ?aton) ?c1" by (rule reach_step)
  moreover have "call_step ?h ?aton ?c1 ?c2"
    using call_data [of ?h 0 Timed_Out ?c1 "D_Write ?m" ?r ?aton] by (simp add: register_session_check_ignore_def)
  ultimately have "reach (calls_start ?h unset_station) (call_step ?h ?aton) ?c2" by (rule reach_step)
  moreover have "at_reset ?c2 = R_Check" "at_data ?c2 = D_Write ?m" "dirty (rc_state (shared ?c2))"
      "active_station (rc_state (shared ?c2)) = Some st"
    by (simp_all add: idle_def r(4))
  ultimately show ?thesis by (intro exI [of _ ?c2] exI [of _ st] conjI)
qed

text \<open>Its packet is written after the reset.\<close>

lemma stale_packet_ready:
  obtains c st ds where "reach (calls_start Little_Endian unset_station) (call_step Little_Endian (\<lambda>_. Some 1)) c"
    "at_reset c = R_Check" "at_data c = D_Write (data_msg_full 2 7 [8, 9])" "dirty (rc_state (shared c))"
    "active_station (rc_state (shared c)) = Some st"
    "data_connect Little_Endian (\<lambda>_. Some 1) good_calls st (rc_socket (shared c)) = (Inr (), ds)"
    "dm_data (data_msg_full 2 7 [8, 9]) = Some [8, 9]" "0 < length [8, 9 :: byte]" "length [8, 9 :: byte] < 2 ^ 63"
    "length [8, 9 :: byte] dvd unat (dm_id (data_msg_full 2 7 [8, 9]))"
proof -
  obtain c st where c: "reach (calls_start Little_Endian unset_station) (call_step Little_Endian (\<lambda>_. Some 1)) c"
      "at_reset c = R_Check" "at_data c = D_Write (data_msg_full 2 7 [8, 9])" "dirty (rc_state (shared c))"
      "active_station (rc_state (shared c)) = Some st"
    using packet_let_through by blast
  obtain ds where connect: "data_connect Little_Endian (\<lambda>_. Some 1) good_calls st (rc_socket (shared c)) = (Inr (), ds)"
    by (rule data_connect_succeeds [where os = good_calls and aton = "\<lambda>_. Some 1" and st = st]) simp_all
  have m: "dm_data (data_msg_full 2 7 [8, 9]) = Some [8, 9]" "dm_id (data_msg_full 2 7 [8, 9]) = 2"
    by (simp_all add: data_msg_full_def)
  have two: "length [8, 9 :: byte] = 2" by simp
  have size: "0 < length [8, 9 :: byte]" "length [8, 9 :: byte] < 2 ^ 63"
      "length [8, 9 :: byte] dvd unat (dm_id (data_msg_full 2 7 [8, 9]))"
    unfolding m(2) two by simp_all
  show thesis by (rule that [OF c connect m(1) size])
qed

lemma stale_packet_written:
  "\<exists>c. reach (calls_start Little_Endian unset_station) (call_step Little_Endian (\<lambda>_. Some 1)) c
    \<and> slots (rc_buffer (shared c)) = [(2, Some [8, 9])]"
proof (rule stale_packet_ready, goal_cases)
  case (1 c st ds)
  have "dm_id (data_msg_full 2 7 [8, 9]) = 2" by (simp add: data_msg_full_def)
  with stale_write [OF 1(2-)] calls_reach [OF _ 1(1)] show ?case by metis
qed

theorem old_packet_survives_reset_witness:
  "\<exists>c c'. reach (calls_start Little_Endian unset_station) (call_step Little_Endian (\<lambda>_. Some 1)) c
    \<and> (call_step Little_Endian (\<lambda>_. Some 1))\<^sup>*\<^sup>* c c' \<and> slots (rc_buffer (shared c')) = [(2, Some [8, 9])]"
proof (rule stale_packet_ready, goal_cases)
  case (1 c st ds)
  have "dm_id (data_msg_full 2 7 [8, 9]) = 2" by (simp add: data_msg_full_def)
  with old_packet_survives_reset [OF 1(2-)] 1(1) show ?case by metis
qed

text \<open>A packet of a new session has been let through and is still to be written.\<close>

theorem calls_stay_sound_witness:
  "\<exists>c :: receiver_calls. at_data c = D_Write (data_msg_full 2 7 [8, 9]) \<and> dirty (rc_state (shared c))
    \<and> buf_inv (rc_buffer (shared c)) \<and> rexmit_inv (rc_rexmits (shared c))
    \<and> station_inv (rc_stations (shared c)) \<and> ui_inv (rc_ui (shared c))"
proof -
  obtain c where c: "reach (calls_start Little_Endian unset_station) (call_step Little_Endian (\<lambda>_. Some 1)) c"
      "at_data c = D_Write (data_msg_full 2 7 [8, 9])" "dirty (rc_state (shared c))"
    using packet_let_through by blast
  from calls_stay_sound [OF c(1)] c(2,3) show ?thesis by blast
qed


end
