(* ===== verification/Output_Order.thy ===== *)
theory Output_Order
  imports Buffer_Order Turn_Calls
begin

text \<open>
  The output of the receiver: however its threads interleave, what they do to the buffer is a run of the
  buffer's own calls, and the standard output ends with what that run has read since the buffer was last
  empty or reset.
\<close>

subsection \<open>The output and the buffer's history\<close>

text \<open>The payload that the streaming thread has read and is about to write.\<close>

fun pending :: "stream_pc \<Rightarrow> msg_t" where
  "pending (S_Output d) = d"
| "pending _ = []"

definition audio :: "receiver_calls \<Rightarrow> byte list" where
  "audio c = played (shared c) @ pending (at_stream c)"

text \<open>Where the packets come from: a set of numbered payloads.\<close>

definition is_from :: "(msg_id_t \<times> msg_t) set \<Rightarrow> data_msg \<Rightarrow> bool" where
  "is_from P m \<longleftrightarrow> (\<exists>d. dm_data m = Some d \<and> (dm_id m, d) \<in> P)"

fun holds_from :: "(msg_id_t \<times> msg_t) set \<Rightarrow> data_pc \<Rightarrow> bool" where
  "holds_from P (D_Session m i) \<longleftrightarrow> is_from P m"
| "holds_from P (D_Write m) \<longleftrightarrow> is_from P m"
| "holds_from P _ \<longleftrightarrow> True"

text \<open>The output is what has been read before the buffer was last empty or reset, \<open>out\<close>, and since.\<close>

definition plays :: "(msg_id_t \<times> msg_t) set \<Rightarrow> playback \<Rightarrow> (msg_id_t \<times> msg_t) list \<Rightarrow> receiver_calls \<Rightarrow> bool" where
  "plays P p out c \<longleftrightarrow>
     reach playback_start playback_step p \<and> pb_buffer p = rc_buffer (shared c)
     \<and> audio c = concat (map snd (out @ pb_read p)) \<and> set out \<union> set (pb_written p) \<subseteq> P"

lemma plays_same:
  "plays P p out c \<Longrightarrow> rc_buffer (shared c') = rc_buffer (shared c) \<Longrightarrow> audio c' = audio c \<Longrightarrow> plays P p out c'"
  by (simp add: plays_def)

lemma plays_in_order: "plays P p out c \<Longrightarrow> in_order p"
  using playback_runs.reach_good by (simp add: plays_def)

lemma plays_step:
  assumes "plays P p out c" "playback_step p p'" "pb_buffer p' = rc_buffer (shared c')" "set (pb_written p') \<subseteq> P"
    and "pb_read p' = pb_read p @ new \<or> pb_read p' = [] \<and> new = []" "audio c' = audio c @ concat (map snd new)"
  shows "\<exists>p out. plays P p out c'"
proof -
  have reach: "reach playback_start playback_step p'"
    using assms(1,2) unfolding plays_def by (blast intro: reach_step)
  from assms(5) show ?thesis
  proof
    assume "pb_read p' = pb_read p @ new"
    with assms(1,3,4,6) reach have "plays P p' out c'" by (simp add: plays_def)
    then show ?thesis by blast
  next
    assume "pb_read p' = [] \<and> new = []"
    moreover have "set (pb_read p) \<subseteq> P"
      using plays_in_order [OF assms(1)] assms(1) by (auto simp: in_order_def plays_def)
    ultimately have "plays P p' (out @ pb_read p) c'" using assms(1,3,4,6) reach by (simp add: plays_def)
    then show ?thesis by blast
  qed
qed

subsection \<open>The calls\<close>

lemma other_calls:
  "reset_call h aton os now pc r = Inr (pc', r') \<Longrightarrow> played r' = played r
     \<and> (rc_buffer r' = rc_buffer r \<or> rc_buffer r' = buffer_reset (rc_buffer r))"
  "ctrl_call h now rcv cpc r = Inr (cpc', r') \<Longrightarrow> played r' = played r \<and> rc_buffer r' = rc_buffer r"
  "rexmit_call h aton res now xpc r = Inr (xpc', r') \<Longrightarrow> played r' = played r \<and> rc_buffer r' = rc_buffer r"
  "ui_call now ui_os upc r = Inr (upc', r') \<Longrightarrow> played r' = played r \<and> rc_buffer r' = rc_buffer r"
  "lookup_sender_turn h aton results r = Some (Inr r') \<Longrightarrow> played r' = played r \<and> rc_buffer r' = rc_buffer r"
proof -
  assume "reset_call h aton os now pc r = Inr (pc', r')"
  then show "played r' = played r \<and> (rc_buffer r' = rc_buffer r \<or> rc_buffer r' = buffer_reset (rc_buffer r))"
    by (cases pc) (auto simp: Let_def split: prod.splits sum.splits)
next
  assume "ctrl_call h now rcv cpc r = Inr (cpc', r')"
  then show "played r' = played r \<and> rc_buffer r' = rc_buffer r"
    by (cases cpc; cases rcv) (auto simp: ctrl_try_read_def map_sum_ok_iff split: if_splits)
next
  assume "rexmit_call h aton res now xpc r = Inr (xpc', r')"
  then show "played r' = played r \<and> rc_buffer r' = rc_buffer r"
    by (cases "(h, aton, res, now, xpc, r)" rule: rexmit_call.cases)
      (auto simp: map_sum_ok_iff split: if_splits prod.splits sum.splits elim!: and_then_okE)
next
  assume "ui_call now ui_os upc r = Inr (upc', r')"
  then show "played r' = played r \<and> rc_buffer r' = rc_buffer r"
    by (cases upc) (auto simp: map_sum_ok_iff)
next
  assume "lookup_sender_turn h aton results r = Some (Inr r')"
  then show "played r' = played r \<and> rc_buffer r' = rc_buffer r"
    by (auto simp: lookup_sender_turn_def map_sum_ok_iff split: sum.splits prod.splits)
qed

lemma data_call_plays:
  assumes "plays P p out c" "data_call h now rcv (at_data c) (shared c) = Some (Inr (pc, r))"
    and "holds_payload (at_data c)" "holds_from P (at_data c)"
  shows "\<exists>p out. plays P p out (c\<lparr>at_data := pc, shared := r\<rparr>)"
proof (cases "\<exists>m. at_data c = D_Write m")
  case True
  then obtain m where m: "at_data c = D_Write m" ..
  with assms(4) obtain d where d: "dm_data m = Some d" "(dm_id m, d) \<in> P" by (auto simp: is_from_def)
  obtain res b where b: "write_get_missed m (rc_buffer (shared c)) = Some (res, b)"
    using assms(2) m by (cases "write_get_missed m (rc_buffer (shared c))") auto
  have r: "r = (shared c)\<lparr>rc_buffer := b\<rparr>"
    using assms(2) by (cases res) (simp_all add: m b split: cpp_error.splits)
  have wr: "write_get_missed m (pb_buffer p) = Some (res, b)" using assms(1) b by (simp add: plays_def)
  have "payload_exists m" using assms(3) m by simp
  note step = pb_write [OF d(1) this wr]
  show ?thesis
    by (rule plays_step [OF assms(1) step, where new = "[]"])
      (use assms(1) d(2) in \<open>simp_all add: audio_def r plays_def\<close>)
next
  case False
  with assms(2) have "rc_buffer r = rc_buffer (shared c) \<and> played r = played (shared c)"
    by (cases "at_data c") (auto simp: map_sum_ok_iff split: sum.splits option.splits prod.splits)
  then show ?thesis by (intro exI [of _ p] exI [of _ out] plays_same [OF assms(1)]) (simp_all add: audio_def)
qed

lemma stream_call_plays:
  assumes "plays P p out c" "stream_call (at_stream c) (shared c) = Inr (pc, r)"
  shows "\<exists>p out. plays P p out (c\<lparr>at_stream := pc, shared := r\<rparr>)"
proof (cases "at_stream c")
  case S_Read
  obtain res b where read: "buffer_try_read (rc_buffer (shared c)) = (res, b)" by fastforce
  then have pb: "buffer_try_read (pb_buffer p) = (res, b)" using assms(1) by (simp add: plays_def)
  have written: "set (pb_written p) \<subseteq> P" using assms(1) by (simp add: plays_def)
  show ?thesis
  proof (cases "\<exists>d. res = Inr (Some d)")
    case True
    then obtain d where d: "res = Inr (Some d)" ..
    with assms(2) S_Read read have r: "pc = S_Output d" "r = (shared c)\<lparr>rc_buffer := b\<rparr>" by simp_all
    show ?thesis
      by (rule plays_step [OF assms(1) playback_step.pb_read [OF pb [unfolded d]],
            where new = "[(hd (msg_ids (pb_buffer p)), d)]"])
        (simp_all add: audio_def S_Read r written)
  next
    case False
    with assms(2) S_Read read have r: "pending pc = []" "r = (shared c)\<lparr>rc_buffer := b\<rparr>"
      by (auto split: sum.splits option.splits cpp_error.splits)
    have none: "\<And>d. res \<noteq> Inr (Some d)" using False by blast
    show ?thesis
      by (rule plays_step [OF assms(1) pb_no_read [OF pb none], where new = "[]"])
        (simp_all add: audio_def S_Read r written)
  qed
next
  case S_Mark
  with assms(2) show ?thesis by (intro exI [of _ p] exI [of _ out] plays_same [OF assms(1)]) (auto simp: audio_def)
next
  case (S_Output d)
  with assms(2) show ?thesis by (intro exI [of _ p] exI [of _ out] plays_same [OF assms(1)]) (auto simp: audio_def)
qed

lemma data_call_holds:
  assumes "data_call h now rcv pc r = Some (Inr (pc', r'))" "holds_from P pc"
    and "\<And>m i. pc = D_Read \<Longrightarrow> pc' = D_Session m i \<Longrightarrow> is_from P m"
  shows "holds_from P pc'"
proof (cases pc)
  case D_Read
  with assms(1) have "pc' = D_Read \<or> (\<exists>m i. pc' = D_Session m i)"
    by (auto simp: map_sum_ok_iff split: sum.splits option.splits)
  with assms(3) [OF D_Read] show ?thesis by auto
next
  case (D_Write m)
  then obtain res b where "write_get_missed m (rc_buffer r) = Some (res, b)"
    using assms(1) by (cases "write_get_missed m (rc_buffer r)") auto
  with assms(1) D_Write show ?thesis by (cases res) (auto split: if_splits cpp_error.splits)
qed (use assms in \<open>auto simp: Let_def split: if_splits prod.splits\<close>)

text \<open>The packet that a call has read is one that it was given.\<close>

lemma call_reads_packet:
  assumes "call_step h aton c c'" "at_data c = D_Read" "at_data c' = D_Session m i"
  obtains raw where "data_msg_raw h raw = Inr m"
  using assms
proof cases
  case (call_data now datagram pc r)
  with assms(2,3) obtain raw where "data_msg_raw h raw = Inr m"
    by (cases datagram) (auto simp: data_try_read_def map_sum_ok_iff split: sum.splits option.splits if_splits)
  then show thesis by (rule that)
qed auto

definition output_inv :: "(msg_id_t \<times> msg_t) set \<Rightarrow> host \<Rightarrow> (string \<Rightarrow> u32 option) \<Rightarrow> station \<Rightarrow> receiver_calls \<Rightarrow> bool" where
  "output_inv P h aton unset c \<longleftrightarrow>
     calls_inv h aton unset c \<and> holds_from P (at_data c) \<and> (\<exists>p out. plays P p out c)"

lemma output_start:
  assumes "calls_start h unset c"
  shows "output_inv P h aton unset c"
proof -
  obtain r where r: "receiver_start h unset r" "c = idle r" using assms by (auto simp: calls_start_def)
  then obtain n e s where b: "rc_buffer r = buffer_init n e s" "played r = []"
    using receiver_init_members by (fastforce simp: receiver_start_def receiver_members_def)
  have "buffer_start (rc_buffer r)" unfolding buffer_start_def using b(1) by blast
  then have "plays P \<lparr>pb_buffer = rc_buffer r, pb_read = [], pb_written = []\<rparr> [] (idle r)"
    by (auto simp: plays_def audio_def idle_def playback_start_def b(2) intro!: reach_start)
  with receiver_calls_run.good_start [OF assms] show ?thesis
    by (auto simp: output_inv_def r(2) idle_def)
qed

lemma output_step:
  assumes step: "call_step h aton c c'" and inv: "output_inv P h aton unset c"
    and reads: "\<And>m i. at_data c = D_Read \<Longrightarrow> at_data c' = D_Session m i \<Longrightarrow> is_from P m"
  shows "output_inv P h aton unset c'"
proof -
  from inv obtain p out where p: "plays P p out c" and data: "holds_payload (at_data c)" "holds_from P (at_data c)"
    by (auto simp: output_inv_def calls_inv_def)
  note same = plays_same [OF p]
  have "holds_from P (at_data c') \<and> (\<exists>p out. plays P p out c')"
    using step
  proof cases
    case (call_reset os now pc r)
    note keeps = other_calls(1) [OF call_reset(2)]
    show ?thesis
    proof (cases "rc_buffer r = rc_buffer (shared c)")
      case True
      with keeps data(2) same [of c'] show ?thesis by (auto simp: call_reset(1) audio_def)
    next
      case False
      with keeps have "rc_buffer r = buffer_reset (pb_buffer p)" "played r = played (shared c)"
        using p by (simp_all add: plays_def)
      with data(2) plays_step [OF p pb_reset, of c' "[]"] show ?thesis
        by (simp add: call_reset(1) audio_def)
    qed
  next
    case (call_ctrl now rcv pc r)
    with other_calls(2) [OF call_ctrl(2)] data(2) same [of c'] show ?thesis by (auto simp: audio_def)
  next
    case (call_lookup results r)
    with other_calls(5) [OF call_lookup(2)] data(2) same [of c'] show ?thesis by (auto simp: audio_def)
  next
    case (call_rexmit res now pc r)
    with other_calls(3) [OF call_rexmit(2)] data(2) same [of c'] show ?thesis by (auto simp: audio_def)
  next
    case (call_data now datagram pc r)
    have "holds_from P pc" by (rule data_call_holds [OF call_data(2) data(2)]) (use reads call_data(1) in simp)
    with data_call_plays [OF p call_data(2) data] show ?thesis by (simp add: call_data(1))
  next
    case (call_stream pc r)
    from stream_call_plays [OF p call_stream(2)] data(2) show ?thesis by (simp add: call_stream(1))
  next
    case (call_ui now os pc r)
    with other_calls(4) [OF call_ui(2)] data(2) same [of c'] show ?thesis by (auto simp: audio_def)
  qed
  with receiver_calls_run.good_step [OF step] inv show ?thesis by (simp add: output_inv_def)
qed

text \<open>Whatever packets are received.\<close>

interpretation receiver_output: inductive_invariant
    "calls_start h unset" "call_step h aton" "output_inv UNIV h aton unset"
  for h unset aton
proof unfold_locales
  fix c c'
  show "output_inv UNIV h aton unset c" if "calls_start h unset c" by (rule output_start [OF that])
  assume step: "call_step h aton c c'" and inv: "output_inv UNIV h aton unset c"
  show "output_inv UNIV h aton unset c'"
  proof (rule output_step [OF step inv])
    fix m i assume "at_data c = D_Read" "at_data c' = D_Session m i"
    then obtain raw where "data_msg_raw h raw = Inr m" by (rule call_reads_packet [OF step])
    then show "is_from UNIV m" by (auto simp: is_from_def data_msg_raw_ok_iff)
  qed
qed

subsection \<open>Property\<close>



end
