(* ===== verification/Radio.thy ===== *)
theory Radio
  imports Sender_Net Output_Order
begin

text \<open>
  One sender and any number of receivers, joined by a network that may lose, repeat and reorder datagrams
  but makes none up: what the data socket of a receiver reads has been transmitted by the sender, as it
  is. Control messages, the users and the systems' answers are arbitrary.
\<close>

subsection \<open>The system\<close>

record radio =
  on_air :: net_run
  receivers :: "nat \<Rightarrow> receiver_calls"

definition datagrams :: "net_run \<Rightarrow> msg_t set" where
  "datagrams n = set (transmitted (nr_send n)) \<union> set (transmitted (nr_resend n))"

text \<open>The packet that a step of a receiver has read is one of these datagrams.\<close>

definition reads_from :: "host \<Rightarrow> msg_t set \<Rightarrow> receiver_calls \<Rightarrow> receiver_calls \<Rightarrow> bool" where
  "reads_from h D c c' \<longleftrightarrow>
     (\<forall>m k. at_data c = D_Read \<longrightarrow> at_data c' = D_Session m k \<longrightarrow> (\<exists>raw \<in> D. data_msg_raw h raw = Inr m))"

inductive radio_step :: "host \<Rightarrow> (string \<Rightarrow> u32 option) \<Rightarrow> radio \<Rightarrow> radio \<Rightarrow> bool" for h aton where
  sender_moves: "net_step h aton (on_air s) n \<Longrightarrow> radio_step h aton s (s\<lparr>on_air := n\<rparr>)"
| receiver_moves: "call_step h aton (receivers s i) c \<Longrightarrow> reads_from h (datagrams (on_air s)) (receivers s i) c \<Longrightarrow>
    radio_step h aton s (s\<lparr>receivers := (receivers s)(i := c)\<rparr>)"

definition radio_start :: "host \<Rightarrow> (nat \<Rightarrow> station) \<Rightarrow> transmitter \<Rightarrow> byte list \<Rightarrow> radio \<Rightarrow> bool" where
  "radio_start h unset t inp s \<longleftrightarrow>
     net_start t inp (on_air s) \<and> (\<forall>i. calls_start h (unset i) (receivers s i))"

subsection \<open>What is on the air\<close>

text \<open>The packets of the input, as numbered payloads.\<close>

definition numbered_payloads :: "u64 \<Rightarrow> byte list \<Rightarrow> (msg_id_t \<times> msg_t) set" where
  "numbered_payloads p inp =
     (\<lambda>k. (of_nat k * p, payload (unat p) (replicate (unat p) 0) inp k)) ` {.. length inp div unat p}"

lemma packets_numbered_payloads:
  "set (packets p inp) = (\<lambda>(i, d). data_msg_id_data i d) ` numbered_payloads p inp"
  by (simp add: packets_def numbered_payloads_def image_image atLeast0LessThan lessThan_Suc_atMost del: upt_Suc)

lemma numbered_payload:
  assumes "(i, d) \<in> numbered_payloads p inp" "p \<noteq> 0" "length inp < 2 ^ 64"
  shows "length d = unat p" "unat i \<le> length inp" "prefix (take (unat p) (drop (unat i) inp)) d"
proof -
  obtain k where k: "k \<le> length inp div unat p" "i = of_nat k * p" "d = payload (unat p) (replicate (unat p) 0) inp k"
    using assms(1) by (auto simp: numbered_payloads_def)
  have p: "0 < unat p" using assms(2) by (simp add: unat_gt_0)
  then show "length d = unat p" using length_payload [OF k(1)] k(3) by simp
  have "packets p inp ! k = data_msg_id_data i d" using k by (simp add: packets_def nth_append del: upt_Suc)
  then have i: "unat i = k * unat p"
    using packets_numbered [OF assms(3), of p] k(1) unfolding numbered_def
    by (metis data_msg_id_data_def data_msg.select_convs(1) length_packets less_Suc_eq_le Suc_eq_plus1)
  have "k * unat p \<le> length inp div unat p * unat p" using k(1) by (rule mult_le_mono1)
  then show "unat i \<le> length inp" using i div_times_less_eq_dividend le_trans by metis
  show "prefix (take (unat p) (drop (unat i) inp)) d" by (simp add: k(3) i payload_def Let_def)
qed

lemma on_air_packets:
  assumes "fresh t inp" "reach (net_start t inp) (net_step h aton) n" "raw \<in> datagrams n"
  obtains m where "m \<in> set (packets (PSIZE t) inp)" "raw = wire h (tx_session_id t) m"
proof -
  from sender_net.reach_good [OF assms(2)]
  have n: "carries h aton t n" "reach (sender_start t inp) (sender_step h) (nr_run n)" by simp_all
  from sender_threads.reach_good [OF n(2)] assms(1) have good: "run_good h t inp (nr_run n)" by blast
  then obtain out todo cached where "progress h t inp (nr_run n) out todo cached" by (auto simp: run_good_def)
  then have "sent (nr_run n) = map (wire h (tx_session_id t)) out" "set out \<subseteq> set (packets (PSIZE t) inp)"
    by (auto simp: progress_def)
  moreover have "\<forall>raw \<in> set (resent (nr_run n)). \<exists>m. resendable t inp m \<and> raw = wire h (tx_session_id t) m"
    using good by (simp add: run_good_def list_all_iff)
  ultimately show thesis
    using assms(3) n(1) that by (fastforce simp: datagrams_def carries_def resendable_def)
qed

lemma read_from_input:
  assumes "fresh t inp" "reach (net_start t inp) (net_step h aton) n" "raw \<in> datagrams n" "data_msg_raw h raw = Inr m"
  shows "is_from (numbered_payloads (PSIZE t) inp) m"
proof -
  obtain m' where m': "m' \<in> set (packets (PSIZE t) inp)" "raw = wire h (tx_session_id t) m'"
    using on_air_packets [OF assms(1-3)] .
  then obtain i d where id: "(i, d) \<in> numbered_payloads (PSIZE t) inp" "m' = data_msg_id_data i d"
    by (auto simp: packets_numbered_payloads)
  then have "m = data_msg_full i (tx_session_id t) d" using m'(2) assms(4) by (simp add: raw_of_wire_data)
  with id(1) show ?thesis by (simp add: is_from_def data_msg_full_def)
qed

subsection \<open>What is played\<close>

definition radio_inv :: "host \<Rightarrow> (string \<Rightarrow> u32 option) \<Rightarrow> (nat \<Rightarrow> station) \<Rightarrow> transmitter \<Rightarrow> byte list \<Rightarrow> radio \<Rightarrow> bool" where
  "radio_inv h aton unset t inp s \<longleftrightarrow>
     reach (net_start t inp) (net_step h aton) (on_air s)
     \<and> (fresh t inp \<longrightarrow> (\<forall>i. output_inv (numbered_payloads (PSIZE t) inp) h aton (unset i) (receivers s i)))"

interpretation radio_runs: inductive_invariant "radio_start h unset t inp" "radio_step h aton" "radio_inv h aton unset t inp"
  for h unset t inp aton
proof unfold_locales
  fix s s'
  show "radio_inv h aton unset t inp s" if "radio_start h unset t inp s"
    using that output_start by (auto simp: radio_start_def radio_inv_def intro: reach_start)
  assume "radio_step h aton s s'" and inv: "radio_inv h aton unset t inp s"
  then show "radio_inv h aton unset t inp s'"
  proof cases
    case (sender_moves n)
    with inv show ?thesis by (auto simp: radio_inv_def intro: reach_step)
  next
    case (receiver_moves i c)
    have "output_inv (numbered_payloads (PSIZE t) inp) h aton (unset i) c" if fresh: "fresh t inp"
    proof (rule output_step [OF receiver_moves(2)])
      show "output_inv (numbered_payloads (PSIZE t) inp) h aton (unset i) (receivers s i)"
        using inv fresh by (simp add: radio_inv_def)
      fix m k assume "at_data (receivers s i) = D_Read" "at_data c = D_Session m k"
      then obtain raw where raw: "raw \<in> datagrams (on_air s)" "data_msg_raw h raw = Inr m"
        using receiver_moves(3) unfolding reads_from_def by blast
      from read_from_input [OF fresh _ this] inv show "is_from (numbered_payloads (PSIZE t) inp) m"
        unfolding radio_inv_def by blast
    qed
    with inv show ?thesis by (auto simp: radio_inv_def receiver_moves(1))
  qed
qed

subsection \<open>Property\<close>


text \<open>The steps of a receiver whose thread for packets is at the start of its turn, and takes none.\<close>

lemma quiet_radio:
  assumes "quiet_to h aton c c'" "receivers s i = c" "at_data c = D_Read"
  shows "(radio_step h aton)\<^sup>*\<^sup>* s (s\<lparr>receivers := (receivers s)(i := c')\<rparr>) \<and> at_data c' = D_Read"
  using assms(1)
proof (induction rule: rtranclp_induct)
  case base
  have same: "s\<lparr>receivers := (receivers s)(i := c)\<rparr> = s" using assms(2) by (cases s) auto
  show ?case unfolding same using assms(3) by simp
next
  case (step d d')
  let ?s = "\<lambda>c. s\<lparr>receivers := (receivers s)(i := c)\<rparr>"
  from step have d': "call_step h aton d d'" "at_data d' = D_Read" by (simp_all add: quiet_step_def)
  then have "radio_step h aton (?s d) (?s d')"
    using receiver_moves [of h aton "?s d" i d'] by (simp add: reads_from_def)
  with step.IH d'(2) show ?case by (meson rtranclp.rtrancl_into_rtrancl)
qed

text \<open>The sender has sent its first packet; the first of the receivers has tuned in and reads it.\<close>

lemma sample_radio:
  "\<exists>s. reach (radio_start Little_Endian (\<lambda>_. unset_station) sample_transmitter [9]) (radio_step Little_Endian (\<lambda>_. Some 1)) s
    \<and> at_data (receivers s 0) = D_Session (data_msg_full 0 7 [9, 0]) 7"
proof -
  let ?h = Little_Endian and ?aton = "\<lambda>_. Some 1 :: u32 option" and ?t = sample_transmitter
  let ?reach = "reach (radio_start ?h (\<lambda>_. unset_station) ?t [9]) (radio_step ?h ?aton)"
  obtain n where n: "reach (net_start ?t [9]) (net_step ?h ?aton) n" "transmitted (nr_send n) = [sample_packet]"
    using sample_on_air by blast
  have started: "receiver_start ?h unset_station started"
    using started [of ?h "\<lambda>_ _. False"] by (auto elim: reach.cases)
  let ?s = "\<lambda>c. \<lparr>on_air = n, receivers = (\<lambda>_. idle started)(0 := c)\<rparr>"
  have "?reach \<lparr>on_air = n, receivers = \<lambda>_. idle started\<rparr>"
    using n(1)
  proof induction
    case (reach_start n)
    then show ?case using started by (intro reach.reach_start) (auto simp: radio_start_def calls_start_def)
  next
    case (reach_step n n')
    from reach_step.IH sender_moves [of ?h ?aton "\<lparr>on_air = n, receivers = \<lambda>_. idle started\<rparr>" n'] reach_step.hyps(2)
    show ?case by (auto intro: reach.reach_step)
  qed
  moreover obtain r1 r2 where r: "quiet_to ?h ?aton (idle started) (idle r1)" "quiet_to ?h ?aton (idle r1) (idle r2)"
      "sock (rc_socket r2) \<noteq> -1"
    using tuning_turns [of ?h] ctrl_turn_calls reset_turn_calls by metis
  have "quiet_to ?h ?aton (idle started) (idle r2)" using r(1,2) by simp
  from quiet_radio [OF this, of "\<lparr>on_air = n, receivers = \<lambda>_. idle started\<rparr>" 0]
  have "(radio_step ?h ?aton)\<^sup>*\<^sup>* \<lparr>on_air = n, receivers = \<lambda>_. idle started\<rparr> (?s (idle r2))" by (simp add: idle_def)
  ultimately have reach: "?reach (?s (idle r2))" by (rule calls_reach [rotated])
  let ?m = "data_msg_full 0 7 [9, 0]"
  let ?c = "(idle r2)\<lparr>at_data := D_Session ?m 7, shared := r2\<rparr>"
  have m: "data_msg_raw ?h sample_packet = Inr ?m"
    by (simp add: sample_packet_def data_msg_raw_def value_at_def data_msg_full_def)
  then have "data_call ?h 0 (Received sample_packet) D_Read r2 = Some (Inr (D_Session ?m 7, r2))"
    using r(3) by (simp add: data_try_read_def get_session_id_def data_msg_full_def)
  then have "call_step ?h ?aton (idle r2) ?c"
    using call_data [of ?h 0 "Received sample_packet" "idle r2" "D_Session ?m 7" r2 ?aton]
    by (simp add: idle_def sample_packet_def)
  moreover have "reads_from ?h (datagrams n) (idle r2) ?c"
    using n(2) m by (auto simp: reads_from_def datagrams_def)
  ultimately have "radio_step ?h ?aton (?s (idle r2)) (?s ?c)"
    using receiver_moves [of ?h ?aton "?s (idle r2)" 0 ?c] by simp
  with reach have "?reach (?s ?c)" by (rule reach_step)
  then show ?thesis by (intro exI [of _ "?s ?c"]) simp
qed


end
