(* ===== verification/Protocol.thy ===== *)
theory Protocol
  imports Receiver_Run Transmitter
begin

text \<open>
  The control protocol between the two programs: what one of them sends, read by the other. The texts are
  those that the receiver's socket has handed to the system and that the sender's listener and the
  receiver's thread read.
\<close>

subsection \<open>The sender's listener\<close>

lemma listener_answers_lookup:
  "run_listener_once t \<lparr>msg_data = ctrl_sendable make_lookup\<rparr>
     = Inr ([make_reply (NAME t) (MCAST_ADDR t) (DATA_PORT t)], [])"
proof -
  have msg: "\<lparr>msg_data = ctrl_sendable make_lookup\<rparr> = make_lookup" by (simp add: ctrl_sendable_def)
  have "is_lookup make_lookup" "\<not> is_rexmit make_lookup" using ctrl_msg_kinds_exclusive [of make_lookup] by blast+
  then show ?thesis by (simp add: run_listener_once_def msg)
qed

lemma listener_reads_request:
  "run_listener_once t \<lparr>msg_data = ctrl_sendable (make_rexmit ids)\<rparr> = Inr ([], ids)"
proof -
  have msg: "\<lparr>msg_data = ctrl_sendable (make_rexmit ids)\<rparr> = make_rexmit ids" by (simp add: ctrl_sendable_def)
  have "is_rexmit (make_rexmit ids)" "\<not> is_lookup (make_rexmit ids)"
    using ctrl_msg_kinds_exclusive [of "make_rexmit ids"] by blast+
  then show ?thesis by (simp add: run_listener_once_def msg rexmit_round_trip)
qed

subsection \<open>Properties\<close>



text \<open>C10: a request arrives as it was meant: when the retransmission thread asks the selected station and the
  system takes the request, the sender's listener reads from it exactly the identifiers that were
  due and have a slot in the receiver's buffer, in ascending order, and sends no reply.\<close>
theorem request_reaches_sender:
  assumes "rexmit_inv (rc_rexmits r)" "buf_inv (rc_buffer r)"
    and "\<And>i. due_at (rc_rexmits r) i \<noteq> None \<Longrightarrow> unat (package_size (rc_buffer r)) dvd unat i"
    and "get_selected now (rc_stations r) = Inr (Some st, ss)"
    and "make_address h aton (ctrl_address st) (ctrl_port st) = Inr addr"
  defines "asked \<equiv> {i \<in> set (msg_ids (rc_buffer r)). i \<notin> set (ids_to_forget r)
      \<and> (\<exists>t. due_at (rc_rexmits r) i = Some t \<and> t \<le> now)}"
  assumes "asked \<noteq> {}" "fst os = int (length (ctrl_sendable (make_rexmit (sorted_list_of_set asked))))"
  shows "\<exists>r' text. rexmit_sender_turn h aton os now r = Inr r'
    \<and> ctl_sent (rc_ctrl r') = ctl_sent (rc_ctrl r) @ [(addr, text)]
    \<and> run_listener_once t \<lparr>msg_data = text\<rparr> = Inr ([], sorted_list_of_set asked)"
proof -
  let ?due = "{i. i \<notin> set (ids_to_forget r) \<and> (\<exists>t. due_at (rc_rexmits r) i = Some t \<and> t \<le> now)}"
  have asked: "?due \<inter> set (msg_ids (rc_buffer r)) = asked" by (auto simp: asked_def)
  then have "msg_ids (rc_buffer r) \<noteq> []" using assms(7) by auto
  with rexmit_turn_asks [OF assms(1-5), of os] assms(7,8) obtain r' where
      "rexmit_sender_turn h aton os now r = Inr r'"
      "ctl_sent (rc_ctrl r') = ctl_sent (rc_ctrl r) @ [(addr, ctrl_sendable (make_rexmit (sorted_list_of_set asked)))]"
    unfolding Let_def asked by auto
  with listener_reads_request show ?thesis by blast
qed

theorem request_reaches_sender_witness:
  "\<exists>r' text. rexmit_sender_turn Little_Endian (\<lambda>_. Some 16777226)
        (int (length (ctrl_sendable (make_rexmit [6]))), []) 10 sample_pending = Inr r'
    \<and> ctl_sent (rc_ctrl r') = [(\<lparr>sin_port = 63115, sin_addr = 16777226\<rparr>, text)]
    \<and> run_listener_once sample_transmitter \<lparr>msg_data = text\<rparr> = Inr ([], [6])"
proof -
  have ids: "msg_ids (rc_buffer sample_pending) = [4, 6, 8]" "package_size (rc_buffer sample_pending) = 2"
    by (simp_all add: sample_pending_fields(1) sample_buffer_fields)
  have asked: "{i \<in> set (msg_ids (rc_buffer sample_pending)). i \<notin> set (ids_to_forget sample_pending)
      \<and> (\<exists>t. due_at (rc_rexmits sample_pending) i = Some t \<and> t \<le> 10)} = {6}"
    by (auto simp: ids sample_pending_ok(2) sample_pending_fields(2))
  have addr: "make_address Little_Endian (\<lambda>_. Some 16777226) (ctrl_address sample_station) (ctrl_port sample_station)
      = Inr \<lparr>sin_port = 63115, sin_addr = 16777226\<rparr>"
    by (simp add: make_address_def htons_def sample_station_def)
  have aligned: "unat (package_size (rc_buffer sample_pending)) dvd unat i"
    if "due_at (rc_rexmits sample_pending) i \<noteq> None" for i
    using that by (auto simp: sample_pending_ok(2) ids(2) split: if_splits)
  have inv: "buf_inv (rc_buffer sample_pending)"
    by (simp add: sample_pending_fields(1) sample_buffer_ok)
  show ?thesis
    using request_reaches_sender [OF sample_pending_ok(1) inv aligned sample_pending_ok(3) addr,
        where os = "(int (length (ctrl_sendable (make_rexmit [6]))), [])" and t = sample_transmitter]
    unfolding asked by (simp add: sample_pending_fields(3))
qed

end
